(* ===== verification/Rgrpc_Prelude.thy ===== *)
theory Rgrpc_Prelude
  imports Complex_Main "HOL-Library.Word" "HOL-Library.AList" "HOL-Library.Multiset"
begin

text \<open>
  The prelude of the development: the types every component shares, the result type of the
  C++ entry points (a value, an R error, or undefined behaviour), the fragment of
  \<^verbatim>\<open>std::map\<close> and of the R value type that the sources use, and the generic list lemmas
  the component proofs rest on.  It holds no model of a particular source function except the
  small conversions between R doubles and 64-bit call ids.
\<close>

section \<open>Collections of rewrite rules\<close>

named_theorems res_simps \<open>evaluation of the result type\<close>
named_theorems frame \<open>fields an operation leaves alone\<close>
named_theorems model_defs \<open>definitions to unfold when a whole operation is evaluated\<close>

section \<open>Types of the model\<close>

type_synonym u64 = "64 word"
type_synonym addr = nat
type_synonym md_pairs = "(string \<times> string) list"

text \<open>
  A \<^verbatim>\<open>std::string\<close> is a sequence of bytes, which is what HOL's \<^typ>\<open>string\<close> is;
  it stands for texts and for message payloads alike.
\<close>

section \<open>Results: a value, an R error, or undefined behaviour\<close>

text \<open>
  \<open>Rf_error\<close> is the non-local exit to R.  The others are undefined behaviour in C++: a
  pointer whose object was deleted is dereferenced, \<^verbatim>\<open>front\<close>/\<^verbatim>\<open>pop_front\<close>/\<^verbatim>\<open>erase\<close> is
  applied to an empty deque, or memory is copied past the end of a buffer.
\<close>

datatype fault = Rf_error string | Use_after_free | Empty_deque | Out_of_bounds

type_synonym 'a res = "fault + 'a"

definition rbind :: "'a res \<Rightarrow> ('a \<Rightarrow> 'b res) \<Rightarrow> 'b res" where
  "rbind m f = (case m of Inl e \<Rightarrow> Inl e | Inr x \<Rightarrow> f x)"

lemma rbind_simps [simp, res_simps]:
  "rbind (Inl e) f = Inl e"
  "rbind (Inr x) f = f x"
  by (simp_all add: rbind_def)

lemma rbind_Inr_iff: "rbind m f = Inr y \<longleftrightarrow> (\<exists>x. m = Inr x \<and> f x = Inr y)"
  by (cases m) auto

lemma map_sum_Inr_iff: "map_sum f g r = Inr y \<longleftrightarrow> (\<exists>x. r = Inr x \<and> g x = y)"
  by (cases r) auto

lemma rbind_Inl_iff: "rbind m f = Inl e \<longleftrightarrow> m = Inl e \<or> (\<exists>x. m = Inr x \<and> f x = Inl e)"
  by (cases m) auto

lemma rbind_cong [cong]: "m = m' \<Longrightarrow> (\<And>x. m' = Inr x \<Longrightarrow> f x = g x) \<Longrightarrow> rbind m f = rbind m' g"
  by (cases m') auto

text \<open>Dereferencing a pointer: the object at an address, or undefined behaviour.\<close>

definition deref :: "(addr \<rightharpoonup> 'a) \<Rightarrow> addr \<Rightarrow> 'a res" where
  "deref h a = (case h a of None \<Rightarrow> Inl Use_after_free | Some x \<Rightarrow> Inr x)"

lemma deref_Some [simp, res_simps]: "h a = Some x \<Longrightarrow> deref h a = Inr x"
  by (simp add: deref_def)

lemma deref_None [simp, res_simps]: "h a = None \<Longrightarrow> deref h a = Inl Use_after_free"
  by (simp add: deref_def)

lemma deref_Inr_iff: "deref h a = Inr x \<longleftrightarrow> h a = Some x"
  by (cases "h a") auto

text \<open>Folding a fallible operation over a list, as a range-for loop does.\<close>

fun rfold :: "('x \<Rightarrow> 's \<Rightarrow> 's res) \<Rightarrow> 'x list \<Rightarrow> 's \<Rightarrow> 's res" where
  "rfold f [] s = Inr s"
| "rfold f (x # xs) s = rbind (f x s) (rfold f xs)"

lemma rfold_append: "rfold f (xs @ ys) s = rbind (rfold f xs s) (rfold f ys)"
proof (induction xs arbitrary: s)
  case Nil
  show ?case by simp
next
  case (Cons x xs)
  then show ?case by (cases "f x s") simp_all
qed

text \<open>An invariant that every successful step keeps, and that rules faults out, survives the fold.\<close>

lemma rfold_inv:
  assumes "I s" and "\<And>x s. x \<in> set xs \<Longrightarrow> I s \<Longrightarrow> \<exists>s'. f x s = Inr s' \<and> I s'"
  shows "\<exists>s'. rfold f xs s = Inr s' \<and> I s'"
  using assms
proof (induction xs arbitrary: s)
  case Nil
  then show ?case by simp
next
  case (Cons x xs)
  from Cons.prems obtain s1 where "f x s = Inr s1" and "I s1" by fastforce
  moreover from \<open>I s1\<close> have "\<exists>s'. rfold f xs s1 = Inr s' \<and> I s'"
    by (rule Cons.IH) (use Cons.prems(2) in auto)
  ultimately show ?case by simp
qed

section \<open>R values\<close>

text \<open>
  The values the entry points hand back to R.  The only doubles they build are call ids and
  millisecond counts, which are integral; \<open>None\<close> is \<^verbatim>\<open>NA_REAL\<close>.  The optional string lists are
  the names attribute.
\<close>

datatype sexp =
    R_NilValue
  | R_Logical bool
  | R_Integer int
  | R_Real "int option"
  | R_String "string list" "string list option"
  | R_Raw string
  | R_List "sexp list" "string list option"
  | R_ExternalPtr

section \<open>Call ids and doubles\<close>

text \<open>
  \<^verbatim>\<open>(double) id\<close> rounds a 64-bit integer to a 53-bit significand, to nearest with ties to even.
  \<open>round_even n k\<close> rounds \<open>n\<close> to a multiple of \<open>2 ^ k\<close>.
\<close>

definition round_even :: "nat \<Rightarrow> nat \<Rightarrow> nat" where
  "round_even n k =
     (let q = n div 2 ^ k; r = n mod 2 ^ k
      in (if 2 * r < 2 ^ k \<or> (2 * r = 2 ^ k \<and> even q) then q else q + 1) * 2 ^ k)"

fun excess_bits :: "nat \<Rightarrow> nat \<Rightarrow> nat" where
  "excess_bits 0 n = 0"
| "excess_bits (Suc fuel) n = (if n < 2 ^ 53 then 0 else Suc (excess_bits fuel (n div 2)))"

definition double_of_u64 :: "u64 \<Rightarrow> int" where
  "double_of_u64 w = int (round_even (unat w) (excess_bits 11 (unat w)))"

text \<open>
  \<^verbatim>\<open>(uint64_t) d\<close> for an integral double in range.  Out of range the cast is undefined in C++; the
  model then wraps, and nothing below relies on it: every id that R holds comes from
  \<open>double_of_u64\<close>, and an id that no call has is refused whatever it is.
\<close>

definition u64_of_double :: "int \<Rightarrow> u64" where
  "u64_of_double d = word_of_int d"

lemma excess_bits_small: "n < 2 ^ 53 \<Longrightarrow> excess_bits fuel n = 0"
  by (cases fuel) simp_all

lemma double_of_u64_exact: "unat w < 2 ^ 53 \<Longrightarrow> double_of_u64 w = int (unat w)"
  by (simp only: double_of_u64_def excess_bits_small) (simp add: round_even_def)

lemma u64_double_roundtrip: "unat w < 2 ^ 53 \<Longrightarrow> u64_of_double (double_of_u64 w) = w"
  by (simp add: double_of_u64_exact u64_of_double_def)

lemma unat_plus_one_u64: "unat (w :: u64) < 2 ^ 64 - 1 \<Longrightarrow> unat (w + 1) = unat w + 1"
  by (subst unat_add_lem [THEN iffD1]) simp_all

text \<open>\<^verbatim>\<open>(int) n\<close> for a size: the low 32 bits, read as two's complement.\<close>

definition int_of_size :: "nat \<Rightarrow> int" where
  "int_of_size n = sint (of_nat n :: 32 word)"

section \<open>The ordered map of the C++ standard library\<close>

text \<open>
  \<^verbatim>\<open>std::map<uint64_t, T*>\<close>: an association list without duplicate keys.  The keys inserted are
  fresh and increasing, so insertion at the end keeps the ascending iteration order.
\<close>

definition m_find :: "('k \<times> 'v) list \<Rightarrow> 'k \<Rightarrow> 'v option" where
  "m_find m k = map_of m k"

definition m_insert :: "'k \<Rightarrow> 'v \<Rightarrow> ('k \<times> 'v) list \<Rightarrow> ('k \<times> 'v) list" where
  "m_insert k v m = AList.update k v m"

definition m_erase :: "'k \<Rightarrow> ('k \<times> 'v) list \<Rightarrow> ('k \<times> 'v) list" where
  "m_erase k m = filter (\<lambda>kv. fst kv \<noteq> k) m"

definition m_size :: "('k \<times> 'v) list \<Rightarrow> nat" where
  "m_size m = length m"

definition m_ok :: "('k \<times> 'v) list \<Rightarrow> bool" where
  "m_ok m \<longleftrightarrow> distinct (map fst m)"

locale ordered_map =
  fixes find :: "'m \<Rightarrow> 'k \<Rightarrow> 'v option"
    and insert_at :: "'k \<Rightarrow> 'v \<Rightarrow> 'm \<Rightarrow> 'm"
    and erase :: "'k \<Rightarrow> 'm \<Rightarrow> 'm"
    and size_of :: "'m \<Rightarrow> nat"
    and empty_map :: "'m"
    and ok :: "'m \<Rightarrow> bool"
  assumes ok_empty: "ok empty_map"
    and ok_insert: "ok m \<Longrightarrow> ok (insert_at k v m)"
    and ok_erase: "ok m \<Longrightarrow> ok (erase k m)"
    and find_empty: "find empty_map k = None"
    and find_insert: "find (insert_at k v m) k' = (if k' = k then Some v else find m k')"
    and find_erase: "find (erase k m) k' = (if k' = k then None else find m k')"
    and size_empty: "size_of empty_map = 0"
    and size_insert: "ok m \<Longrightarrow> find m k = None \<Longrightarrow> size_of (insert_at k v m) = size_of m + 1"
    and size_erase: "ok m \<Longrightarrow> find m k \<noteq> None \<Longrightarrow> size_of (erase k m) + 1 = size_of m"
begin

lemma size_pos: "ok m \<Longrightarrow> find m k \<noteq> None \<Longrightarrow> 0 < size_of m"
  using size_erase [of m k] by linarith

lemma erase_insert_find: "find (erase k (insert_at k v m)) k' = find (erase k m) k'"
  by (simp add: find_erase find_insert)

end

lemma length_filter_key:
  "distinct (map fst m) \<Longrightarrow> k \<in> fst ` set m \<Longrightarrow>
   length (filter (\<lambda>kv. fst kv \<noteq> k) m) + 1 = length m"
proof (induction m)
  case Nil
  then show ?case by simp
next
  case (Cons kv m)
  show ?case
  proof (cases "fst kv = k")
    case True
    with Cons.prems have "\<forall>kv' \<in> set m. fst kv' \<noteq> k" by (force simp: image_iff)
    then have "filter (\<lambda>kv. fst kv \<noteq> k) m = m" by (simp add: filter_id_conv)
    with True show ?thesis by simp
  next
    case False
    with Cons show ?thesis by auto
  qed
qed

interpretation smap: ordered_map m_find m_insert m_erase m_size "[]" m_ok
proof unfold_locales
  fix m :: "('k \<times> 'v) list" and k k' v
  show "m_find (m_insert k v m) k' = (if k' = k then Some v else m_find m k')"
    by (simp add: m_find_def m_insert_def update_conv')
  show "m_find (m_erase k m) k' = (if k' = k then None else m_find m k')"
    by (induction m) (auto simp: m_find_def m_erase_def)
  show "m_ok m \<Longrightarrow> m_ok (m_insert k v m)"
    by (simp add: m_ok_def m_insert_def distinct_update)
  show "m_ok m \<Longrightarrow> m_ok (m_erase k m)"
    by (auto simp: m_ok_def m_erase_def distinct_map inj_on_def)
  show "m_ok m \<Longrightarrow> m_find m k = None \<Longrightarrow> m_size (m_insert k v m) = m_size m + 1"
    by (induction m) (auto simp: m_ok_def m_find_def m_insert_def m_size_def split: if_splits)
  show "m_ok m \<Longrightarrow> m_find m k \<noteq> None \<Longrightarrow> m_size (m_erase k m) + 1 = m_size m"
    using length_filter_key [of m k]
    by (auto simp: m_ok_def m_find_def m_erase_def m_size_def map_of_eq_None_iff)
qed (simp_all add: m_ok_def m_find_def m_size_def)

lemmas smap_simps [simp] =
  smap.ok_empty smap.ok_insert smap.ok_erase smap.find_empty smap.find_insert smap.find_erase
  smap.size_empty

lemma m_find_SomeD: "m_find m k = Some v \<Longrightarrow> (k, v) \<in> set m"
  by (simp add: m_find_def map_of_SomeD)

lemma m_find_set: "m_ok m \<Longrightarrow> (k, v) \<in> set m \<Longrightarrow> m_find m k = Some v"
  by (simp add: m_find_def m_ok_def)

lemma m_find_empty: "(\<And>k. m_find m k = None) \<Longrightarrow> m = []"
proof (cases m)
  case (Cons kv m')
  moreover assume "\<And>k. m_find m k = None"
  then have "m_find m (fst kv) = None" .
  ultimately show ?thesis by (simp add: m_find_def)
qed

section \<open>Counting outstanding completion tags\<close>

lemma count_list_snoc [simp]: "count_list (xs @ [y]) x = count_list xs x + (if y = x then 1 else 0)"
  by simp

lemma count_list_remove1 [simp]:
  "count_list (remove1 y xs) x = (if x = y then count_list xs x - 1 else count_list xs x)"
  by (induction xs) (auto simp: count_list_0_iff)

lemma count_list_pos_iff: "0 < count_list xs x \<longleftrightarrow> x \<in> set xs"
  by (induction xs) auto

section \<open>Accepted messages\<close>

text \<open>The history of accepted sends lists the object and the message; this is one object's share.\<close>

definition sent_to :: "addr \<Rightarrow> (addr \<times> string) list \<Rightarrow> string list" where
  "sent_to a xs = map snd (filter (\<lambda>x. fst x = a) xs)"

lemma sent_to_simps [simp]:
  "sent_to a [] = []" "sent_to a (xs @ ys) = sent_to a xs @ sent_to a ys"
  "sent_to a [(b, m)] = (if b = a then [m] else [])"
  by (simp_all add: sent_to_def)

section \<open>Reachable states and their invariants\<close>

inductive reachable :: "('s \<Rightarrow> bool) \<Rightarrow> ('s \<Rightarrow> 's \<Rightarrow> bool) \<Rightarrow> 's \<Rightarrow> bool"
  for initial and step where
  init: "initial s \<Longrightarrow> reachable initial step s"
| step: "reachable initial step s \<Longrightarrow> step s s' \<Longrightarrow> reachable initial step s'"

text \<open>
  A bounded system: a measure that no step decreases, and an invariant that holds while the
  measure stays below a bound (here the number of 64-bit ids handed out).
\<close>

locale bounded_system =
  fixes initial :: "'s \<Rightarrow> bool"
    and step :: "'s \<Rightarrow> 's \<Rightarrow> bool"
    and used :: "'s \<Rightarrow> nat"
    and limit :: nat
    and inv :: "'s \<Rightarrow> bool"
  assumes used_step: "step s s' \<Longrightarrow> used s \<le> used s'"
    and inv_init: "initial s \<Longrightarrow> inv s"
    and inv_step: "inv s \<Longrightarrow> step s s' \<Longrightarrow> used s' < limit \<Longrightarrow> inv s'"
begin

lemma reachable_inv: "reachable initial step s \<Longrightarrow> used s < limit \<Longrightarrow> inv s"
proof (induction rule: reachable.induct)
  case (init s)
  then show ?case by (simp add: inv_init)
next
  case (step s s')
  from used_step [OF step.hyps(2)] step.prems have "inv s" by (intro step.IH) simp
  then show ?case using step.hyps(2) step.prems by (rule inv_step)
qed

end

end
