(* ===== verification/Conversions.thy ===== *)
theory Conversions
  imports Rgrpc_Prelude
begin

text \<open>
  The conversion helpers of \<^verbatim>\<open>src/common.h\<close> and the small ones of \<^verbatim>\<open>src/client.cpp\<close>.  A gRPC
  byte buffer is seen through \<^verbatim>\<open>ByteBuffer::Dump\<close>: \<open>None\<close> when it fails, else the slices.  The R
  function \<^verbatim>\<open>Rf_mkCharLen\<close>, which may raise an R error, is the parameter \<open>mkCharLen\<close> of every
  definition that calls it.
\<close>

section \<open>Byte buffers\<close>

definition grpc_byte_buffer_to_string :: "string list option \<Rightarrow> string \<Rightarrow> bool \<times> string" where
  "grpc_byte_buffer_to_string dump out =
     (case dump of
        None \<Rightarrow> (False, out)
      | Some slices \<Rightarrow> (True, foldl (\<lambda>out s. out @ s) [] slices))"

text \<open>\<^verbatim>\<open>std::memcpy(p, s.begin(), s.size())\<close> into a buffer of known size, at an offset.\<close>

definition memcpy_at :: "string \<Rightarrow> nat \<Rightarrow> string \<Rightarrow> string res" where
  "memcpy_at buf p s =
     (if p + length s \<le> length buf then Inr (take p buf @ s @ drop (p + length s) buf)
      else Inl Out_of_bounds)"

fun copy_slices :: "string list \<Rightarrow> string \<Rightarrow> nat \<Rightarrow> string res" where
  "copy_slices [] out p = Inr out"
| "copy_slices (s # slices) out p =
     rbind (memcpy_at out p s) (\<lambda>out. copy_slices slices out (p + length s))"

text \<open>\<open>junk\<close> is the uninitialised content of the freshly allocated raw vector.\<close>

definition grpc_byte_buffer_to_raw :: "(nat \<Rightarrow> char) \<Rightarrow> string list option \<Rightarrow> sexp res" where
  "grpc_byte_buffer_to_raw junk dump =
     (case dump of
        None \<Rightarrow> Inr R_NilValue
      | Some slices \<Rightarrow>
          let total = sum_list (map length slices)
          in rbind (copy_slices slices (map junk [0..<total]) 0) (\<lambda>out. Inr (R_Raw out)))"

section \<open>Metadata\<close>

type_synonym mk_char_len = "string \<Rightarrow> int \<Rightarrow> string res"

fun pairs_loop :: "mk_char_len \<Rightarrow> md_pairs \<Rightarrow> string list \<Rightarrow> string list \<Rightarrow> (string list \<times> string list) res" where
  "pairs_loop mkCharLen [] names values = Inr (names, values)"
| "pairs_loop mkCharLen ((k, v) # md) names values =
     rbind (mkCharLen k (int_of_size (length k))) (\<lambda>n.
     rbind (mkCharLen v (int_of_size (length v))) (\<lambda>x.
       pairs_loop mkCharLen md (names @ [n]) (values @ [x])))"

definition grpc_pairs_to_r :: "mk_char_len \<Rightarrow> md_pairs \<Rightarrow> sexp res" where
  "grpc_pairs_to_r mkCharLen md =
     rbind (pairs_loop mkCharLen md [] []) (\<lambda>(names, values). Inr (R_String values (Some names)))"

text \<open>\<open>md\<close> is the multimap in iteration order.\<close>

definition grpc_metadata_to_r :: "mk_char_len \<Rightarrow> md_pairs \<Rightarrow> sexp res" where
  "grpc_metadata_to_r mkCharLen md =
     rbind (pairs_loop mkCharLen md [] []) (\<lambda>(names, values). Inr (R_String values (Some names)))"

definition copy_md :: "md_pairs \<Rightarrow> md_pairs \<Rightarrow> md_pairs" where
  "copy_md src dst = foldl (\<lambda>dst kv. dst @ [(fst kv, snd kv)]) dst src"

definition md_pairs_or_null :: "mk_char_len \<Rightarrow> md_pairs \<Rightarrow> sexp res" where
  "md_pairs_or_null mkCharLen md = grpc_pairs_to_r mkCharLen md"

text \<open>\<open>None\<close> is \<^verbatim>\<open>R_NilValue\<close>; otherwise the first element of the character vector, in UTF-8.\<close>

definition chr_or_empty :: "string option \<Rightarrow> string" where
  "chr_or_empty x = (case x of None \<Rightarrow> [] | Some s \<Rightarrow> s)"

text \<open>\<^verbatim>\<open>s.c_str()\<close> as a C function reads it: up to the first NUL.\<close>

definition c_str :: "string \<Rightarrow> string" where
  "c_str s = takeWhile (\<lambda>c. c \<noteq> CHR 0x00) s"

section \<open>Lemmas\<close>

lemma foldl_append: "foldl (\<lambda>out s. out @ s) acc slices = acc @ concat slices"
  by (induction slices arbitrary: acc) simp_all

lemma grpc_byte_buffer_to_string_eq:
  "grpc_byte_buffer_to_string dump out = (case dump of None \<Rightarrow> (False, out) | Some sl \<Rightarrow> (True, concat sl))"
  by (simp add: grpc_byte_buffer_to_string_def foldl_append split: option.split)

text \<open>
  A history of the messages handed over with completed reads, each with the id of its call: those
  of one call, and the text of a message.
\<close>

definition reads_of :: "u64 \<Rightarrow> (u64 \<times> string list option) list \<Rightarrow> string list option list" where
  "reads_of i g = map snd (filter (\<lambda>x. fst x = i) g)"

definition message_text :: "string list option \<Rightarrow> string" where
  "message_text d = snd (grpc_byte_buffer_to_string d [])"

lemma reads_of_simps [simp]:
  "reads_of i [] = []" "reads_of i (xs @ ys) = reads_of i xs @ reads_of i ys"
  "reads_of i [(j, d)] = (if j = i then [d] else [])"
  by (simp_all add: reads_of_def)

lemma message_text_Some [simp]: "message_text (Some slices) = concat slices"
  by (simp add: message_text_def grpc_byte_buffer_to_string_eq)

lemma copy_md_eq: "copy_md src dst = dst @ src"
  unfolding copy_md_def by (induction src arbitrary: dst) simp_all

text \<open>The copy loop fills the buffer from left to right and never writes past its end.\<close>

lemma copy_slices_eq:
  "p + sum_list (map length slices) = length out \<Longrightarrow>
   copy_slices slices out p = Inr (take p out @ concat slices)"
proof (induction slices arbitrary: out p)
  case Nil
  then show ?case by simp
next
  case (Cons s slices)
  let ?out = "take p out @ s @ drop (p + length s) out"
  from Cons.prems have m: "memcpy_at out p s = Inr ?out"
    by (simp add: memcpy_at_def)
  have "p + length s + sum_list (map length slices) = length ?out"
    using Cons.prems by simp
  then have "copy_slices slices ?out (p + length s) = Inr (take (p + length s) ?out @ concat slices)"
    by (rule Cons.IH)
  moreover have "take (p + length s) ?out = take p out @ s"
    using Cons.prems by simp
  ultimately show ?case by (simp add: m)
qed

lemma pairs_loop_ok:
  assumes "\<And>k v. (k, v) \<in> set md \<Longrightarrow>
    mkCharLen k (int_of_size (length k)) = Inr k \<and> mkCharLen v (int_of_size (length v)) = Inr v"
  shows "pairs_loop mkCharLen md names values = Inr (names @ map fst md, values @ map snd md)"
  using assms
proof (induction md arbitrary: names "values")
  case Nil
  then show ?case by simp
next
  case (Cons kv md)
  obtain k v where kv: "kv = (k, v)" by (cases kv)
  from Cons.prems [of k v] have "mkCharLen k (int_of_size (length k)) = Inr k"
    and "mkCharLen v (int_of_size (length v)) = Inr v"
    by (simp_all add: kv)
  moreover have "pairs_loop mkCharLen md (names @ [k]) (values @ [v]) =
      Inr ((names @ [k]) @ map fst md, (values @ [v]) @ map snd md)"
    by (rule Cons.IH) (use Cons.prems in auto)
  ultimately show ?case by (simp add: kv)
qed

lemma grpc_pairs_to_r_ok:
  assumes "\<And>k v. (k, v) \<in> set md \<Longrightarrow>
    mkCharLen k (int_of_size (length k)) = Inr k \<and> mkCharLen v (int_of_size (length v)) = Inr v"
  shows "grpc_pairs_to_r mkCharLen md = Inr (R_String (map snd md) (Some (map fst md)))"
  using pairs_loop_ok [of md mkCharLen "[]" "[]", OF assms] by (simp add: grpc_pairs_to_r_def)

text \<open>The only way to fail: \<open>mkCharLen\<close> raises on a key or a value.\<close>

definition md_refused :: "mk_char_len \<Rightarrow> md_pairs \<Rightarrow> fault \<Rightarrow> bool" where
  "md_refused mkCharLen md e \<longleftrightarrow>
     (\<exists>(k, v) \<in> set md. mkCharLen k (int_of_size (length k)) = Inl e \<or> mkCharLen v (int_of_size (length v)) = Inl e)"

lemma pairs_loop_refused: "pairs_loop mkCharLen md names values = Inl e \<Longrightarrow> md_refused mkCharLen md e"
  by (induction md arbitrary: names "values") (auto simp: md_refused_def rbind_Inl_iff)

lemma grpc_pairs_to_r_refused: "grpc_pairs_to_r mkCharLen md = Inl e \<Longrightarrow> md_refused mkCharLen md e"
  by (auto simp: grpc_pairs_to_r_def rbind_Inl_iff intro: pairs_loop_refused)

lemma pairs_loop_fails:
  assumes "mkCharLen v (int_of_size (length v)) = Inl e" and "(k, v) \<in> set md"
  shows "\<exists>e'. pairs_loop mkCharLen md names values = Inl e'"
  using assms(2)
proof (induction md arbitrary: names "values")
  case Nil
  then show ?case by simp
next
  case (Cons kv md)
  obtain k0 v0 where kv: "kv = (k0, v0)" by (cases kv)
  show ?case
  proof (cases "kv = (k, v)")
    case True
    then show ?thesis
      using assms(1) by (cases "mkCharLen k (int_of_size (length k))") simp_all
  next
    case False
    with Cons.prems have "(k, v) \<in> set md" by simp
    then show ?thesis
      using Cons.IH [of "names @ [_]" "values @ [_]"]
      by (cases "mkCharLen k0 (int_of_size (length k0))"; cases "mkCharLen v0 (int_of_size (length v0))")
        (auto simp: kv)
  qed
qed

section \<open>Properties\<close>

text \<open>
  C33: Flattening a byte buffer into an R raw vector never writes outside the vector, leaves none
  of its uninitialised bytes behind, and agrees with flattening it into a string; only a failed
  dump gives \<^verbatim>\<open>NULL\<close>.
\<close>

theorem byte_buffer_to_raw_agrees:
  "grpc_byte_buffer_to_raw junk dump =
     Inr (let (ok, bytes) = grpc_byte_buffer_to_string dump out in if ok then R_Raw bytes else R_NilValue)"
proof (cases dump)
  case None
  then show ?thesis
    by (simp add: grpc_byte_buffer_to_raw_def grpc_byte_buffer_to_string_def)
next
  case (Some slices)
  have "copy_slices slices (map junk [0..<sum_list (map length slices)]) 0 = Inr (concat slices)"
    by (subst copy_slices_eq) simp_all
  then show ?thesis
    by (simp add: Some grpc_byte_buffer_to_raw_def grpc_byte_buffer_to_string_eq)
qed

end
