(* ===== verification/Wake.thy ===== *)
theory Wake
  imports Rgrpc_Prelude
begin

text \<open>
  The wake handle of \<^verbatim>\<open>src/wake.h\<close>: a self-pipe on Unix and a loopback socket pair on Windows.
  The header promises one contract for both, "readable exactly while events are queued"; the
  contract is the locale \<open>wake_device\<close>, the protocol lemmas that the client and the server rely
  on are proved once inside it, and both implementations are interpreted.

  The operating system is represented by what the code sees of it: the descriptors, how many
  bytes are buffered between the two ends, how many fit, and the outcomes of the calls that can
  fail, which are arguments.
\<close>

section \<open>The Unix implementation: a non-blocking self-pipe\<close>

record wake_handle =
  wh_r :: int
  wh_w :: int
  wh_buffered :: nat
  wh_capacity :: nat

text \<open>The default member initialisers of the struct: both descriptors are \<open>-1\<close>.\<close>

definition wake_handle_init :: wake_handle where
  "wake_handle_init = \<lparr>wh_r = -1, wh_w = -1, wh_buffered = 0, wh_capacity = 0\<rparr>"

text \<open>
  \<open>pipe_result\<close> is the outcome of \<^verbatim>\<open>pipe()\<close>: no pipe, or the two descriptors and the capacity of
  the kernel buffer.  The \<^verbatim>\<open>fcntl\<close> calls on the new descriptors are taken to succeed: that both ends
  do not block is what \<open>wake_signal\<close> and \<open>pipe_read\<close> below build on.
\<close>

definition wake_open :: "(int \<times> int \<times> nat) option \<Rightarrow> wake_handle \<Rightarrow> bool \<times> wake_handle" where
  "wake_open pipe_result h =
     (case pipe_result of
        None \<Rightarrow> (False, h)
      | Some (r, w, cap) \<Rightarrow>
          (True, h\<lparr>wh_r := r, wh_w := w, wh_buffered := 0, wh_capacity := cap\<rparr>))"

text \<open>\<^verbatim>\<open>write(h.w, &one, 1)\<close> on a non-blocking pipe: one more byte, or EAGAIN when it is full.\<close>

definition wake_signal :: "wake_handle \<Rightarrow> wake_handle" where
  "wake_signal h =
     (if wh_w h \<ge> 0 \<and> wh_buffered h < wh_capacity h
      then h\<lparr>wh_buffered := wh_buffered h + 1\<rparr> else h)"

text \<open>\<^verbatim>\<open>read(h.r, buf, 256)\<close>: up to 256 bytes, or \<open>-1\<close> when there is none (EAGAIN) or no pipe.\<close>

definition pipe_read :: "wake_handle \<Rightarrow> int \<times> wake_handle" where
  "pipe_read h =
     (if wh_r h < 0 \<or> wh_buffered h = 0 then (-1, h)
      else (int (min 256 (wh_buffered h)), h\<lparr>wh_buffered := wh_buffered h - min 256 (wh_buffered h)\<rparr>))"

function wake_drain :: "wake_handle \<Rightarrow> wake_handle" where
  "wake_drain h = (let (n, h') = pipe_read h in if n > 0 then wake_drain h' else h')"
  by pat_completeness auto
termination
  by (relation "measure wh_buffered") (auto simp: pipe_read_def split: if_splits)

declare wake_drain.simps [simp del]

definition wake_readable :: "wake_handle \<Rightarrow> bool" where
  "wake_readable h \<longleftrightarrow> wh_r h \<ge> 0 \<and> wh_buffered h > 0"

text \<open>
  \<^verbatim>\<open>poll(&pfd, 1, timeout_ms)\<close> returns \<open>1\<close> once the read end is readable.  Otherwise \<open>outcome\<close> is what
  makes it return early (a negative number for an interrupt or an error), if anything does; if
  nothing does it returns \<open>0\<close> when \<open>timeout_ms\<close> have passed, and with a negative \<open>timeout_ms\<close> it goes
  on waiting for ever, which is \<open>None\<close>.
\<close>

definition wake_poll :: "wake_handle \<Rightarrow> int \<Rightarrow> int option \<Rightarrow> int option" where
  "wake_poll h timeout_ms outcome =
     (if wake_readable h then Some 1
      else case outcome of Some pr \<Rightarrow> Some pr | None \<Rightarrow> if timeout_ms < 0 then None else Some 0)"

text \<open>\<open>wake_close\<close> also returns the descriptors it passes to \<^verbatim>\<open>close()\<close>, in order.\<close>

definition wake_close :: "wake_handle \<Rightarrow> wake_handle \<times> int list" where
  "wake_close h =
     (h\<lparr>wh_r := -1, wh_w := -1\<rparr>,
      (if wh_r h \<ge> 0 then [wh_r h] else []) @ (if wh_w h \<ge> 0 then [wh_w h] else []))"

definition wake_fd :: "wake_handle \<Rightarrow> int" where
  "wake_fd h = wh_r h"

text \<open>An open handle: both ends valid, a buffer that can hold at least one byte.\<close>

definition wake_ok :: "wake_handle \<Rightarrow> bool" where
  "wake_ok h \<longleftrightarrow> wh_r h \<ge> 0 \<and> wh_w h \<ge> 0 \<and> 0 < wh_capacity h \<and> wh_buffered h \<le> wh_capacity h"

section \<open>The Windows implementation: a loopback socket pair\<close>

text \<open>
  Sockets are \<open>Some n\<close>, \<open>None\<close> is \<^verbatim>\<open>INVALID_SOCKET\<close>.  \<open>wsa_outcome\<close> lists what each call of
  \<open>wake_open\<close> returns; the calls are made in the order of the fields, and a failing one
  short-circuits the rest.
\<close>

record wsa_outcome =
  o_startup :: bool
  o_listener :: "nat option"
  o_bind :: bool
  o_listen :: bool
  o_getsockname :: bool
  o_w :: "nat option"
  o_connect :: bool
  o_accept :: "nat option"

record wsa_handle =
  sk_r :: "nat option"
  sk_w :: "nat option"
  sk_buffered :: nat
  sk_capacity :: nat

text \<open>Process-wide state the calls change: open sockets and the count of WSAStartup calls not undone.\<close>

record wsa_os =
  os_open :: "nat list"
  os_started :: nat

definition sock_open :: "nat option \<Rightarrow> wsa_os \<Rightarrow> wsa_os" where
  "sock_open s os = (case s of None \<Rightarrow> os | Some n \<Rightarrow> os\<lparr>os_open := n # os_open os\<rparr>)"

definition closesocket :: "nat option \<Rightarrow> wsa_os \<Rightarrow> wsa_os" where
  "closesocket s os = (case s of None \<Rightarrow> os | Some n \<Rightarrow> os\<lparr>os_open := remove1 n (os_open os)\<rparr>)"

definition wsa_wake_open :: "wsa_outcome \<Rightarrow> nat \<Rightarrow> wsa_os \<Rightarrow> wsa_handle \<Rightarrow> bool \<times> wsa_os \<times> wsa_handle" where
  "wsa_wake_open out cap os h =
     (if \<not> o_startup out then (False, os, h)
      else
        let os = os\<lparr>os_started := os_started os + 1\<rparr>;
            listener = o_listener out;
            os = sock_open listener os;
            c1 = (listener \<noteq> None \<and> o_bind out \<and> o_listen out \<and> o_getsockname out);
            w = (if c1 then o_w out else None);
            os = sock_open w os;
            c2 = (c1 \<and> w \<noteq> None \<and> o_connect out);
            r = (if c2 then o_accept out else None);
            os = sock_open r os;
            ok = (c2 \<and> r \<noteq> None);
            os = closesocket listener os
        in if \<not> ok then (False, (closesocket w os)\<lparr>os_started := os_started os - 1\<rparr>, h)
           else (True, os, h\<lparr>sk_r := r, sk_w := w, sk_buffered := 0, sk_capacity := cap\<rparr>))"

text \<open>A byte that \<^verbatim>\<open>send\<close> accepts is taken to be readable at the other end of the loopback connection at once.\<close>

definition wsa_wake_signal :: "wsa_handle \<Rightarrow> wsa_handle" where
  "wsa_wake_signal h =
     (if sk_w h \<noteq> None \<and> sk_buffered h < sk_capacity h
      then h\<lparr>sk_buffered := sk_buffered h + 1\<rparr> else h)"

definition sock_recv :: "wsa_handle \<Rightarrow> int \<times> wsa_handle" where
  "sock_recv h =
     (if sk_r h = None \<or> sk_buffered h = 0 then (-1, h)
      else (int (min 256 (sk_buffered h)), h\<lparr>sk_buffered := sk_buffered h - min 256 (sk_buffered h)\<rparr>))"

function wsa_wake_drain :: "wsa_handle \<Rightarrow> wsa_handle" where
  "wsa_wake_drain h = (let (n, h') = sock_recv h in if n > 0 then wsa_wake_drain h' else h')"
  by pat_completeness auto
termination
  by (relation "measure sk_buffered") (auto simp: sock_recv_def split: if_splits)

declare wsa_wake_drain.simps [simp del]

definition wsa_wake_readable :: "wsa_handle \<Rightarrow> bool" where
  "wsa_wake_readable h \<longleftrightarrow> sk_r h \<noteq> None \<and> sk_buffered h > 0"

definition wsa_wake_poll :: "wsa_handle \<Rightarrow> int \<Rightarrow> int option \<Rightarrow> int option" where
  "wsa_wake_poll h timeout_ms outcome =
     (if wsa_wake_readable h then Some 1
      else case outcome of Some pr \<Rightarrow> Some pr | None \<Rightarrow> if timeout_ms < 0 then None else Some 0)"

definition wsa_wake_fd :: "wsa_handle \<Rightarrow> int" where
  "wsa_wake_fd h = (case sk_r h of None \<Rightarrow> -1 | Some n \<Rightarrow> int_of_size n)"

definition wsa_wake_close :: "wsa_os \<Rightarrow> wsa_handle \<Rightarrow> wsa_os \<times> wsa_handle" where
  "wsa_wake_close os h =
     (if sk_r h = None \<and> sk_w h = None then (os, h)
      else ((closesocket (sk_w h) (closesocket (sk_r h) os))\<lparr>os_started := os_started os - 1\<rparr>,
            h\<lparr>sk_r := None, sk_w := None\<rparr>))"

definition wsa_wake_ok :: "wsa_handle \<Rightarrow> bool" where
  "wsa_wake_ok h \<longleftrightarrow> sk_r h \<noteq> None \<and> sk_w h \<noteq> None \<and> 0 < sk_capacity h \<and> sk_buffered h \<le> sk_capacity h"

section \<open>What draining does\<close>

text \<open>The drain loop empties the buffer however many 256-byte reads that takes.\<close>

lemma wake_drain_eq: "wake_drain h = (if wh_r h < 0 then h else h\<lparr>wh_buffered := 0\<rparr>)"
proof (induction h rule: wake_drain.induct)
  case (1 h)
  show ?case
  proof (cases "wh_r h < 0 \<or> wh_buffered h = 0")
    case True
    then show ?thesis
      by (subst wake_drain.simps) (auto simp: pipe_read_def)
  next
    case False
    let ?h = "h\<lparr>wh_buffered := wh_buffered h - min 256 (wh_buffered h)\<rparr>"
    from False have r: "pipe_read h = (int (min 256 (wh_buffered h)), ?h)"
      by (simp add: pipe_read_def)
    from False have "wake_drain ?h = (if wh_r ?h < 0 then ?h else ?h\<lparr>wh_buffered := 0\<rparr>)"
      by (intro "1") (auto simp: r)
    with False show ?thesis
      by (subst wake_drain.simps) (simp add: r)
  qed
qed

lemma wsa_wake_drain_eq: "wsa_wake_drain h = (if sk_r h = None then h else h\<lparr>sk_buffered := 0\<rparr>)"
proof (induction h rule: wsa_wake_drain.induct)
  case (1 h)
  show ?case
  proof (cases "sk_r h = None \<or> sk_buffered h = 0")
    case True
    then show ?thesis
      by (subst wsa_wake_drain.simps) (auto simp: sock_recv_def)
  next
    case False
    let ?h = "h\<lparr>sk_buffered := sk_buffered h - min 256 (sk_buffered h)\<rparr>"
    from False have r: "sock_recv h = (int (min 256 (sk_buffered h)), ?h)"
      by (simp add: sock_recv_def)
    from False have "wsa_wake_drain ?h = (if sk_r ?h = None then ?h else ?h\<lparr>sk_buffered := 0\<rparr>)"
      by (intro "1") (auto simp: r)
    with False show ?thesis
      by (subst wsa_wake_drain.simps) (auto simp: r)
  qed
qed

section \<open>The contract\<close>

locale wake_device =
  fixes signal :: "'h \<Rightarrow> 'h"
    and drain :: "'h \<Rightarrow> 'h"
    and readable :: "'h \<Rightarrow> bool"
    and ok :: "'h \<Rightarrow> bool"
  assumes ok_signal: "ok h \<Longrightarrow> ok (signal h)"
    and ok_drain: "ok h \<Longrightarrow> ok (drain h)"
    and signal_readable: "ok h \<Longrightarrow> readable (signal h)"
    and drain_clears: "ok h \<Longrightarrow> \<not> readable (drain h)"
begin

lemma ok_signals: "ok h \<Longrightarrow> ok ((signal ^^ n) h)"
  by (induction n) (simp_all add: ok_signal)

text \<open>Readability is boolean: after a drain the handle is readable iff anything was signalled since.\<close>

lemma readable_since_drain: "ok h \<Longrightarrow> readable ((signal ^^ n) (drain h)) \<longleftrightarrow> 0 < n"
  by (cases n) (simp_all add: drain_clears signal_readable ok_signals ok_drain)

text \<open>Queueing an event and signalling keeps "readable exactly while events are queued".\<close>

lemma push_keeps:
  "ok h \<Longrightarrow> ok (signal h) \<and> (readable (signal h) \<longleftrightarrow> q @ [e] \<noteq> [])"
  by (simp add: ok_signal signal_readable)

text \<open>Draining and re-arming establishes it, whatever was signalled before.\<close>

lemma rearm_establishes:
  assumes "ok h"
  shows "ok (if q \<noteq> [] then signal (drain h) else drain h)"
    and "readable (if q \<noteq> [] then signal (drain h) else drain h) \<longleftrightarrow> q \<noteq> []"
  using assms by (simp_all add: ok_signal ok_drain signal_readable drain_clears)

end

interpretation upipe: wake_device wake_signal wake_drain wake_readable wake_ok
  by unfold_locales (auto simp: wake_signal_def wake_drain_eq wake_readable_def wake_ok_def)

interpretation wsock: wake_device wsa_wake_signal wsa_wake_drain wsa_wake_readable wsa_wake_ok
  by unfold_locales (auto simp: wsa_wake_signal_def wsa_wake_drain_eq wsa_wake_readable_def wsa_wake_ok_def)

lemma wake_signals_ends [simp]:
  "wh_r ((wake_signal ^^ n) h) = wh_r h" "wh_w ((wake_signal ^^ n) h) = wh_w h"
  by (induction n) (simp_all add: wake_signal_def)

lemma wake_open_ok:
  "wake_open (Some (r, w, cap)) h = (True, h') \<Longrightarrow> 0 \<le> r \<Longrightarrow> 0 \<le> w \<Longrightarrow> 0 < cap \<Longrightarrow>
   wake_ok h' \<and> \<not> wake_readable h'"
  by (auto simp: wake_open_def wake_ok_def wake_readable_def)

section \<open>Properties\<close>

text \<open>
  C34: On both platforms the wake handle answers only "did anything arrive since the last drain":
  after a drain, and any number of signals (even more than the buffer holds), it is readable iff
  at least one signal was sent.
\<close>

theorem wake_contract:
  assumes "wake_ok h" and "wsa_wake_ok g"
  shows "(wake_readable ((wake_signal ^^ n) (wake_drain h)) \<longleftrightarrow> 0 < n) \<and>
         (wsa_wake_readable ((wsa_wake_signal ^^ n) (wsa_wake_drain g)) \<longleftrightarrow> 0 < n)"
  using assms by (simp add: upipe.readable_since_drain wsock.readable_since_drain)

theorem wake_contract_witness:
  "let h = \<lparr>wh_r = 3, wh_w = 4, wh_buffered = 600, wh_capacity = 1000\<rparr>;
       g = \<lparr>sk_r = Some 5, sk_w = Some 6, sk_buffered = 2, sk_capacity = 3\<rparr>
   in wake_ok h \<and> wsa_wake_ok g \<and>
      wake_readable ((wake_signal ^^ 3) (wake_drain h)) \<and>
      \<not> wsa_wake_readable ((wsa_wake_signal ^^ 0) (wsa_wake_drain g))"
proof -
  define h where "h = \<lparr>wh_r = 3, wh_w = 4, wh_buffered = 600, wh_capacity = 1000\<rparr>"
  define g where "g = \<lparr>sk_r = Some 5, sk_w = Some 6, sk_buffered = 2, sk_capacity = 3\<rparr>"
  have h: "wake_ok h" by (simp add: h_def wake_ok_def)
  have g: "wsa_wake_ok g" by (simp add: g_def wsa_wake_ok_def)
  show ?thesis
    using h g wake_contract [OF h g, of 3] wake_contract [OF h g, of 0]
    by (simp add: Let_def h_def [symmetric] g_def [symmetric])
qed

text \<open>
  C35: The Windows handle leaks nothing.  Whichever call of \<open>wake_open\<close> fails, every socket it
  opened is closed again, the WSAStartup is undone and the handle is untouched; when it succeeds,
  \<open>wake_close\<close> puts the process back into the state before the open.
\<close>

theorem wsa_wake_open_close:
  "wsa_wake_open out cap os h = (b, os', h') \<Longrightarrow>
   (if b then wsa_wake_close os' h' = (os, h'\<lparr>sk_r := None, sk_w := None\<rparr>)
    else os' = os \<and> h' = h)"
  by (cases os)
    (auto simp: wsa_wake_open_def wsa_wake_close_def sock_open_def closesocket_def Let_def
      split: if_splits option.splits)

theorem wsa_wake_open_close_witness:
  "let os = \<lparr>os_open = [9], os_started = 0\<rparr>;
       h = \<lparr>sk_r = None, sk_w = None, sk_buffered = 0, sk_capacity = 0\<rparr>;
       out = \<lparr>o_startup = True, o_listener = Some 7, o_bind = True, o_listen = True,
              o_getsockname = True, o_w = Some 2, o_connect = True, o_accept = None\<rparr>
   in wsa_wake_open out 8 os h = (False, os, h)"
proof -
  define os where "os = \<lparr>os_open = [9::nat], os_started = (0::nat)\<rparr>"
  define h where "h = \<lparr>sk_r = None :: nat option, sk_w = None :: nat option,
    sk_buffered = (0::nat), sk_capacity = (0::nat)\<rparr>"
  define out where "out = \<lparr>o_startup = True, o_listener = Some (7::nat), o_bind = True, o_listen = True,
    o_getsockname = True, o_w = Some (2::nat), o_connect = True, o_accept = None :: nat option\<rparr>"
  obtain b os' h' where r: "wsa_wake_open out 8 os h = (b, os', h')"
    by (cases "wsa_wake_open out 8 os h")
  then have "\<not> b" by (simp add: wsa_wake_open_def out_def Let_def split: if_splits)
  with wsa_wake_open_close [OF r] r show ?thesis
    by (simp add: Let_def os_def [symmetric] h_def [symmetric] out_def [symmetric])
qed

end
