(* ===== verification/Event_Queue.thy ===== *)
theory Event_Queue
  imports Wake "HOL-Library.Sublist"
begin

text \<open>
  The delivery of queued events to R, which \<^verbatim>\<open>grpc_r_client_poll\<close> and \<^verbatim>\<open>grpc_r_server2_poll\<close>
  share line by line: the event filter, the wait loop on the wake handle and the batch that is
  taken from the deque.  The loops are written here once, over the operations of the object that
  is polled; the client and the server instantiate them.  The locales state what the wait needs of
  that object: that it loses no wake-up, that an invariant survives whatever happens meanwhile, and
  that this holds too of an invariant that sees what is read meanwhile.
\<close>

section \<open>The filter\<close>

text \<open>\<open>only_id = None\<close> is an unfiltered poll (\<^verbatim>\<open>R_NilValue\<close>).\<close>

definition matches :: "('e \<Rightarrow> u64) \<Rightarrow> u64 option \<Rightarrow> 'e \<Rightarrow> bool" where
  "matches eid only_id ev = (case only_id of None \<Rightarrow> True | Some want \<Rightarrow> eid ev = want)"

definition have_match :: "('e \<Rightarrow> u64) \<Rightarrow> u64 option \<Rightarrow> 'e list \<Rightarrow> bool" where
  "have_match eid only_id ready = list_ex (matches eid only_id) ready"

section \<open>The wait loop\<close>

text \<open>
  One turn of the wait: how many milliseconds are left when the clock is read, the completions
  the background thread handles while \<^verbatim>\<open>poll()\<close> waits, what makes \<^verbatim>\<open>poll()\<close> return early if the handle
  has not become readable by then, and the completions handled between its return and the
  re-acquisition of the mutex.
\<close>

record 't wait_turn =
  wt_left :: int
  wt_completions :: "'t list"
  wt_outcome :: "int option"
  wt_late :: "'t list"

text \<open>
  The timeout passed to \<^verbatim>\<open>poll()\<close>: \<open>-1\<close> for a wait without a deadline, else what is left until the
  deadline, cast to \<^verbatim>\<open>int\<close>.
\<close>

definition wait_ms :: "int \<Rightarrow> int \<Rightarrow> int" where
  "wait_ms timeout left = (if timeout > 0 then sint (word_of_int left :: 32 word) else -1)"

text \<open>
  The loop runs over the turns the environment supplies; \<open>None\<close> means that they are used up, or
  that \<^verbatim>\<open>poll()\<close> does not return, and the caller is still blocked.
\<close>

fun wait_loop ::
  "('c \<Rightarrow> bool) \<Rightarrow> ('c \<Rightarrow> 'c) \<Rightarrow> ('t \<Rightarrow> 'c \<Rightarrow> 'c res) \<Rightarrow> ('c \<Rightarrow> wake_handle) \<Rightarrow>
   int \<Rightarrow> 't wait_turn list \<Rightarrow> 'c \<Rightarrow> 'c res option" where
  "wait_loop found drain handle wake timeout [] c = (if found c then Some (Inr c) else None)"
| "wait_loop found drain handle wake timeout (w # ws) c =
     (if found c then Some (Inr c)
      else
        let c = drain c
        in if timeout > 0 \<and> wt_left w \<le> 0 then Some (Inr c)
           else case rfold handle (wt_completions w) c of
                  Inl e \<Rightarrow> Some (Inl e)
                | Inr c \<Rightarrow>
                    (case wake_poll (wake c) (wait_ms timeout (wt_left w)) (wt_outcome w) of
                       None \<Rightarrow> None
                     | Some pr \<Rightarrow>
                         (case rfold handle (wt_late w) c of
                            Inl e \<Rightarrow> Some (Inl e)
                          | Inr c \<Rightarrow>
                              if pr \<le> 0 then Some (Inr c)
                              else wait_loop found drain handle wake timeout ws c)))"

section \<open>The reference batch\<close>

text \<open>What a batch of at most \<open>n\<close> events that satisfy \<open>P\<close> should be, and what should stay queued.\<close>

fun take_matching :: "('e \<Rightarrow> bool) \<Rightarrow> nat \<Rightarrow> 'e list \<Rightarrow> 'e list \<times> 'e list" where
  "take_matching P n [] = ([], [])"
| "take_matching P n (e # es) =
     (if n = 0 then ([], e # es)
      else if P e then (let (b, r) = take_matching P (n - 1) es in (e # b, r))
      else (let (b, r) = take_matching P n es in (b, e # r)))"

lemma take_matching_0 [simp]: "take_matching P 0 es = ([], es)"
  by (cases es) simp_all

lemma fst_take_matching: "fst (take_matching P n es) = take n (filter P es)"
proof (induction es arbitrary: n)
  case Nil
  then show ?case by simp
next
  case (Cons e es)
  then show ?case
    by (cases n) (auto simp: split_beta)
qed

lemma mset_take_matching:
  "mset (fst (take_matching P n es)) + mset (snd (take_matching P n es)) = mset es"
  by (induction es arbitrary: n) (auto simp: split_beta)

lemma filter_snd_take_matching:
  "filter P (snd (take_matching P n es)) = drop n (filter P es)"
proof (induction es arbitrary: n)
  case Nil
  then show ?case by simp
next
  case (Cons e es)
  then show ?case
    by (cases n) (auto simp: split_beta)
qed

text \<open>Events that do not match keep their places relative to each other.\<close>

lemma filter_not_snd_take_matching:
  "filter (\<lambda>e. \<not> P e) (snd (take_matching P n es)) = filter (\<lambda>e. \<not> P e) es"
  by (induction es arbitrary: n) (auto simp: split_beta)

text \<open>More generally the events that stay queued are a subsequence of the queue.\<close>

lemma filter_other_take_matching:
  "(\<And>e. Q e \<Longrightarrow> \<not> P e) \<Longrightarrow> filter Q (snd (take_matching P n es)) = filter Q es"
  by (induction es arbitrary: n) (auto simp: split_beta)

text \<open>A filtered batch reorders no call's events: what is taken precedes what stays.\<close>

lemma take_matching_order:
  "filter (\<lambda>e. eid e = i) (fst (take_matching (matches eid only_id) n es)) @
   filter (\<lambda>e. eid e = i) (snd (take_matching (matches eid only_id) n es)) =
   filter (\<lambda>e. eid e = i) es"
proof (cases only_id)
  case None
  then have P: "matches eid only_id = (\<lambda>e. True)" by (simp add: matches_def fun_eq_iff)
  from filter_snd_take_matching [of "\<lambda>e. True" n es] have "snd (take_matching (\<lambda>e. True) n es) = drop n es"
    by simp
  then show ?thesis unfolding P by (simp add: fst_take_matching flip: filter_append)
next
  case (Some want)
  then have P: "matches eid only_id = (\<lambda>e. eid e = want)" by (simp add: matches_def fun_eq_iff)
  show ?thesis
  proof (cases "i = want")
    case True
    let ?P = "\<lambda>e. eid e = want"
    have "filter ?P (take n (filter ?P es)) = take n (filter ?P es)"
      by (auto simp: filter_id_conv dest: in_set_takeD)
    with True show ?thesis unfolding P by (simp add: fst_take_matching filter_snd_take_matching)
  next
    case False
    then have "filter (\<lambda>e. eid e = i) (fst (take_matching (\<lambda>e. eid e = want) n es)) = []"
      by (auto simp: fst_take_matching filter_empty_conv dest: in_set_takeD)
    with False show ?thesis unfolding P by (simp add: filter_other_take_matching)
  qed
qed

section \<open>The wait loop loses no wake-up\<close>

text \<open>
  What the wait relies on: queueing an event signals the handle, so a matching event that arrives
  while the mutex is released makes it readable.
\<close>

locale waited_queue =
  fixes found :: "'c \<Rightarrow> bool"
    and drain :: "'c \<Rightarrow> 'c"
    and handle :: "'t \<Rightarrow> 'c \<Rightarrow> 'c res"
    and wake :: "'c \<Rightarrow> wake_handle"
    and ok :: "'c \<Rightarrow> bool"
  assumes ok_drain: "ok c \<Longrightarrow> ok (drain c)"
    and found_drain: "found (drain c) \<longleftrightarrow> found c"
    and ok_handle: "ok c \<Longrightarrow> handle t c = Inr c' \<Longrightarrow> ok c'"
    and arrival_signals:
      "ok c \<Longrightarrow> handle t c = Inr c' \<Longrightarrow> found c' \<Longrightarrow> \<not> found c \<Longrightarrow> wake_readable (wake c')"
    and found_stays: "found c \<Longrightarrow> handle t c = Inr c' \<Longrightarrow> found c'"
    and readable_stays:
      "ok c \<Longrightarrow> handle t c = Inr c' \<Longrightarrow> wake_readable (wake c) \<Longrightarrow> wake_readable (wake c')"
begin

lemma ok_completions: "ok c \<Longrightarrow> rfold handle ts c = Inr c' \<Longrightarrow> ok c'"
proof (induction ts arbitrary: c)
  case Nil
  then show ?case by simp
next
  case (Cons t ts)
  then show ?case by (auto simp: rbind_Inr_iff intro: ok_handle)
qed

lemma readable_completions:
  "ok c \<Longrightarrow> rfold handle ts c = Inr c' \<Longrightarrow> wake_readable (wake c) \<Longrightarrow> wake_readable (wake c')"
proof (induction ts arbitrary: c)
  case Nil
  then show ?case by simp
next
  case (Cons t ts)
  then obtain c1 where "handle t c = Inr c1" and "rfold handle ts c1 = Inr c'"
    by (auto simp: rbind_Inr_iff)
  with Cons show ?case by (meson ok_handle readable_stays)
qed

lemma arrival_readable:
  "ok c \<Longrightarrow> rfold handle ts c = Inr c' \<Longrightarrow> \<not> found c \<Longrightarrow> found c' \<Longrightarrow> wake_readable (wake c')"
proof (induction ts arbitrary: c)
  case Nil
  then show ?case by simp
next
  case (Cons t ts)
  then obtain c1 where c1: "handle t c = Inr c1" and rest: "rfold handle ts c1 = Inr c'"
    by (auto simp: rbind_Inr_iff)
  from c1 Cons.prems(1) have ok1: "ok c1" by (simp add: ok_handle)
  show ?case
  proof (cases "found c1")
    case True
    with Cons.prems c1 have "wake_readable (wake c1)" by (blast intro: arrival_signals)
    with ok1 rest show ?thesis by (rule readable_completions)
  next
    case False
    with ok1 rest Cons.prems(4) show ?thesis by (intro Cons.IH)
  qed
qed

lemma found_completions: "found c \<Longrightarrow> rfold handle ts c = Inr c' \<Longrightarrow> found c'"
proof (induction ts arbitrary: c)
  case Nil
  then show ?case by simp
next
  case (Cons t ts)
  then show ?case by (auto simp: rbind_Inr_iff intro: found_stays)
qed

text \<open>
  A turn in which a matching event arrives ends the wait when the mutex is taken again, even if
  \<^verbatim>\<open>poll()\<close> has no timeout and is not interrupted.
\<close>

lemma arrival_ends_wait:
  assumes "ok c" and "\<not> found c" and "\<not> (timeout > 0 \<and> wt_left w \<le> 0)"
    and "rfold handle (wt_completions w) (drain c) = Inr c1" and "found c1"
    and "rfold handle (wt_late w) c1 = Inr c2"
  shows "wait_loop found drain handle wake timeout (w # ws) c = Some (Inr c2) \<and> found c2"
proof -
  from assms have "wake_readable (wake c1)"
    by (intro arrival_readable [of "drain c"]) (simp_all add: ok_drain found_drain)
  moreover from assms(5,6) have "found c2" by (rule found_completions)
  ultimately show ?thesis
    using assms by (cases ws) (auto simp: wake_poll_def)
qed

lemma ok_wait_loop:
  "ok c \<Longrightarrow> wait_loop found drain handle wake timeout ws c = Some (Inr c') \<Longrightarrow> ok c'"
proof (induction ws arbitrary: c)
  case Nil
  then show ?case by (simp split: if_splits)
next
  case (Cons w ws)
  then show ?case
    by (auto simp: Let_def ok_drain split: if_splits sum.splits option.splits)
      (meson ok_completions ok_drain)+
qed

end

section \<open>The wait under a disciplined environment\<close>

text \<open>
  The library only returns tags that are outstanding.  \<open>deliverable\<close> says so of a list of
  completions, \<open>turns_ok\<close> of the turns of a wait.
\<close>

fun deliverable :: "('t \<Rightarrow> 'c \<Rightarrow> bool) \<Rightarrow> ('t \<Rightarrow> 'c \<Rightarrow> 'c res) \<Rightarrow> 't list \<Rightarrow> 'c \<Rightarrow> bool" where
  "deliverable enabled handle [] c \<longleftrightarrow> True"
| "deliverable enabled handle (t # ts) c \<longleftrightarrow>
     enabled t c \<and> (case handle t c of Inl e \<Rightarrow> True | Inr c' \<Rightarrow> deliverable enabled handle ts c')"

fun turns_ok ::
  "('t \<Rightarrow> 'c \<Rightarrow> bool) \<Rightarrow> ('c \<Rightarrow> 'c) \<Rightarrow> ('t \<Rightarrow> 'c \<Rightarrow> 'c res) \<Rightarrow> 't wait_turn list \<Rightarrow> 'c \<Rightarrow> bool" where
  "turns_ok enabled drain handle [] c \<longleftrightarrow> True"
| "turns_ok enabled drain handle (w # ws) c \<longleftrightarrow>
     deliverable enabled handle (wt_completions w @ wt_late w) (drain c) \<and>
     (case rfold handle (wt_completions w @ wt_late w) (drain c) of
        Inl e \<Rightarrow> True
      | Inr c' \<Rightarrow> turns_ok enabled drain handle ws c')"

text \<open>The laws of a queue whose handler cannot fault on an outstanding tag.\<close>

locale safe_queue = waited_queue found drain handle wake ok
  for found :: "'c \<Rightarrow> bool" and drain :: "'c \<Rightarrow> 'c" and handle :: "'t \<Rightarrow> 'c \<Rightarrow> 'c res"
    and wake :: "'c \<Rightarrow> wake_handle" and ok :: "'c \<Rightarrow> bool" +
  fixes enabled :: "'t \<Rightarrow> 'c \<Rightarrow> bool"
    and inv :: "'c \<Rightarrow> bool"
    and extends :: "'c \<Rightarrow> 'c \<Rightarrow> bool"
  assumes inv_drain: "inv c \<Longrightarrow> inv (drain c)"
    and handle_safe: "inv c \<Longrightarrow> enabled t c \<Longrightarrow> \<exists>c'. handle t c = Inr c' \<and> inv c'"
    and extends_refl: "extends c c"
    and extends_trans: "extends c1 c2 \<Longrightarrow> extends c2 c3 \<Longrightarrow> extends c1 c3"
    and extends_drain: "extends c (drain c)"
    and extends_handle: "handle t c = Inr c' \<Longrightarrow> extends c c'"
begin

lemma completions_safe:
  "inv c \<Longrightarrow> deliverable enabled handle ts c \<Longrightarrow> \<exists>c'. rfold handle ts c = Inr c' \<and> inv c' \<and> extends c c'"
proof (induction ts arbitrary: c)
  case Nil
  then show ?case by (simp add: extends_refl)
next
  case (Cons t ts)
  then obtain c1 where c1: "handle t c = Inr c1" "inv c1" using handle_safe by fastforce
  with Cons.prems have "deliverable enabled handle ts c1" by simp
  from Cons.IH [OF c1(2) this] c1(1) show ?case by (auto intro: extends_trans extends_handle)
qed

text \<open>Whatever the other thread does meanwhile, the wait ends in a good state, or goes on.\<close>

lemma wait_safe:
  "inv c \<Longrightarrow> turns_ok enabled drain handle ws c \<Longrightarrow>
   wait_loop found drain handle wake timeout ws c = None \<or>
   (\<exists>c'. wait_loop found drain handle wake timeout ws c = Some (Inr c') \<and> inv c' \<and> extends c c')"
proof (induction ws arbitrary: c)
  case Nil
  then show ?case by (simp add: extends_refl)
next
  case (Cons w ws)
  let ?ts = "wt_completions w @ wt_late w"
  have inv1: "inv (drain c)" using Cons.prems(1) by (rule inv_drain)
  with completions_safe [of "drain c" ?ts] Cons.prems(2) obtain c2 where
    c2: "rfold handle ?ts (drain c) = Inr c2" "inv c2" "extends (drain c) c2" by auto
  then obtain c1 where c1: "rfold handle (wt_completions w) (drain c) = Inr c1"
      "rfold handle (wt_late w) c1 = Inr c2"
    by (auto simp: rfold_append rbind_Inr_iff)
  from Cons.prems(2) c2(1) have "turns_ok enabled drain handle ws c2" by simp
  note IH = Cons.IH [OF c2(2) this]
  have e2: "extends c c2" using extends_drain c2(3) by (rule extends_trans)
  show ?case
  proof (cases "found c \<or> timeout > 0 \<and> wt_left w \<le> 0")
    case True
    with Cons.prems(1) inv1 show ?thesis by (auto simp: extends_refl extends_drain)
  next
    case False
    then have "wait_loop found drain handle wake timeout (w # ws) c =
        (case wake_poll (wake c1) (wait_ms timeout (wt_left w)) (wt_outcome w) of None \<Rightarrow> None
         | Some pr \<Rightarrow> if pr \<le> 0 then Some (Inr c2) else wait_loop found drain handle wake timeout ws c2)"
      using c1 by (auto simp: Let_def split: option.split)
    moreover from IH e2 have "wait_loop found drain handle wake timeout ws c2 = None \<or>
        (\<exists>c'. wait_loop found drain handle wake timeout ws c2 = Some (Inr c') \<and> inv c' \<and> extends c c')"
      by (blast intro: extends_trans)
    ultimately show ?thesis using c2(2) e2 by (simp split: option.split)
  qed
qed

end

text \<open>
  A wait with a timeout returns: each \<^verbatim>\<open>poll()\<close> is given the time that is left and comes back by
  then, and once the clock has passed the deadline the loop breaks.
\<close>

lemma wait_ms_nonneg: "0 < left \<Longrightarrow> left \<le> timeout \<Longrightarrow> timeout < 2 ^ 31 \<Longrightarrow> wait_ms timeout left = left"
  by (simp add: wait_ms_def sint_sbintrunc' signed_take_bit_int_eq_self)

lemma wait_loop_returns:
  assumes "0 < timeout" and "ws \<noteq> []" and "wt_left (last ws) \<le> 0"
    and "timeout < 2 ^ 31" and "\<forall>w \<in> set ws. wt_left w \<le> timeout"
  shows "wait_loop found drain handle wake timeout ws c \<noteq> None"
  using assms
proof (induction ws arbitrary: c)
  case Nil
  then show ?case by simp
next
  case (Cons w ws)
  have "wt_left w \<le> 0" if "wake_poll h (wait_ms timeout (wt_left w)) (wt_outcome w) = None" for h
    using wait_ms_nonneg [of "wt_left w" timeout] Cons.prems that
    by (cases "0 < wt_left w") (auto simp: wake_poll_def split: option.splits if_splits)
  note in_time = this
  show ?case
    using Cons by (cases "ws = []") (auto simp: Let_def not_le dest: in_time split: sum.split option.split)
qed

section \<open>The polls of a run\<close>

text \<open>
  A poll takes its batch out of the deque first and converts it to R objects afterwards; if the
  conversion raises an R error the batch reaches nobody.  \<open>ps\<close> are the batches taken so far, each
  with the result of its poll.
\<close>

definition batches :: "('e list \<times> sexp res) list \<Rightarrow> 'e list" where
  "batches ps = concat (map fst ps)"

definition returned_batches :: "('e list \<times> sexp res) list \<Rightarrow> 'e list" where
  "returned_batches ps = concat (map (\<lambda>(b, r). case r of Inr _ \<Rightarrow> b | Inl _ \<Rightarrow> []) ps)"

definition lost_batches :: "('e list \<times> sexp res) list \<Rightarrow> 'e list" where
  "lost_batches ps = concat (map (\<lambda>(b, r). case r of Inr _ \<Rightarrow> [] | Inl _ \<Rightarrow> b) ps)"

lemma batches_simps [simp]: "batches [] = []" "batches (ps @ [p]) = batches ps @ fst p"
  by (simp_all add: batches_def)

lemma mset_batches: "mset (batches ps) = mset (returned_batches ps) + mset (lost_batches ps)"
  by (induction ps) (auto simp: batches_def returned_batches_def lost_batches_def split: sum.split)

lemma subseq_returned: "subseq (returned_batches ps) (batches ps)"
proof (induction ps)
  case (Cons p ps)
  moreover have "subseq (case snd p of Inr _ \<Rightarrow> fst p | Inl _ \<Rightarrow> []) (fst p)" by (simp split: sum.split)
  ultimately show ?case
    by (simp add: batches_def returned_batches_def split_beta list_emb_append_mono)
qed (simp add: batches_def returned_batches_def)

section \<open>What happens while a poll waits\<close>

text \<open>
  A wait that also notes, for every completion it lets through, what can be observed of it just
  before it is handled.  The notes change nothing: without them it is the wait itself.
\<close>

definition observed :: "('t \<Rightarrow> 'c \<Rightarrow> 'c res) \<Rightarrow> ('t \<Rightarrow> 'c \<Rightarrow> 'o list) \<Rightarrow> 't \<Rightarrow> 'c \<times> 'o list \<Rightarrow> ('c \<times> 'o list) res" where
  "observed handle obs t = (\<lambda>(c, g). rbind (handle t c) (\<lambda>c'. Inr (c', g @ obs t c)))"

definition observed_wait ::
  "('c \<Rightarrow> bool) \<Rightarrow> ('c \<Rightarrow> 'c) \<Rightarrow> ('t \<Rightarrow> 'c \<Rightarrow> 'c res) \<Rightarrow> ('c \<Rightarrow> wake_handle) \<Rightarrow> ('t \<Rightarrow> 'c \<Rightarrow> 'o list) \<Rightarrow>
   int \<Rightarrow> 't wait_turn list \<Rightarrow> 'c \<times> 'o list \<Rightarrow> ('c \<times> 'o list) res option" where
  "observed_wait found drain handle wake obs =
     wait_loop (\<lambda>p. found (fst p)) (\<lambda>p. (drain (fst p), snd p)) (observed handle obs) (\<lambda>p. wake (fst p))"

lemma observed_apply: "observed handle obs t p = rbind (handle t (fst p)) (\<lambda>c'. Inr (c', snd p @ obs t (fst p)))"
  by (simp add: observed_def split_beta)

lemma rfold_observed: "rfold handle ts (fst p) = map_sum id fst (rfold (observed handle obs) ts p)"
proof (induction ts arbitrary: p)
  case (Cons t ts)
  show ?case
  proof (cases "handle t (fst p)")
    case (Inr c')
    with Cons.IH [of "(c', snd p @ obs t (fst p))"] show ?thesis by (simp add: observed_apply)
  qed (simp add: observed_apply)
qed simp

lemma wait_loop_observed:
  "wait_loop found drain handle wake timeout ws (fst p) =
     map_option (map_sum id fst) (observed_wait found drain handle wake obs timeout ws p)"
  unfolding observed_wait_def
proof (induction ws arbitrary: p)
  case (Cons w ws)
  let ?h = "observed handle obs" and ?p = "(drain (fst p), snd p)"
  note r = rfold_observed [of handle, where obs = obs]
  show ?case
  proof (cases "rfold ?h (wt_completions w) ?p")
    case (Inl e)
    with r [of "wt_completions w" ?p] show ?thesis by (simp add: Let_def)
  next
    case (Inr q)
    with r [of "wt_completions w" ?p] have q: "rfold handle (wt_completions w) (drain (fst p)) = Inr (fst q)" by simp
    show ?thesis
      using r [of "wt_late w" q] Cons.IH
      by (cases "rfold ?h (wt_late w) q") (simp_all add: Inr q Let_def split: option.split)
  qed
qed simp

lemma turns_ok_observed:
  "turns_ok (\<lambda>t p. enabled t (fst p)) (\<lambda>p. (drain (fst p), snd p)) (observed handle obs) ws p =
   turns_ok enabled drain handle ws (fst p)"
proof -
  have d: "deliverable (\<lambda>t p. enabled t (fst p)) (observed handle obs) ts q = deliverable enabled handle ts (fst q)" for ts q
  proof (induction ts arbitrary: q)
    case (Cons t ts)
    then show ?case by (cases "handle t (fst q)") (simp_all add: observed_apply)
  qed simp
  show ?thesis
  proof (induction ws arbitrary: p)
    case (Cons w ws)
    then show ?case
      using rfold_observed [of handle "wt_completions w @ wt_late w" "(drain (fst p), snd p)" obs]
      by (cases "rfold (observed handle obs) (wt_completions w @ wt_late w) (drain (fst p), snd p)") (simp_all add: d)
  qed simp
qed

text \<open>An invariant that relates the object to what has been observed so far.\<close>

locale observed_queue = waited_queue found drain handle wake ok
  for found :: "'c \<Rightarrow> bool" and drain :: "'c \<Rightarrow> 'c" and handle :: "'t \<Rightarrow> 'c \<Rightarrow> 'c res"
    and wake :: "'c \<Rightarrow> wake_handle" and ok :: "'c \<Rightarrow> bool" +
  fixes enabled :: "'t \<Rightarrow> 'c \<Rightarrow> bool"
    and obs :: "'t \<Rightarrow> 'c \<Rightarrow> 'o list"
    and oinv :: "'c \<Rightarrow> 'o list \<Rightarrow> bool"
  assumes oinv_drain: "oinv c g \<Longrightarrow> oinv (drain c) g"
    and oinv_handle: "oinv c g \<Longrightarrow> enabled t c \<Longrightarrow> \<exists>c'. handle t c = Inr c' \<and> oinv c' (g @ obs t c)"

sublocale observed_queue \<subseteq> noted: safe_queue "\<lambda>p. found (fst p)" "\<lambda>p. (drain (fst p), snd p)" "observed handle obs"
  "\<lambda>p. wake (fst p)" "\<lambda>p. ok (fst p)" "\<lambda>t p. enabled t (fst p)" "\<lambda>p. oinv (fst p) (snd p)" "\<lambda>_ _. True"
proof unfold_locales
  fix p p' :: "'c \<times> 'o list" and t
  have h: "handle t (fst p) = Inr (fst p')" if "observed handle obs t p = Inr p'"
    using that by (auto simp: observed_apply rbind_Inr_iff)
  show "ok (fst p) \<Longrightarrow> observed handle obs t p = Inr p' \<Longrightarrow> ok (fst p')" using h ok_handle by blast
  show "ok (fst p) \<Longrightarrow> observed handle obs t p = Inr p' \<Longrightarrow> found (fst p') \<Longrightarrow> \<not> found (fst p) \<Longrightarrow> wake_readable (wake (fst p'))"
    using h arrival_signals by blast
  show "found (fst p) \<Longrightarrow> observed handle obs t p = Inr p' \<Longrightarrow> found (fst p')" using h found_stays by blast
  show "ok (fst p) \<Longrightarrow> observed handle obs t p = Inr p' \<Longrightarrow> wake_readable (wake (fst p)) \<Longrightarrow> wake_readable (wake (fst p'))"
    using h readable_stays by blast
  show "\<exists>q. observed handle obs t p = Inr q \<and> oinv (fst q) (snd q)" if "oinv (fst p) (snd p)" "enabled t (fst p)"
    using oinv_handle [OF that] by (auto simp: observed_apply)
qed (simp_all add: ok_drain found_drain oinv_drain)

context observed_queue
begin

lemma observed_wait_inv:
  assumes "oinv c g" and "turns_ok enabled drain handle ws c"
    and "observed_wait found drain handle wake obs timeout ws (c, g) = Some (Inr (c', g'))"
  shows "oinv c' g'"
  using noted.wait_safe [of "(c, g)" ws timeout] assms
  by (auto simp: observed_wait_def turns_ok_observed)

end

end
