(* ===== verification/Client.thy ===== *)
theory Client
  imports Conversions Event_Queue
begin

text \<open>
  The asynchronous client of \<^verbatim>\<open>src/client.cpp\<close>: its data, the completion thread's handler for
  every tag, and the entry points R calls.  Objects live in explicit stores, so that a pointer
  held by a completion tag can outlive its object in the model too; every dereference goes through
  \<^const>\<open>deref\<close>.

  The gRPC library is seen through its interface only.  What the client posts is recorded: in
  \<open>cl_cq\<close> while the operation is outstanding, in \<open>cl_log\<close> for good, together with whether the
  completion queue had been shut down at that moment.  What the library reports back with a
  completion (the ok flag, the dumped bytes, the status, the metadata) is the argument of the
  handler.
\<close>

section \<open>Data\<close>

datatype tag_kind = T_UNARY | T_START | T_READ | T_WRITE | T_WDONE | T_FINISH

datatype ctag = Ctag (tag_obj: addr) (tag_kind: tag_kind)

datatype ev_kind = EV_UNARY | EV_SMSG | EV_WRITABLE | EV_STATUS

record cl_event =
  ev_kind :: ev_kind
  ev_id :: u64
  ev_status :: int
  ev_message :: string
  ev_has_bytes :: bool
  ev_bytes :: string
  ev_initial_md :: md_pairs
  ev_trailing_md :: md_pairs

definition cl_event_init :: cl_event where
  "cl_event_init = \<lparr>ev_kind = EV_UNARY, ev_id = 0, ev_status = 0, ev_message = [],
     ev_has_bytes = False, ev_bytes = [], ev_initial_md = [], ev_trailing_md = []\<rparr>"

text \<open>The settings of a \<^verbatim>\<open>grpc::ClientContext\<close>; the deadline is absolute, in milliseconds.\<close>

record client_context =
  cx_deadline :: "int option"
  cx_metadata :: md_pairs
  cx_wait_for_ready :: bool
  cx_cancelled :: bool

definition client_context_init :: client_context where
  "client_context_init = \<lparr>cx_deadline = None, cx_metadata = [], cx_wait_for_ready = False,
     cx_cancelled = False\<rparr>"

record call_state =
  cs_id :: u64
  cs_context :: client_context

record stream_state =
  st_id :: u64
  st_context :: client_context
  st_pending :: int
  st_started :: bool
  st_read_inflight :: bool
  st_write_inflight :: bool
  st_wdone_inflight :: bool
  st_wdone_requested :: bool
  st_wdone_sent :: bool
  st_reads_closed :: bool
  st_broken :: bool
  st_want_finish :: bool
  st_finish_posted :: bool
  st_status_emitted :: bool
  st_unread :: int
  st_read_cap :: int
  st_write_cap :: u64
  st_write_queue :: "string list"

definition stream_state_init :: stream_state where
  "stream_state_init = \<lparr>st_id = 0, st_context = client_context_init, st_pending = 0,
     st_started = False, st_read_inflight = False, st_write_inflight = False,
     st_wdone_inflight = False, st_wdone_requested = False, st_wdone_sent = False,
     st_reads_closed = False, st_broken = False, st_want_finish = False,
     st_finish_posted = False, st_status_emitted = False, st_unread = 0, st_read_cap = 16,
     st_write_cap = 16, st_write_queue = []\<rparr>"

text \<open>The operations started on the library, with the data they carry.\<close>

datatype cl_op =
    Op_Unary string string
  | Op_StartCall string
  | Op_Read
  | Op_Write string
  | Op_WritesDone
  | Op_Finish

datatype channel_creds = Insecure | Ssl string string string

record channel_conf =
  cc_target :: string
  cc_creds :: channel_creds
  cc_override :: "string option"
  cc_args :: "(string \<times> int) list"

record client =
  cl_channel :: channel_conf
  cl_wake :: wake_handle
  cl_calls :: "(u64 \<times> addr) list"
  cl_streams :: "(u64 \<times> addr) list"
  cl_ready :: "cl_event list"
  cl_next_id :: u64
  cl_closed :: bool
  cl_shutting :: bool
  cl_call_heap :: "addr \<rightharpoonup> call_state"
  cl_stream_heap :: "addr \<rightharpoonup> stream_state"
  cl_next_addr :: addr
  cl_cq :: "ctag list"
  cl_cq_shut :: bool
  cl_log :: "(addr \<times> cl_op \<times> bool) list"

text \<open>What the library hands over with one completion.\<close>

record completion =
  cp_ok :: bool
  cp_dump :: "string list option"
  cp_code :: int
  cp_message :: string
  cp_initial_md :: md_pairs
  cp_trailing_md :: md_pairs

section \<open>Posting operations, queueing events\<close>

definition cl_post :: "addr \<Rightarrow> tag_kind \<Rightarrow> cl_op \<Rightarrow> client \<Rightarrow> client" where
  "cl_post a k op c = c\<lparr>cl_cq := cl_cq c @ [Ctag a k], cl_log := cl_log c @ [(a, op, cl_cq_shut c)]\<rparr>"

definition cl_signal :: "client \<Rightarrow> client" where
  "cl_signal c = c\<lparr>cl_wake := wake_signal (cl_wake c)\<rparr>"

definition cl_push_back :: "cl_event \<Rightarrow> client \<Rightarrow> client" where
  "cl_push_back ev c = c\<lparr>cl_ready := cl_ready c @ [ev]\<rparr>"

section \<open>Stream helpers\<close>

text \<open>
  Each helper takes the client and the object \<open>s\<close> at address \<open>a\<close>, and returns both updated.
\<close>

definition s_post_read_locked :: "addr \<Rightarrow> client \<times> stream_state \<Rightarrow> client \<times> stream_state" where
  "s_post_read_locked a = (\<lambda>(c, s).
     if cl_shutting c \<or> st_read_inflight s \<or> st_reads_closed s \<or> st_broken s \<or>
        st_finish_posted s \<or> \<not> st_started s
     then (c, s)
     else (cl_post a T_READ Op_Read c,
           s\<lparr>st_read_inflight := True, st_pending := st_pending s + 1\<rparr>))"

definition s_pump_writes_locked :: "addr \<Rightarrow> client \<times> stream_state \<Rightarrow> client \<times> stream_state" where
  "s_pump_writes_locked a = (\<lambda>(c, s).
     if cl_shutting c \<or> \<not> st_started s \<or> st_broken s \<or> st_finish_posted s then (c, s)
     else if \<not> st_write_inflight s \<and> st_write_queue s \<noteq> []
     then (cl_post a T_WRITE (Op_Write (hd (st_write_queue s))) c,
           s\<lparr>st_write_inflight := True, st_pending := st_pending s + 1\<rparr>)
     else if \<not> st_write_inflight s \<and> st_write_queue s = [] \<and>
             st_wdone_requested s \<and> \<not> st_wdone_sent s \<and> \<not> st_wdone_inflight s
     then (cl_post a T_WDONE Op_WritesDone c,
           s\<lparr>st_wdone_inflight := True, st_pending := st_pending s + 1\<rparr>)
     else (c, s))"

definition s_try_finish_locked :: "addr \<Rightarrow> client \<times> stream_state \<Rightarrow> client \<times> stream_state" where
  "s_try_finish_locked a = (\<lambda>(c, s).
     if cl_shutting c \<or> \<not> st_want_finish s \<or> st_finish_posted s then (c, s)
     else if st_read_inflight s \<or> st_write_inflight s \<or> st_wdone_inflight s then (c, s)
     else if \<not> st_started s then (c, s)
     else (cl_post a T_FINISH Op_Finish c,
           s\<lparr>st_finish_posted := True, st_pending := st_pending s + 1\<rparr>))"

text \<open>The object is stored back, or erased from the map and deleted.\<close>

definition s_maybe_free_locked :: "addr \<Rightarrow> client \<times> stream_state \<Rightarrow> client" where
  "s_maybe_free_locked a = (\<lambda>(c, s).
     if st_pending s = 0 \<and> st_status_emitted s
     then c\<lparr>cl_streams := m_erase (st_id s) (cl_streams c),
            cl_stream_heap := (cl_stream_heap c)(a := None)\<rparr>
     else c\<lparr>cl_stream_heap := (cl_stream_heap c)(a \<mapsto> s)\<rparr>)"

section \<open>The completion thread\<close>

text \<open>The events the handlers build from the call's or the stream's id and the completion.\<close>

definition unary_event :: "u64 \<Rightarrow> completion \<Rightarrow> cl_event" where
  "unary_event i cp =
     (let ev = cl_event_init\<lparr>ev_kind := EV_UNARY, ev_id := i,
                 ev_status := cp_code cp, ev_message := cp_message cp\<rparr>;
          ev = (if cp_code cp = 0
                then let (ok, bytes) = grpc_byte_buffer_to_string (cp_dump cp) (ev_bytes ev)
                     in ev\<lparr>ev_has_bytes := ok, ev_bytes := bytes\<rparr>
                else ev);
          ev = ev\<lparr>ev_initial_md := copy_md (cp_initial_md cp) (ev_initial_md ev)\<rparr>
      in ev\<lparr>ev_trailing_md := copy_md (cp_trailing_md cp) (ev_trailing_md ev)\<rparr>)"

definition msg_event :: "u64 \<Rightarrow> completion \<Rightarrow> cl_event" where
  "msg_event i cp =
     (let (ok, bytes) = grpc_byte_buffer_to_string (cp_dump cp) []
      in cl_event_init\<lparr>ev_kind := EV_SMSG, ev_id := i, ev_has_bytes := ok, ev_bytes := bytes\<rparr>)"

definition writable_event :: "u64 \<Rightarrow> cl_event" where
  "writable_event i = cl_event_init\<lparr>ev_kind := EV_WRITABLE, ev_id := i\<rparr>"

definition status_event :: "u64 \<Rightarrow> completion \<Rightarrow> cl_event" where
  "status_event i cp =
     (let ev = cl_event_init\<lparr>ev_kind := EV_STATUS, ev_id := i,
                 ev_status := cp_code cp, ev_message := cp_message cp\<rparr>;
          ev = ev\<lparr>ev_initial_md := copy_md (cp_initial_md cp) (ev_initial_md ev)\<rparr>
      in ev\<lparr>ev_trailing_md := copy_md (cp_trailing_md cp) (ev_trailing_md ev)\<rparr>)"

definition run_unary :: "addr \<Rightarrow> completion \<Rightarrow> client \<Rightarrow> client res" where
  "run_unary a cp c =
     rbind (deref (cl_call_heap c) a) (\<lambda>cs.
       let c = cl_push_back (unary_event (cs_id cs) cp) c;
           c = c\<lparr>cl_calls := m_erase (cs_id cs) (cl_calls c),
                 cl_call_heap := (cl_call_heap c)(a := None)\<rparr>
       in Inr (cl_signal c))"

definition run_start :: "addr \<Rightarrow> completion \<Rightarrow> client \<times> stream_state \<Rightarrow> client \<times> stream_state" where
  "run_start a cp = (\<lambda>(c, s).
     let cs = (if cp_ok cp
               then s_pump_writes_locked a (s_post_read_locked a (c, s\<lparr>st_started := True\<rparr>))
               else (c, s\<lparr>st_broken := True, st_started := True, st_want_finish := True\<rparr>))
     in s_try_finish_locked a cs)"

definition run_read :: "addr \<Rightarrow> completion \<Rightarrow> client \<times> stream_state \<Rightarrow> client \<times> stream_state" where
  "run_read a cp = (\<lambda>(c, s).
     let s = s\<lparr>st_read_inflight := False\<rparr>;
         cs = (if cp_ok cp \<and> \<not> st_broken s
               then let c = cl_push_back (msg_event (st_id s) cp) c;
                        s = s\<lparr>st_unread := st_unread s + 1\<rparr>;
                        c = cl_signal c
                    in if st_unread s < st_read_cap s then s_post_read_locked a (c, s) else (c, s)
               else (c, s\<lparr>st_reads_closed := True, st_want_finish := True\<rparr>))
     in s_try_finish_locked a cs)"

definition run_write :: "addr \<Rightarrow> completion \<Rightarrow> client \<times> stream_state \<Rightarrow> (client \<times> stream_state) res" where
  "run_write a cp = (\<lambda>(c, s).
     let s = s\<lparr>st_write_inflight := False\<rparr>
     in rbind
          (if cp_ok cp \<and> \<not> st_broken s
           then case st_write_queue s of
                  [] \<Rightarrow> Inl Empty_deque
                | _ # q \<Rightarrow>
                    let s = s\<lparr>st_write_queue := q\<rparr>;
                        c = (if q = []
                             then cl_signal (cl_push_back (writable_event (st_id s)) c)
                             else c)
                    in Inr (s_pump_writes_locked a (c, s))
           else Inr (c, s\<lparr>st_broken := True, st_want_finish := True\<rparr>))
          (\<lambda>cs. Inr (s_try_finish_locked a cs)))"

definition run_wdone :: "addr \<Rightarrow> completion \<Rightarrow> client \<times> stream_state \<Rightarrow> client \<times> stream_state" where
  "run_wdone a cp = (\<lambda>(c, s).
     let s = s\<lparr>st_wdone_inflight := False, st_wdone_sent := True\<rparr>;
         s = (if \<not> cp_ok cp then s\<lparr>st_broken := True, st_want_finish := True\<rparr> else s)
     in s_try_finish_locked a (c, s))"

definition run_finish :: "completion \<Rightarrow> client \<times> stream_state \<Rightarrow> client \<times> stream_state" where
  "run_finish cp = (\<lambda>(c, s).
     let c = cl_push_back (status_event (st_id s) cp) c;
         s = s\<lparr>st_status_emitted := True\<rparr>
     in (cl_signal c, s))"

text \<open>
  One iteration of \<^verbatim>\<open>run()\<close>: \<^verbatim>\<open>cq.Next\<close> takes the tag off the queue, then the switch of the
  source handles it.
\<close>

definition cl_dispatch :: "addr \<Rightarrow> tag_kind \<Rightarrow> completion \<Rightarrow> client \<times> stream_state \<Rightarrow> (client \<times> stream_state) res" where
  "cl_dispatch a k cp cs =
     (case k of
        T_START \<Rightarrow> Inr (run_start a cp cs)
      | T_READ \<Rightarrow> Inr (run_read a cp cs)
      | T_WRITE \<Rightarrow> run_write a cp cs
      | T_WDONE \<Rightarrow> Inr (run_wdone a cp cs)
      | T_FINISH \<Rightarrow> Inr (run_finish cp cs)
      | T_UNARY \<Rightarrow> Inr cs)"

definition cl_handle :: "ctag \<times> completion \<Rightarrow> client \<Rightarrow> client res" where
  "cl_handle = (\<lambda>(t, cp) c.
     let c = c\<lparr>cl_cq := remove1 t (cl_cq c)\<rparr>;
         a = tag_obj t
     in if tag_kind t = T_UNARY then run_unary a cp c
        else rbind (deref (cl_stream_heap c) a) (\<lambda>s.
               let s = s\<lparr>st_pending := st_pending s - 1\<rparr>
               in rbind (cl_dispatch a (tag_kind t) cp (c, s)) (\<lambda>cs.
                    Inr (s_maybe_free_locked a cs))))"

text \<open>
  The loop itself over the completions the library delivers.  \<open>None\<close>: \<^verbatim>\<open>cq.Next\<close> blocks.  It
  returns false, and the loop ends, once the queue is shut down and empty.
\<close>

fun cl_run :: "(ctag \<times> completion) list \<Rightarrow> client \<Rightarrow> client res option" where
  "cl_run [] c = (if cl_cq_shut c \<and> cl_cq c = [] then Some (Inr c) else None)"
| "cl_run (tc # tcs) c =
     (if fst tc \<notin> set (cl_cq c) then None
      else case cl_handle tc c of Inl e \<Rightarrow> Some (Inl e) | Inr c \<Rightarrow> cl_run tcs c)"

section \<open>Shutdown and the external pointer\<close>

definition try_cancel :: "client_context \<Rightarrow> client_context" where
  "try_cancel cx = cx\<lparr>cx_cancelled := True\<rparr>"

definition cancel_call :: "addr \<Rightarrow> client \<Rightarrow> client res" where
  "cancel_call a c =
     rbind (deref (cl_call_heap c) a) (\<lambda>cs.
       Inr (c\<lparr>cl_call_heap := (cl_call_heap c)(a \<mapsto> cs\<lparr>cs_context := try_cancel (cs_context cs)\<rparr>)\<rparr>))"

definition cancel_stream :: "addr \<Rightarrow> client \<Rightarrow> client res" where
  "cancel_stream a c =
     rbind (deref (cl_stream_heap c) a) (\<lambda>s.
       Inr (c\<lparr>cl_stream_heap := (cl_stream_heap c)(a \<mapsto> s\<lparr>st_context := try_cancel (st_context s)\<rparr>)\<rparr>))"

definition delete_call :: "addr \<Rightarrow> client \<Rightarrow> client res" where
  "delete_call a c =
     rbind (deref (cl_call_heap c) a) (\<lambda>_. Inr (c\<lparr>cl_call_heap := (cl_call_heap c)(a := None)\<rparr>))"

definition delete_stream :: "addr \<Rightarrow> client \<Rightarrow> client res" where
  "delete_stream a c =
     rbind (deref (cl_stream_heap c) a) (\<lambda>_. Inr (c\<lparr>cl_stream_heap := (cl_stream_heap c)(a := None)\<rparr>))"

text \<open>The locked section of \<^verbatim>\<open>client_shutdown\<close>, and the shutdown of the completion queue.\<close>

definition client_shutdown_begin :: "client \<Rightarrow> client res" where
  "client_shutdown_begin c =
     (let c = c\<lparr>cl_closed := True, cl_shutting := True\<rparr>
      in rbind (rfold (\<lambda>kv. cancel_call (snd kv)) (cl_calls c) c) (\<lambda>c.
         rbind (rfold (\<lambda>kv. cancel_stream (snd kv)) (cl_streams c) c) (\<lambda>c.
           Inr (c\<lparr>cl_cq_shut := True\<rparr>))))"

text \<open>
  What follows the join of the completion thread.  The second result is the list of descriptors
  passed to \<^verbatim>\<open>close()\<close>.
\<close>

definition client_shutdown_end :: "client \<Rightarrow> (client \<times> int list) res" where
  "client_shutdown_end c =
     rbind (rfold (\<lambda>kv. delete_call (snd kv)) (cl_calls c) c) (\<lambda>c.
     let c = c\<lparr>cl_calls := []\<rparr>
     in rbind (rfold (\<lambda>kv. delete_stream (snd kv)) (cl_streams c) c) (\<lambda>c.
          let (wake, fds) = wake_close (cl_wake c)
          in Inr (c\<lparr>cl_streams := [], cl_ready := [], cl_wake := wake\<rparr>, fds)))"

text \<open>\<open>tcs\<close> are the completions the thread receives until it is joined; \<open>None\<close>: it never ends.\<close>

definition client_shutdown :: "(ctag \<times> completion) list \<Rightarrow> client \<Rightarrow> (client \<times> int list) res option" where
  "client_shutdown tcs c =
     (if cl_closed c then Some (Inr (c, []))
      else case client_shutdown_begin c of
             Inl e \<Rightarrow> Some (Inl e)
           | Inr c \<Rightarrow>
               (case cl_run tcs c of
                  None \<Rightarrow> None
                | Some (Inl e) \<Rightarrow> Some (Inl e)
                | Some (Inr c) \<Rightarrow> Some (client_shutdown_end c)))"

text \<open>\<open>xp = None\<close> is a cleared external pointer.\<close>

definition client_finalizer :: "(ctag \<times> completion) list \<Rightarrow> client option \<Rightarrow> client option res option" where
  "client_finalizer tcs xp =
     (case xp of
        None \<Rightarrow> Some (Inr None)
      | Some c \<Rightarrow>
          (case client_shutdown tcs c of
             None \<Rightarrow> None
           | Some (Inl e) \<Rightarrow> Some (Inl e)
           | Some (Inr c) \<Rightarrow> Some (Inr None)))"

definition get_client :: "client option \<Rightarrow> client res" where
  "get_client xp =
     (case xp of
        None \<Rightarrow> Inl (Rf_error ''grpc client is closed'')
      | Some c \<Rightarrow> if cl_closed c then Inl (Rf_error ''grpc client is closed'') else Inr c)"

section \<open>Entry points\<close>

text \<open>\<^verbatim>\<open>(int64_t) ms\<close>: truncation towards zero.\<close>

definition trunc_ms :: "rat \<Rightarrow> int" where
  "trunc_ms ms = (if ms < 0 then - \<lfloor>- ms\<rfloor> else \<lfloor>ms\<rfloor>)"

definition apply_context_opts ::
  "int \<Rightarrow> client_context \<Rightarrow> rat option \<Rightarrow> md_pairs option \<Rightarrow> bool \<Rightarrow> client_context" where
  "apply_context_opts now ctx deadline_ms metadata wait_for_ready =
     (let ctx = (case deadline_ms of
                   None \<Rightarrow> ctx
                 | Some ms \<Rightarrow> ctx\<lparr>cx_deadline := Some (now + trunc_ms ms)\<rparr>);
          ctx = (case metadata of
                   None \<Rightarrow> ctx
                 | Some md \<Rightarrow> foldl (\<lambda>ctx kv. ctx\<lparr>cx_metadata := cx_metadata ctx @ [kv]\<rparr>) ctx md)
      in ctx\<lparr>cx_wait_for_ready := wait_for_ready\<rparr>)"

text \<open>The options of \<^verbatim>\<open>grpc_r_client_create\<close>; \<open>None\<close> is \<^verbatim>\<open>R_NilValue\<close>.\<close>

record client_opts =
  co_target :: string
  co_tls :: bool
  co_ca :: "string option"
  co_cert :: "string option"
  co_key :: "string option"
  co_override :: "string option"
  co_keepalive_ms :: "int option"
  co_keepalive_timeout_ms :: "int option"

definition client_channel_args :: "client_opts \<Rightarrow> (string \<times> int) list" where
  "client_channel_args o' =
     (case co_keepalive_ms o' of
        None \<Rightarrow> []
      | Some ms \<Rightarrow> [(''grpc.keepalive_time_ms'', ms),
                    (''grpc.http2.max_pings_without_data'', 0),
                    (''grpc.keepalive_permit_without_calls'', 1)]) @
     (case co_keepalive_timeout_ms o' of
        None \<Rightarrow> []
      | Some ms \<Rightarrow> [(''grpc.keepalive_timeout_ms'', ms)])"

definition grpc_r_client_create :: "(int \<times> int \<times> nat) option \<Rightarrow> client_opts \<Rightarrow> client res" where
  "grpc_r_client_create pipe_result o' =
     (let (opened, wake) = wake_open pipe_result wake_handle_init
      in if \<not> opened then Inl (Rf_error ''wake handle creation failed'')
         else
           let creds = (if co_tls o'
                        then Ssl (chr_or_empty (co_ca o')) (chr_or_empty (co_key o')) (chr_or_empty (co_cert o'))
                        else Insecure);
               ov = chr_or_empty (co_override o');
               chan = \<lparr>cc_target = co_target o', cc_creds = creds,
                       cc_override = (if ov \<noteq> [] then Some ov else None),
                       cc_args = client_channel_args o'\<rparr>
           in Inr \<lparr>cl_channel = chan, cl_wake = wake, cl_calls = [], cl_streams = [], cl_ready = [],
                   cl_next_id = 1, cl_closed = False, cl_shutting = False,
                   cl_call_heap = Map.empty, cl_stream_heap = Map.empty, cl_next_addr = 0,
                   cl_cq = [], cl_cq_shut = False, cl_log = []\<rparr>)"

text \<open>\<open>state\<close> is the channel's connectivity state, which the library reports.\<close>

definition grpc_r_client_state :: "int \<Rightarrow> client option \<Rightarrow> (sexp \<times> client) res" where
  "grpc_r_client_state state xp = rbind (get_client xp) (\<lambda>c. Inr (R_Integer state, c))"

definition grpc_r_client_close :: "(ctag \<times> completion) list \<Rightarrow> client option \<Rightarrow> (sexp \<times> client option) res option" where
  "grpc_r_client_close tcs xp =
     map_option (\<lambda>r. rbind r (\<lambda>xp. Inr (R_NilValue, xp))) (client_finalizer tcs xp)"

definition grpc_r_client_fd :: "client option \<Rightarrow> (sexp \<times> client) res" where
  "grpc_r_client_fd xp = rbind (get_client xp) (\<lambda>c. Inr (R_Integer (wake_fd (cl_wake c)), c))"

definition grpc_r_client_pending :: "client option \<Rightarrow> (sexp \<times> client) res" where
  "grpc_r_client_pending xp =
     rbind (get_client xp) (\<lambda>c.
       Inr (R_Integer (int_of_size (m_size (cl_calls c) + m_size (cl_streams c))), c))"

record call_args =
  ca_method :: string
  ca_deadline_ms :: "rat option"
  ca_metadata :: "md_pairs option"
  ca_wait_for_ready :: bool

definition grpc_r_call_start :: "int \<Rightarrow> client option \<Rightarrow> call_args \<Rightarrow> string \<Rightarrow> (sexp \<times> client) res" where
  "grpc_r_call_start now xp args request =
     rbind (get_client xp) (\<lambda>c.
       let a = cl_next_addr c;
           context = apply_context_opts now client_context_init (ca_deadline_ms args)
                       (ca_metadata args) (ca_wait_for_ready args);
           cid = cl_next_id c;
           cs = \<lparr>cs_id = cid, cs_context = context\<rparr>;
           c = c\<lparr>cl_next_addr := a + 1, cl_next_id := cid + 1,
                 cl_call_heap := (cl_call_heap c)(a \<mapsto> cs),
                 cl_calls := m_insert cid a (cl_calls c)\<rparr>;
           c = cl_post a T_UNARY (Op_Unary (ca_method args) request) c
       in Inr (R_Real (Some (double_of_u64 cid)), c))"

definition grpc_r_call_cancel :: "client option \<Rightarrow> int \<Rightarrow> (sexp \<times> client) res" where
  "grpc_r_call_cancel xp cid =
     rbind (get_client xp) (\<lambda>c.
       let want = u64_of_double cid
       in rbind (case m_find (cl_calls c) want of None \<Rightarrow> Inr c | Some a \<Rightarrow> cancel_call a c) (\<lambda>c.
          rbind (case m_find (cl_streams c) want of None \<Rightarrow> Inr c | Some a \<Rightarrow> cancel_stream a c) (\<lambda>c.
            Inr (R_NilValue, c))))"

text \<open>\<^verbatim>\<open>(size_t) Rf_asInteger(write_cap)\<close> sign-extends a negative value.\<close>

definition grpc_r_stream_start :: "int \<Rightarrow> client option \<Rightarrow> call_args \<Rightarrow> int \<Rightarrow> int \<Rightarrow> (sexp \<times> client) res" where
  "grpc_r_stream_start now xp args read_cap write_cap =
     rbind (get_client xp) (\<lambda>c.
       let a = cl_next_addr c;
           context = apply_context_opts now client_context_init (ca_deadline_ms args)
                       (ca_metadata args) (ca_wait_for_ready args);
           cid = cl_next_id c;
           s = stream_state_init\<lparr>st_context := context, st_read_cap := read_cap,
                 st_write_cap := word_of_int write_cap, st_id := cid, st_pending := 1\<rparr>;
           c = c\<lparr>cl_next_addr := a + 1, cl_next_id := cid + 1,
                 cl_stream_heap := (cl_stream_heap c)(a \<mapsto> s),
                 cl_streams := m_insert cid a (cl_streams c)\<rparr>;
           c = cl_post a T_START (Op_StartCall (ca_method args)) c
       in Inr (R_Real (Some (double_of_u64 cid)), c))"

definition cl_store :: "addr \<Rightarrow> client \<times> stream_state \<Rightarrow> client" where
  "cl_store a = (\<lambda>(c, s). c\<lparr>cl_stream_heap := (cl_stream_heap c)(a \<mapsto> s)\<rparr>)"

definition grpc_r_stream_send :: "client option \<Rightarrow> int \<Rightarrow> string \<Rightarrow> (sexp \<times> client) res" where
  "grpc_r_stream_send xp cid bytes =
     rbind (get_client xp) (\<lambda>c.
       let want = u64_of_double cid
       in case m_find (cl_streams c) want of
            None \<Rightarrow> Inr (R_Logical False, c)
          | Some a \<Rightarrow>
              rbind (deref (cl_stream_heap c) a) (\<lambda>s.
                if st_broken s \<or> st_finish_posted s \<or> st_wdone_requested s
                then Inr (R_Logical False, c)
                else if unat (st_write_cap s) \<le> length (st_write_queue s)
                then Inr (R_Logical False, c)
                else
                  let s = s\<lparr>st_write_queue := st_write_queue s @ [bytes]\<rparr>
                  in Inr (R_Logical True, cl_store a (s_pump_writes_locked a (c, s)))))"

definition grpc_r_stream_writes_done :: "client option \<Rightarrow> int \<Rightarrow> (sexp \<times> client) res" where
  "grpc_r_stream_writes_done xp cid =
     rbind (get_client xp) (\<lambda>c.
       let want = u64_of_double cid
       in case m_find (cl_streams c) want of
            None \<Rightarrow> Inr (R_Logical False, c)
          | Some a \<Rightarrow>
              rbind (deref (cl_stream_heap c) a) (\<lambda>s.
                if st_wdone_requested s then Inr (R_Logical False, c)
                else
                  let s = s\<lparr>st_wdone_requested := True\<rparr>
                  in Inr (R_Logical True, cl_store a (s_pump_writes_locked a (c, s)))))"

section \<open>Polling\<close>

definition cl_drain :: "client \<Rightarrow> client" where
  "cl_drain c = c\<lparr>cl_wake := wake_drain (cl_wake c)\<rparr>"

definition cl_found :: "u64 option \<Rightarrow> client \<Rightarrow> bool" where
  "cl_found only_id c = have_match ev_id only_id (cl_ready c)"

text \<open>What taking one event out of the deque does to the stream it belongs to.\<close>

definition cl_taken :: "cl_event \<Rightarrow> client \<Rightarrow> client res" where
  "cl_taken ev c =
     (if ev_kind ev = EV_SMSG
      then case m_find (cl_streams c) (ev_id ev) of
             None \<Rightarrow> Inr c
           | Some a \<Rightarrow>
               rbind (deref (cl_stream_heap c) a) (\<lambda>s.
                 let s = s\<lparr>st_unread := st_unread s - 1\<rparr>
                 in Inr (cl_store a (if st_unread s < st_read_cap s
                                     then s_post_read_locked a (c, s) else (c, s))))
      else Inr c)"

text \<open>The batch loop: \<open>pre\<close> are the events stepped over, \<open>it\<close> the ones not looked at yet.\<close>

fun cl_batch_loop ::
  "u64 option \<Rightarrow> int \<Rightarrow> cl_event list \<Rightarrow> cl_event list \<Rightarrow> cl_event list \<Rightarrow> client \<Rightarrow> (cl_event list \<times> client) res" where
  "cl_batch_loop only_id maxn batch pre [] c = Inr (batch, c)"
| "cl_batch_loop only_id maxn batch pre (ev # it) c =
     (if \<not> int (length batch) < maxn then Inr (batch, c)
      else if \<not> matches ev_id only_id ev then cl_batch_loop only_id maxn batch (pre @ [ev]) it c
      else rbind (cl_taken ev (c\<lparr>cl_ready := pre @ it\<rparr>)) (\<lambda>c.
             cl_batch_loop only_id maxn (batch @ [ev]) pre it c))"

text \<open>The locked section after the wait: drain, take the batch, re-arm.\<close>

definition cl_poll_locked :: "u64 option \<Rightarrow> int \<Rightarrow> client \<Rightarrow> (cl_event list \<times> client) res" where
  "cl_poll_locked only_id maxn c =
     (let c = cl_drain c
      in rbind (cl_batch_loop only_id maxn [] [] (cl_ready c) c) (\<lambda>(batch, c).
           Inr (batch, if cl_ready c \<noteq> [] then cl_signal c else c)))"

text \<open>\<^verbatim>\<open>grpc_r_client_poll\<close> up to the conversion of the batch; \<open>None\<close>: still waiting.\<close>

definition client_poll ::
  "client option \<Rightarrow> int \<Rightarrow> int \<Rightarrow> int option \<Rightarrow> (ctag \<times> completion) wait_turn list \<Rightarrow>
   (cl_event list \<times> client) res option" where
  "client_poll xp maxn timeout only_id turns =
     (case get_client xp of
        Inl e \<Rightarrow> Some (Inl e)
      | Inr c \<Rightarrow>
          let want = map_option u64_of_double only_id
          in case (if timeout \<noteq> 0
                   then wait_loop (cl_found want) cl_drain cl_handle cl_wake timeout turns c
                   else Some (Inr c)) of
               None \<Rightarrow> None
             | Some (Inl e) \<Rightarrow> Some (Inl e)
             | Some (Inr c) \<Rightarrow> Some (cl_poll_locked want maxn c))"

definition kind_name :: "ev_kind \<Rightarrow> string" where
  "kind_name k = (case k of EV_UNARY \<Rightarrow> ''unary'' | EV_SMSG \<Rightarrow> ''stream_msg''
     | EV_WRITABLE \<Rightarrow> ''stream_writable'' | EV_STATUS \<Rightarrow> ''stream_status'')"

definition cl_event_fields :: "string list" where
  "cl_event_fields = [''kind'', ''id'', ''status'', ''message'', ''response'',
     ''initial_metadata'', ''trailing_metadata'']"

definition cl_event_to_r :: "mk_char_len \<Rightarrow> cl_event \<Rightarrow> sexp res" where
  "cl_event_to_r mkCharLen ev =
     rbind (if ev_kind ev = EV_UNARY \<or> ev_kind ev = EV_STATUS
            then rbind (md_pairs_or_null mkCharLen (ev_initial_md ev)) (\<lambda>imd.
                 rbind (md_pairs_or_null mkCharLen (ev_trailing_md ev)) (\<lambda>tmd.
                   Inr (R_Integer (ev_status ev), R_String [c_str (ev_message ev)] None, imd, tmd)))
            else Inr (R_NilValue, R_NilValue, R_NilValue, R_NilValue))
       (\<lambda>(status, message, imd, tmd).
          Inr (R_List [R_String [kind_name (ev_kind ev)] None,
                       R_Real (Some (double_of_u64 (ev_id ev))), status, message,
                       (if ev_has_bytes ev then R_Raw (ev_bytes ev) else R_NilValue), imd, tmd]
                 (Some cl_event_fields)))"

fun cl_events_to_r :: "mk_char_len \<Rightarrow> cl_event list \<Rightarrow> sexp list res" where
  "cl_events_to_r mkCharLen [] = Inr []"
| "cl_events_to_r mkCharLen (ev # evs) =
     rbind (cl_event_to_r mkCharLen ev) (\<lambda>e.
     rbind (cl_events_to_r mkCharLen evs) (\<lambda>es. Inr (e # es)))"

text \<open>
  The whole entry point: the batch is taken out of the client first and converted afterwards.
  The result is what R receives, and the client as it is left behind.
\<close>

definition grpc_r_client_poll ::
  "mk_char_len \<Rightarrow> client option \<Rightarrow> int \<Rightarrow> int \<Rightarrow> int option \<Rightarrow> (ctag \<times> completion) wait_turn list \<Rightarrow>
   (sexp res \<times> client) res option" where
  "grpc_r_client_poll mkCharLen xp maxn timeout only_id turns =
     map_option (\<lambda>r. rbind r (\<lambda>(batch, c).
         Inr (rbind (cl_events_to_r mkCharLen batch) (\<lambda>es. Inr (R_List es None)), c)))
       (client_poll xp maxn timeout only_id turns)"

end
