(* ===== verification/Client_Inv.thy ===== *)
theory Client_Inv
  imports Client
begin

text \<open>
  The invariant of one client stream.  It says that the flags of the object agree with the
  operations that are really outstanding in the completion queue, that the buffers stay within
  their bounds and that a stream which waits for nothing but R is throttled.  Every handler of
  the completion thread in \<^verbatim>\<open>src/client.cpp\<close> keeps it, does not fault, and touches nothing but
  its own stream.
\<close>

section \<open>Counting\<close>

definition cnt :: "client \<Rightarrow> addr \<Rightarrow> tag_kind \<Rightarrow> nat" where
  "cnt c a k = count_list (cl_cq c) (Ctag a k)"

definition is_smsg :: "u64 \<Rightarrow> cl_event \<Rightarrow> bool" where
  "is_smsg i e \<longleftrightarrow> ev_kind e = EV_SMSG \<and> ev_id e = i"

definition smsgs :: "client \<Rightarrow> u64 \<Rightarrow> nat" where
  "smsgs c i = length (filter (is_smsg i) (cl_ready c))"

lemma event_kinds [simp]:
  "ev_kind (unary_event i cp) = EV_UNARY" "ev_id (unary_event i cp) = i"
  "ev_kind (msg_event i cp) = EV_SMSG" "ev_id (msg_event i cp) = i"
  "ev_kind (writable_event i) = EV_WRITABLE" "ev_id (writable_event i) = i"
  "ev_kind (status_event i cp) = EV_STATUS" "ev_id (status_event i cp) = i"
  by (simp_all add: unary_event_def msg_event_def writable_event_def status_event_def
      cl_event_init_def Let_def split_beta)

lemma is_smsg_events [simp]:
  "is_smsg j (msg_event i cp) \<longleftrightarrow> i = j" "\<not> is_smsg j (unary_event i cp)"
  "\<not> is_smsg j (writable_event i)" "\<not> is_smsg j (status_event i cp)"
  by (simp_all add: is_smsg_def)

section \<open>One stream\<close>

text \<open>The flags are consistent with each other.\<close>

definition stream_wf :: "stream_state \<Rightarrow> bool" where
  "stream_wf s \<longleftrightarrow>
     \<not> st_status_emitted s \<and>
     (\<not> st_started s \<longrightarrow> \<not> st_read_inflight s \<and> \<not> st_write_inflight s \<and> \<not> st_wdone_inflight s \<and>
        \<not> st_wdone_sent s \<and> \<not> st_finish_posted s \<and> \<not> st_want_finish s \<and> st_unread s = 0) \<and>
     (st_finish_posted s \<longrightarrow> st_want_finish s \<and> \<not> st_read_inflight s \<and> \<not> st_write_inflight s \<and>
        \<not> st_wdone_inflight s) \<and>
     (st_write_inflight s \<longrightarrow> st_write_queue s \<noteq> []) \<and>
     (st_wdone_inflight s \<longrightarrow> st_write_queue s = [] \<and> \<not> st_wdone_sent s) \<and>
     (st_wdone_inflight s \<or> st_wdone_sent s \<longrightarrow> st_wdone_requested s) \<and>
     (st_want_finish s \<longleftrightarrow> st_broken s \<or> st_reads_closed s) \<and>
     length (st_write_queue s) \<le> unat (st_write_cap s)"

text \<open>The flags and the pending counter agree with the outstanding tags.\<close>

definition stream_tags :: "(tag_kind \<Rightarrow> nat) \<Rightarrow> stream_state \<Rightarrow> bool" where
  "stream_tags n s \<longleftrightarrow>
     n T_UNARY = 0 \<and>
     n T_START = of_bool (\<not> st_started s) \<and>
     n T_READ = of_bool (st_read_inflight s) \<and>
     n T_WRITE = of_bool (st_write_inflight s) \<and>
     n T_WDONE = of_bool (st_wdone_inflight s) \<and>
     n T_FINISH = of_bool (st_finish_posted s) \<and>
     st_pending s = int (n T_START + n T_READ + n T_WRITE + n T_WDONE + n T_FINISH)"

text \<open>Inbound buffering is bounded by \<open>read_cap\<close>.\<close>

definition stream_bounded :: "stream_state \<Rightarrow> bool" where
  "stream_bounded s \<longleftrightarrow>
     (1 \<le> st_read_cap s \<longrightarrow>
        st_unread s \<le> st_read_cap s \<and> (st_read_inflight s \<longrightarrow> st_unread s < st_read_cap s))"

text \<open>Nothing that could be posted is left unposted.\<close>

definition reads_flow :: "stream_state \<Rightarrow> bool" where
  "reads_flow s \<longleftrightarrow>
     (st_started s \<and> \<not> st_reads_closed s \<and> \<not> st_broken s \<and> \<not> st_finish_posted s \<longrightarrow>
        st_read_inflight s \<or> st_read_cap s \<le> st_unread s)"

definition writes_flow :: "stream_state \<Rightarrow> bool" where
  "writes_flow s \<longleftrightarrow>
     (st_started s \<and> \<not> st_broken s \<and> \<not> st_finish_posted s \<longrightarrow>
        (st_write_queue s \<noteq> [] \<longrightarrow> st_write_inflight s) \<and>
        (st_wdone_requested s \<and> st_write_queue s = [] \<longrightarrow> st_wdone_inflight s \<or> st_wdone_sent s))"

definition finish_flow :: "stream_state \<Rightarrow> bool" where
  "finish_flow s \<longleftrightarrow>
     (st_started s \<and> st_want_finish s \<and> \<not> st_finish_posted s \<longrightarrow>
        st_read_inflight s \<or> st_write_inflight s \<or> st_wdone_inflight s)"

definition stream_live :: "bool \<Rightarrow> stream_state \<Rightarrow> bool" where
  "stream_live shutting s \<longleftrightarrow> shutting \<or> reads_flow s \<and> writes_flow s \<and> finish_flow s"

text \<open>What holds of a stream object at all times while the mutex is held.\<close>

definition stream_core :: "addr \<Rightarrow> client \<times> stream_state \<Rightarrow> bool" where
  "stream_core a = (\<lambda>(c, s).
     stream_wf s \<and> stream_tags (cnt c a) s \<and> stream_bounded s \<and>
     int (smsgs c (st_id s)) = st_unread s)"

definition stream_ok :: "addr \<Rightarrow> client \<times> stream_state \<Rightarrow> bool" where
  "stream_ok a = (\<lambda>(c, s). stream_core a (c, s) \<and> stream_live (cl_shutting c) s)"

lemmas stream_defs = stream_wf_def stream_tags_def stream_bounded_def

section \<open>What a handler may touch\<close>

text \<open>
  A section that works on the stream at \<open>a\<close> with id \<open>i\<close> only appends tags of that object, log
  entries of that object and events with that id, and signals once per event.
\<close>

definition log_flags :: "(addr \<times> cl_op \<times> bool) list \<Rightarrow> bool list" where
  "log_flags l = map (\<lambda>x. snd (snd x)) l"

lemma log_flags_simps [simp]:
  "log_flags [] = []" "log_flags (x # l) = snd (snd x) # log_flags l"
  "log_flags (l @ l') = log_flags l @ log_flags l'"
  by (simp_all add: log_flags_def)

definition touches :: "addr \<Rightarrow> u64 \<Rightarrow> client \<Rightarrow> client \<Rightarrow> bool" where
  "touches a i c c' \<longleftrightarrow>
     (\<exists>ks l evs. c' = c\<lparr>cl_cq := cl_cq c @ map (Ctag a) ks, cl_log := cl_log c @ l,
          cl_ready := cl_ready c @ evs, cl_wake := (wake_signal ^^ length evs) (cl_wake c)\<rparr> \<and>
        (\<forall>e \<in> set evs. ev_id e = i) \<and> set (map fst l) \<subseteq> {a} \<and> set (log_flags l) \<subseteq> {cl_cq_shut c} \<and>
        (cl_shutting c \<longrightarrow> ks = [] \<and> l = []))"

lemma touches_refl [simp, intro]: "touches a i c c"
  unfolding touches_def by (rule exI [of _ "[]"], rule exI [of _ "[]"], rule exI [of _ "[]"]) simp

lemma touches_trans [trans]:
  assumes "touches a i c1 c2" and "touches a i c2 c3"
  shows "touches a i c1 c3"
proof -
  from assms(1) obtain ks l evs where 1:
    "c2 = c1\<lparr>cl_cq := cl_cq c1 @ map (Ctag a) ks, cl_log := cl_log c1 @ l,
       cl_ready := cl_ready c1 @ evs, cl_wake := (wake_signal ^^ length evs) (cl_wake c1)\<rparr>"
    "\<forall>e \<in> set evs. ev_id e = i" "set (map fst l) \<subseteq> {a}" "set (log_flags l) \<subseteq> {cl_cq_shut c1}"
    "cl_shutting c1 \<longrightarrow> ks = [] \<and> l = []"
    unfolding touches_def by blast
  from assms(2) obtain ks' l' evs' where 2:
    "c3 = c2\<lparr>cl_cq := cl_cq c2 @ map (Ctag a) ks', cl_log := cl_log c2 @ l',
       cl_ready := cl_ready c2 @ evs', cl_wake := (wake_signal ^^ length evs') (cl_wake c2)\<rparr>"
    "\<forall>e \<in> set evs'. ev_id e = i" "set (map fst l') \<subseteq> {a}" "set (log_flags l') \<subseteq> {cl_cq_shut c2}"
    "cl_shutting c2 \<longrightarrow> ks' = [] \<and> l' = []"
    unfolding touches_def by blast
  show ?thesis
    unfolding touches_def
    by (rule exI [of _ "ks @ ks'"], rule exI [of _ "l @ l'"], rule exI [of _ "evs @ evs'"])
      (use 1 2 in \<open>auto simp del: set_map simp: funpow_add add.commute [of "length evs"]\<close>)
qed

lemma touches_post: "\<not> cl_shutting c \<Longrightarrow> touches a i c (cl_post a k op c)"
  unfolding touches_def cl_post_def
  by (rule exI [of _ "[k]"], rule exI [of _ "[(a, op, cl_cq_shut c)]"], rule exI [of _ "[]"]) simp

lemma touches_push: "ev_id ev = i \<Longrightarrow> touches a i c (cl_signal (cl_push_back ev c))"
  unfolding touches_def cl_signal_def cl_push_back_def
  by (rule exI [of _ "[]"], rule exI [of _ "[]"], rule exI [of _ "[ev]"]) simp

lemma touches_frame:
  assumes "touches a i c c'"
  shows "cl_calls c' = cl_calls c" "cl_streams c' = cl_streams c" "cl_next_id c' = cl_next_id c"
    "cl_next_addr c' = cl_next_addr c" "cl_closed c' = cl_closed c" "cl_shutting c' = cl_shutting c"
    "cl_call_heap c' = cl_call_heap c" "cl_stream_heap c' = cl_stream_heap c"
    "cl_cq_shut c' = cl_cq_shut c" "cl_channel c' = cl_channel c"
  using assms by (auto simp: touches_def)

lemma touches_cnt: "touches a i c c' \<Longrightarrow> b \<noteq> a \<Longrightarrow> cnt c' b k = cnt c b k"
  by (auto simp: touches_def cnt_def count_list_0_iff)

lemma touches_smsgs: "touches a i c c' \<Longrightarrow> j \<noteq> i \<Longrightarrow> smsgs c' j = smsgs c j"
  by (auto simp: touches_def smsgs_def is_smsg_def filter_empty_conv)

section \<open>The helpers\<close>

lemma cnt_simps [simp]:
  "cnt (cl_post a k op c) b j = cnt c b j + (if b = a \<and> j = k then 1 else 0)"
  "cnt (cl_signal c) b j = cnt c b j"
  "cnt (cl_push_back ev c) b j = cnt c b j"
  "cnt (c\<lparr>cl_cq := remove1 t (cl_cq c)\<rparr>) b j = (if t = Ctag b j then cnt c b j - 1 else cnt c b j)"
  by (auto simp: cnt_def cl_post_def cl_signal_def cl_push_back_def)

lemma smsgs_simps [simp]:
  "smsgs (cl_post a k op c) i = smsgs c i"
  "smsgs (cl_signal c) i = smsgs c i"
  "smsgs (cl_push_back ev c) i = smsgs c i + (if is_smsg i ev then 1 else 0)"
  "smsgs (c\<lparr>cl_cq := q\<rparr>) i = smsgs c i"
  by (simp_all add: smsgs_def cl_post_def cl_signal_def cl_push_back_def)

lemma shutting_simps [simp]:
  "cl_shutting (cl_post a k op c) = cl_shutting c"
  "cl_shutting (cl_signal c) = cl_shutting c"
  "cl_shutting (cl_push_back ev c) = cl_shutting c"
  by (simp_all add: cl_post_def cl_signal_def cl_push_back_def)

text \<open>The branches of the helpers, one case each.\<close>

lemma s_post_read_cases:
  obtains (idle) "s_post_read_locked a (c, s) = (c, s)"
      "\<not> cl_shutting c \<Longrightarrow> reads_flow s"
  | (read) "\<not> cl_shutting c" "\<not> st_read_inflight s" "\<not> st_reads_closed s" "\<not> st_broken s"
      "\<not> st_finish_posted s" "st_started s"
      "s_post_read_locked a (c, s) =
         (cl_post a T_READ Op_Read c, s\<lparr>st_read_inflight := True, st_pending := st_pending s + 1\<rparr>)"
proof (cases "cl_shutting c \<or> st_read_inflight s \<or> st_reads_closed s \<or> st_broken s \<or>
    st_finish_posted s \<or> \<not> st_started s")
  case True
  then show ?thesis by (intro idle) (auto simp: s_post_read_locked_def reads_flow_def)
next
  case False
  then show ?thesis by (intro read) (auto simp: s_post_read_locked_def)
qed

lemma s_pump_writes_cases:
  obtains (idle) "s_pump_writes_locked a (c, s) = (c, s)"
      "\<not> cl_shutting c \<Longrightarrow> (st_write_inflight s \<Longrightarrow> st_write_queue s \<noteq> []) \<Longrightarrow> writes_flow s"
  | (writing) m ms where "\<not> cl_shutting c" "st_started s" "\<not> st_broken s" "\<not> st_finish_posted s"
      "\<not> st_write_inflight s" "st_write_queue s = m # ms"
      "s_pump_writes_locked a (c, s) =
         (cl_post a T_WRITE (Op_Write m) c, s\<lparr>st_write_inflight := True, st_pending := st_pending s + 1\<rparr>)"
  | (wdone) "\<not> cl_shutting c" "st_started s" "\<not> st_broken s" "\<not> st_finish_posted s"
      "\<not> st_write_inflight s" "st_write_queue s = []" "st_wdone_requested s" "\<not> st_wdone_sent s"
      "\<not> st_wdone_inflight s"
      "s_pump_writes_locked a (c, s) =
         (cl_post a T_WDONE Op_WritesDone c, s\<lparr>st_wdone_inflight := True, st_pending := st_pending s + 1\<rparr>)"
proof -
  consider "cl_shutting c \<or> \<not> st_started s \<or> st_broken s \<or> st_finish_posted s"
    | "\<not> (cl_shutting c \<or> \<not> st_started s \<or> st_broken s \<or> st_finish_posted s)" "st_write_inflight s"
    | "\<not> (cl_shutting c \<or> \<not> st_started s \<or> st_broken s \<or> st_finish_posted s)" "\<not> st_write_inflight s"
    by blast
  then show thesis
  proof cases
    case 1
    then show ?thesis
      by (intro idle) (auto simp: s_pump_writes_locked_def writes_flow_def)
  next
    case 2
    then show ?thesis
      by (intro idle) (auto simp: s_pump_writes_locked_def writes_flow_def)
  next
    case 3
    show ?thesis
    proof (cases "st_write_queue s")
      case Nil
      show ?thesis
      proof (cases "st_wdone_requested s \<and> \<not> st_wdone_sent s \<and> \<not> st_wdone_inflight s")
        case True
        with 3 Nil show ?thesis by (intro wdone) (auto simp: s_pump_writes_locked_def)
      next
        case False
        with 3 Nil show ?thesis
          by (intro idle) (auto simp: s_pump_writes_locked_def writes_flow_def)
      qed
    next
      case (Cons m ms)
      with 3 show ?thesis
        by (intro writing [of m ms]) (auto simp: s_pump_writes_locked_def)
    qed
  qed
qed

lemma s_try_finish_cases:
  obtains (idle) "s_try_finish_locked a (c, s) = (c, s)" "\<not> cl_shutting c \<Longrightarrow> finish_flow s"
  | (finish) "\<not> cl_shutting c" "st_want_finish s" "\<not> st_finish_posted s" "\<not> st_read_inflight s"
      "\<not> st_write_inflight s" "\<not> st_wdone_inflight s" "st_started s"
      "s_try_finish_locked a (c, s) =
         (cl_post a T_FINISH Op_Finish c, s\<lparr>st_finish_posted := True, st_pending := st_pending s + 1\<rparr>)"
proof (cases "cl_shutting c \<or> \<not> st_want_finish s \<or> st_finish_posted s \<or>
    st_read_inflight s \<or> st_write_inflight s \<or> st_wdone_inflight s \<or> \<not> st_started s")
  case True
  then show ?thesis by (intro idle) (auto simp: s_try_finish_locked_def finish_flow_def)
next
  case False
  then show ?thesis by (intro finish) (auto simp: s_try_finish_locked_def)
qed

lemma s_post_read_core:
  assumes "stream_core a (c, s)" and "1 \<le> st_read_cap s \<longrightarrow> st_unread s < st_read_cap s"
  shows "stream_core a (s_post_read_locked a (c, s))"
proof (cases rule: s_post_read_cases [of a c s])
  case idle
  with assms show ?thesis by simp
next
  case read
  with assms show ?thesis by (clarsimp simp: stream_core_def stream_defs)
qed

lemma s_post_read_flow:
  "\<not> cl_shutting c \<Longrightarrow> reads_flow (snd (s_post_read_locked a (c, s)))"
  by (cases rule: s_post_read_cases [of a c s]) (simp_all add: reads_flow_def)

lemma s_post_read_writes_flow:
  "writes_flow s \<Longrightarrow> writes_flow (snd (s_post_read_locked a (c, s)))"
  by (cases rule: s_post_read_cases [of a c s]) (simp_all add: writes_flow_def)

lemma s_pump_writes_core:
  assumes "stream_core a (c, s)"
  shows "stream_core a (s_pump_writes_locked a (c, s))"
proof (cases rule: s_pump_writes_cases [of a c s])
  case idle
  with assms show ?thesis by simp
next
  case (writing m ms)
  with assms show ?thesis by (clarsimp simp: stream_core_def stream_defs)
next
  case wdone
  with assms show ?thesis by (clarsimp simp: stream_core_def stream_defs)
qed

lemma s_pump_writes_flow:
  assumes "\<not> cl_shutting c" and "stream_wf s"
  shows "writes_flow (snd (s_pump_writes_locked a (c, s)))"
  by (cases rule: s_pump_writes_cases [of a c s])
    (use assms in \<open>simp_all add: writes_flow_def stream_wf_def\<close>)

lemma s_pump_reads_flow: "reads_flow s \<Longrightarrow> reads_flow (snd (s_pump_writes_locked a (c, s)))"
  by (cases rule: s_pump_writes_cases [of a c s]) (simp_all add: reads_flow_def)

lemma s_try_finish_core:
  assumes "stream_core a (c, s)"
  shows "stream_core a (s_try_finish_locked a (c, s))"
proof (cases rule: s_try_finish_cases [of a c s])
  case idle
  with assms show ?thesis by simp
next
  case finish
  with assms show ?thesis by (clarsimp simp: stream_core_def stream_defs)
qed

lemma s_try_finish_live:
  assumes "cl_shutting c \<or> reads_flow s \<and> writes_flow s"
  shows "stream_live (cl_shutting c) (snd (s_try_finish_locked a (c, s)))"
  by (cases rule: s_try_finish_cases [of a c s])
    (use assms in \<open>auto simp: stream_live_def reads_flow_def writes_flow_def finish_flow_def\<close>)

lemma s_try_finish_ok:
  assumes "stream_core a (c, s)" and "cl_shutting c \<or> reads_flow s \<and> writes_flow s"
  shows "stream_ok a (s_try_finish_locked a (c, s))"
proof -
  have "cl_shutting (fst (s_try_finish_locked a (c, s))) = cl_shutting c"
    by (cases rule: s_try_finish_cases [of a c s]) simp_all
  with s_try_finish_core [OF assms(1)] s_try_finish_live [OF assms(2), of a] show ?thesis
    by (simp add: stream_ok_def split_beta)
qed

text \<open>The frame of the helpers.\<close>

lemma helpers_touch [simp]:
  "touches a i c (fst (s_post_read_locked a (c, s)))"
  "touches a i c (fst (s_pump_writes_locked a (c, s)))"
  "touches a i c (fst (s_try_finish_locked a (c, s)))"
    apply (cases rule: s_post_read_cases [of a c s]; simp add: touches_post)
   apply (cases rule: s_pump_writes_cases [of a c s]; simp add: touches_post)
  apply (cases rule: s_try_finish_cases [of a c s]; simp add: touches_post)
  done

lemma helpers_keep [simp]:
  "st_id (snd (s_post_read_locked a (c, s))) = st_id s"
  "st_id (snd (s_pump_writes_locked a (c, s))) = st_id s"
  "st_id (snd (s_try_finish_locked a (c, s))) = st_id s"
  "st_context (snd (s_post_read_locked a (c, s))) = st_context s"
  by (auto simp: s_post_read_locked_def s_pump_writes_locked_def s_try_finish_locked_def)

text \<open>The same facts for a pair that is not written out.\<close>

lemmas s_post_read_core_pair = s_post_read_core [of _ "fst p" "snd p" for p, unfolded prod.collapse]
lemmas s_pump_writes_core_pair = s_pump_writes_core [of _ "fst p" "snd p" for p, unfolded prod.collapse]
lemmas s_pump_writes_flow_pair = s_pump_writes_flow [of "fst p" "snd p" for p, unfolded prod.collapse]
lemmas s_pump_reads_flow_pair = s_pump_reads_flow [of "snd p" _ "fst p" for p, unfolded prod.collapse]
lemmas s_try_finish_ok_pair = s_try_finish_ok [of _ "fst p" "snd p" for p, unfolded prod.collapse]
lemmas helpers_touch_pair = helpers_touch [of _ _ "fst p" "snd p" for p, unfolded prod.collapse]
lemmas helpers_keep_pair [simp] = helpers_keep [of _ "fst p" "snd p" for p, unfolded prod.collapse]

lemma helpers_shutting [simp]:
  "cl_shutting (fst (s_post_read_locked a p)) = cl_shutting (fst p)"
  "cl_shutting (fst (s_pump_writes_locked a p)) = cl_shutting (fst p)"
  "cl_shutting (fst (s_try_finish_locked a p)) = cl_shutting (fst p)"
  by (rule touches_frame(6) [OF helpers_touch_pair(1)] touches_frame(6) [OF helpers_touch_pair(2)]
      touches_frame(6) [OF helpers_touch_pair(3)])+

lemma stream_core_wf: "stream_core a p \<Longrightarrow> stream_wf (snd p)"
  by (simp add: stream_core_def split_beta)

section \<open>The handlers, one tag at a time\<close>

text \<open>\<open>next_tag\<close> is the client after \<^verbatim>\<open>cq.Next\<close> has returned the tag, \<open>popped\<close> the object after
  \<^verbatim>\<open>--s->pending\<close>.\<close>

abbreviation next_tag :: "addr \<Rightarrow> tag_kind \<Rightarrow> client \<Rightarrow> client" where
  "next_tag a k c \<equiv> c\<lparr>cl_cq := remove1 (Ctag a k) (cl_cq c)\<rparr>"

abbreviation popped :: "stream_state \<Rightarrow> stream_state" where
  "popped s \<equiv> s\<lparr>st_pending := st_pending s - 1\<rparr>"

lemmas core_simps = stream_ok_def stream_core_def stream_defs

lemma outstanding_flags:
  assumes "stream_ok a (c, s)" and "0 < cnt c a k"
  shows "(case k of T_UNARY \<Rightarrow> False | T_START \<Rightarrow> \<not> st_started s | T_READ \<Rightarrow> st_read_inflight s
    | T_WRITE \<Rightarrow> st_write_inflight s | T_WDONE \<Rightarrow> st_wdone_inflight s
    | T_FINISH \<Rightarrow> st_finish_posted s) \<and> cnt c a k = 1"
  using assms by (cases k) (auto simp: stream_ok_def stream_core_def stream_tags_def)

lemma run_start_ok:
  assumes ok: "stream_ok a (c, s)" and n: "0 < cnt c a T_START"
  shows "stream_ok a (run_start a cp (next_tag a T_START c, popped s))"
proof (cases "cp_ok cp")
  case True
  let ?p0 = "(next_tag a T_START c, (popped s)\<lparr>st_started := True\<rparr>)"
  let ?p1 = "s_post_read_locked a ?p0"
  let ?p2 = "s_pump_writes_locked a ?p1"
  from outstanding_flags [OF ok n] have st: "\<not> st_started s" "cnt c a T_START = 1" by simp_all
  with ok have "stream_core a ?p0" "st_unread s = 0" by (clarsimp simp: core_simps)+
  then have p1: "stream_core a ?p1" by (intro s_post_read_core) simp_all
  then have p2: "stream_core a ?p2" by (rule s_pump_writes_core_pair)
  have "cl_shutting (fst ?p2) \<or> reads_flow (snd ?p2) \<and> writes_flow (snd ?p2)"
    using s_post_read_flow [of "fst ?p0" a "snd ?p0"] s_pump_writes_flow_pair [of ?p1 a]
      s_pump_reads_flow_pair [of ?p1 a] stream_core_wf [OF p1]
    by (cases "cl_shutting c") simp_all
  with p2 have "stream_ok a (s_try_finish_locked a ?p2)" by (rule s_try_finish_ok_pair)
  with True show ?thesis by (simp add: run_start_def Let_def)
next
  case False
  let ?s = "(popped s)\<lparr>st_broken := True, st_started := True, st_want_finish := True\<rparr>"
  from outstanding_flags [OF ok n] have st: "\<not> st_started s" "cnt c a T_START = 1" by simp_all
  with ok have "stream_core a (next_tag a T_START c, ?s)" by (clarsimp simp: core_simps)
  moreover have "reads_flow ?s" "writes_flow ?s" by (simp_all add: reads_flow_def writes_flow_def)
  ultimately have "stream_ok a (s_try_finish_locked a (next_tag a T_START c, ?s))"
    by (intro s_try_finish_ok) simp_all
  with False show ?thesis by (simp add: run_start_def Let_def)
qed

lemma run_read_ok:
  assumes ok: "stream_ok a (c, s)" and n: "0 < cnt c a T_READ"
  shows "stream_ok a (run_read a cp (next_tag a T_READ c, popped s))"
proof (cases "cp_ok cp \<and> \<not> st_broken s")
  case True
  let ?c = "cl_signal (cl_push_back (msg_event (st_id s) cp) (next_tag a T_READ c))"
  let ?s = "(popped s)\<lparr>st_read_inflight := False, st_unread := st_unread s + 1\<rparr>"
  let ?p = "if st_unread ?s < st_read_cap ?s then s_post_read_locked a (?c, ?s) else (?c, ?s)"
  from outstanding_flags [OF ok n] have st: "st_read_inflight s" "cnt c a T_READ = 1" by simp_all
  with ok have core: "stream_core a (?c, ?s)" by (clarsimp simp: core_simps)
  then have p: "stream_core a ?p" by (auto intro: s_post_read_core)
  have "cl_shutting c \<or> writes_flow ?s"
    using ok by (auto simp: stream_ok_def stream_live_def writes_flow_def)
  then have "cl_shutting (fst ?p) \<or> reads_flow (snd ?p) \<and> writes_flow (snd ?p)"
    using s_post_read_flow [of ?c a ?s] s_post_read_writes_flow [of ?s a ?c]
    by (auto simp: reads_flow_def)
  with p have "stream_ok a (s_try_finish_locked a ?p)" by (rule s_try_finish_ok_pair)
  with True show ?thesis
    by (simp add: run_read_def Let_def split: if_splits)
next
  case False
  let ?s = "(popped s)\<lparr>st_read_inflight := False, st_reads_closed := True, st_want_finish := True\<rparr>"
  from outstanding_flags [OF ok n] have st: "st_read_inflight s" "cnt c a T_READ = 1" by simp_all
  with ok have "stream_core a (next_tag a T_READ c, ?s)" by (clarsimp simp: core_simps)
  moreover have "cl_shutting c \<or> reads_flow ?s \<and> writes_flow ?s"
    using ok by (auto simp: stream_ok_def stream_live_def reads_flow_def writes_flow_def)
  ultimately have "stream_ok a (s_try_finish_locked a (next_tag a T_READ c, ?s))"
    by (intro s_try_finish_ok) simp_all
  with False show ?thesis by (auto simp: run_read_def Let_def)
qed

lemma run_write_ok:
  assumes ok: "stream_ok a (c, s)" and n: "0 < cnt c a T_WRITE"
  shows "\<exists>p. run_write a cp (next_tag a T_WRITE c, popped s) = Inr p \<and> stream_ok a p"
proof (cases "cp_ok cp \<and> \<not> st_broken s")
  case True
  from outstanding_flags [OF ok n] have st: "st_write_inflight s" "cnt c a T_WRITE = 1" by simp_all
  with ok obtain m q where q: "st_write_queue s = m # q"
    by (cases "st_write_queue s") (auto simp: stream_ok_def stream_core_def stream_wf_def)
  let ?c = "if q = [] then cl_signal (cl_push_back (writable_event (st_id s)) (next_tag a T_WRITE c)) else next_tag a T_WRITE c"
  let ?s = "(popped s)\<lparr>st_write_inflight := False, st_write_queue := q\<rparr>"
  from ok st q have core: "stream_core a (?c, ?s)" by (clarsimp simp: core_simps)
  then have p: "stream_core a (s_pump_writes_locked a (?c, ?s))" by (rule s_pump_writes_core)
  have "cl_shutting c \<or> reads_flow ?s"
    using ok by (auto simp: stream_ok_def stream_live_def reads_flow_def)
  then have "cl_shutting (fst (s_pump_writes_locked a (?c, ?s))) \<or>
      reads_flow (snd (s_pump_writes_locked a (?c, ?s))) \<and> writes_flow (snd (s_pump_writes_locked a (?c, ?s)))"
    using s_pump_reads_flow [of ?s a ?c] s_pump_writes_flow [of ?c ?s a] stream_core_wf [OF core]
    by auto
  with p have "stream_ok a (s_try_finish_locked a (s_pump_writes_locked a (?c, ?s)))"
    by (rule s_try_finish_ok_pair)
  with True q show ?thesis
    by (simp add: run_write_def Let_def split: if_splits)
next
  case False
  let ?s = "(popped s)\<lparr>st_write_inflight := False, st_broken := True, st_want_finish := True\<rparr>"
  from outstanding_flags [OF ok n] have st: "st_write_inflight s" "cnt c a T_WRITE = 1" by simp_all
  with ok have "stream_core a (next_tag a T_WRITE c, ?s)" by (clarsimp simp: core_simps)
  then have "stream_ok a (s_try_finish_locked a (next_tag a T_WRITE c, ?s))"
    by (intro s_try_finish_ok) (simp_all add: reads_flow_def writes_flow_def)
  with False show ?thesis
    by (cases "cp_ok cp") (simp_all add: run_write_def Let_def del: split_paired_Ex)
qed

lemma run_wdone_ok:
  assumes ok: "stream_ok a (c, s)" and n: "0 < cnt c a T_WDONE"
  shows "stream_ok a (run_wdone a cp (next_tag a T_WDONE c, popped s))"
proof -
  let ?s0 = "(popped s)\<lparr>st_wdone_inflight := False, st_wdone_sent := True\<rparr>"
  let ?s = "if \<not> cp_ok cp then ?s0\<lparr>st_broken := True, st_want_finish := True\<rparr> else ?s0"
  from outstanding_flags [OF ok n] have st: "st_wdone_inflight s" "cnt c a T_WDONE = 1" by simp_all
  with ok have "stream_core a (next_tag a T_WDONE c, ?s)" by (clarsimp simp: core_simps)
  moreover have "cl_shutting c \<or> reads_flow ?s \<and> writes_flow ?s"
    using ok by (auto simp: stream_ok_def stream_live_def reads_flow_def writes_flow_def)
  ultimately have "stream_ok a (s_try_finish_locked a (next_tag a T_WDONE c, ?s))"
    by (intro s_try_finish_ok) simp_all
  then show ?thesis by (simp add: run_wdone_def Let_def)
qed

text \<open>The status event is the last thing a stream does: nothing else is outstanding then.\<close>

lemma run_finish_frees:
  assumes ok: "stream_ok a (c, s)" and n: "0 < cnt c a T_FINISH"
  shows "st_pending (snd (run_finish cp (next_tag a T_FINISH c, popped s))) = 0"
    and "st_status_emitted (snd (run_finish cp (next_tag a T_FINISH c, popped s)))"
    and "cnt (fst (run_finish cp (next_tag a T_FINISH c, popped s))) a k = 0"
proof -
  from outstanding_flags [OF ok n] have st: "st_finish_posted s" "cnt c a T_FINISH = 1" by simp_all
  with ok have z: "cnt c a T_UNARY = 0" "cnt c a T_START = 0" "cnt c a T_READ = 0"
      "cnt c a T_WRITE = 0" "cnt c a T_WDONE = 0" "st_pending s = 1"
    by (clarsimp simp: stream_ok_def stream_core_def stream_tags_def stream_wf_def)+
  from z show "st_pending (snd (run_finish cp (next_tag a T_FINISH c, popped s))) = 0"
    by (simp add: run_finish_def Let_def)
  show "st_status_emitted (snd (run_finish cp (next_tag a T_FINISH c, popped s)))"
    by (simp add: run_finish_def Let_def)
  from z st show "cnt (fst (run_finish cp (next_tag a T_FINISH c, popped s))) a k = 0"
    by (cases k) (simp_all add: run_finish_def Let_def)
qed

text \<open>What every handler touches.\<close>

lemma try_finish_touches: "touches a i c (fst p) \<Longrightarrow> touches a i c (fst (s_try_finish_locked a p))"
  using helpers_touch_pair(3) touches_trans by blast

lemma pump_touches: "touches a i c (fst p) \<Longrightarrow> touches a i c (fst (s_pump_writes_locked a p))"
  using helpers_touch_pair(2) touches_trans by blast

lemma post_read_touches: "touches a i c (fst p) \<Longrightarrow> touches a i c (fst (s_post_read_locked a p))"
  using helpers_touch_pair(1) touches_trans by blast

lemmas helper_touches = try_finish_touches pump_touches post_read_touches

lemma dispatch_frame:
  assumes "cl_dispatch a k cp (c, s) = Inr p"
  shows "touches a (st_id s) c (fst p) \<and> st_id (snd p) = st_id s"
proof (cases k)
  case T_WRITE
  with assms show ?thesis
    by (auto simp: cl_dispatch_def run_write_def Let_def split: if_splits list.splits
        intro!: helper_touches touches_push)
next
  case T_READ
  with assms show ?thesis
    by (auto simp: cl_dispatch_def run_read_def Let_def split_beta split: if_splits
        intro!: helper_touches touches_push)
next
  case T_START
  with assms show ?thesis
    by (auto simp: cl_dispatch_def run_start_def Let_def intro!: helper_touches)
next
  case T_WDONE
  with assms show ?thesis
    by (auto simp: cl_dispatch_def run_wdone_def Let_def intro!: helper_touches)
next
  case T_FINISH
  with assms show ?thesis
    by (auto simp: cl_dispatch_def run_finish_def Let_def intro!: touches_push)
next
  case T_UNARY
  with assms show ?thesis by (auto simp: cl_dispatch_def)
qed

text \<open>All handlers together: on an outstanding tag they do not fault and leave a good object.\<close>

lemma dispatch_ok:
  assumes ok: "stream_ok a (c, s)" and n: "0 < cnt c a k"
  obtains p where "cl_dispatch a k cp (next_tag a k c, popped s) = Inr p"
    and "k \<noteq> T_FINISH \<Longrightarrow> stream_ok a p"
    and "k = T_FINISH \<Longrightarrow> st_pending (snd p) = 0 \<and> st_status_emitted (snd p) \<and> (\<forall>j. cnt (fst p) a j = 0)"
proof (cases k)
  case T_UNARY
  with outstanding_flags [OF ok n] show ?thesis by simp
next
  case T_START
  with run_start_ok [OF ok] n show ?thesis by (intro that) (auto simp: cl_dispatch_def)
next
  case T_READ
  with run_read_ok [OF ok] n show ?thesis by (intro that) (auto simp: cl_dispatch_def)
next
  case T_WRITE
  with n have "0 < cnt c a T_WRITE" by simp
  from run_write_ok [OF ok this, of cp] obtain p
    where "run_write a cp (next_tag a T_WRITE c, popped s) = Inr p" "stream_ok a p" by blast
  with T_WRITE show ?thesis by (intro that [of p]) (auto simp: cl_dispatch_def)
next
  case T_WDONE
  with run_wdone_ok [OF ok] n show ?thesis by (intro that) (auto simp: cl_dispatch_def)
next
  case T_FINISH
  with run_finish_frees [OF ok] n show ?thesis by (intro that) (auto simp: cl_dispatch_def)
qed

end
