(* ===== verification/Client_Safety.thy ===== *)
theory Client_Safety
  imports Client_Inv
begin

text \<open>
  The invariant of the whole client (maps, object stores, ids, log and wake handle), that every
  atomic section of \<^verbatim>\<open>src/client.cpp\<close> keeps it and runs without a fault, and what follows for
  every interleaving of the R thread with the completion thread.
\<close>

section \<open>The whole client\<close>

text \<open>Maps, stores and outstanding tags agree: no pointer dangles and nothing is leaked.\<close>

definition heap_ok :: "client \<Rightarrow> bool" where
  "heap_ok c \<longleftrightarrow>
     m_ok (cl_calls c) \<and> m_ok (cl_streams c) \<and>
     (\<forall>i a. m_find (cl_calls c) i = Some a \<longleftrightarrow> (\<exists>cs. cl_call_heap c a = Some cs \<and> cs_id cs = i)) \<and>
     (\<forall>i a. m_find (cl_streams c) i = Some a \<longleftrightarrow> (\<exists>s. cl_stream_heap c a = Some s \<and> st_id s = i)) \<and>
     (\<forall>a cs. cl_call_heap c a = Some cs \<longrightarrow> a < cl_next_addr c \<and>
        (\<forall>k. cnt c a k = of_bool (k = T_UNARY))) \<and>
     (\<forall>a s. cl_stream_heap c a = Some s \<longrightarrow> a < cl_next_addr c \<and> stream_ok a (c, s)) \<and>
     (\<forall>a k. cl_call_heap c a = None \<and> cl_stream_heap c a = None \<longrightarrow> cnt c a k = 0)"

text \<open>Ids in use are below \<open>next_id\<close>, which has been incremented at most \<open>n\<close> times.\<close>

definition ids_ok :: "nat \<Rightarrow> client \<Rightarrow> bool" where
  "ids_ok n c \<longleftrightarrow>
     1 \<le> unat (cl_next_id c) \<and> unat (cl_next_id c) \<le> n + 1 \<and>
     (\<forall>a cs. cl_call_heap c a = Some cs \<longrightarrow> unat (cs_id cs) < unat (cl_next_id c)) \<and>
     (\<forall>a s. cl_stream_heap c a = Some s \<longrightarrow> unat (st_id s) < unat (cl_next_id c)) \<and>
     (\<forall>a cs b s. cl_call_heap c a = Some cs \<longrightarrow> cl_stream_heap c b = Some s \<longrightarrow> cs_id cs \<noteq> st_id s) \<and>
     (\<forall>e \<in> set (cl_ready c). unat (ev_id e) < unat (cl_next_id c))"

text \<open>No operation was ever started on a completion queue that had been shut down.\<close>

definition log_ok :: "client \<Rightarrow> bool" where
  "log_ok c \<longleftrightarrow>
     (cl_cq_shut c \<longrightarrow> cl_shutting c) \<and> (cl_shutting c \<longrightarrow> cl_closed c) \<and>
     True \<notin> set (log_flags (cl_log c))"

definition cl_inv :: "nat \<Rightarrow> client \<Rightarrow> bool" where
  "cl_inv n c \<longleftrightarrow> heap_ok c \<and> ids_ok n c \<and> log_ok c \<and> wake_ok (cl_wake c)"

lemma stream_ok_cong:
  assumes "\<And>k. cnt c' a k = cnt c a k" and "smsgs c' (st_id s) = smsgs c (st_id s)"
    and "cl_shutting c' = cl_shutting c"
  shows "stream_ok a (c', s) = stream_ok a (c, s)"
  using assms by (simp add: stream_ok_def stream_core_def stream_tags_def)

lemma heap_okI:
  assumes "m_ok (cl_calls c)" and "m_ok (cl_streams c)"
    and "\<And>i a. m_find (cl_calls c) i = Some a \<longleftrightarrow> (\<exists>cs. cl_call_heap c a = Some cs \<and> cs_id cs = i)"
    and "\<And>i a. m_find (cl_streams c) i = Some a \<longleftrightarrow> (\<exists>s. cl_stream_heap c a = Some s \<and> st_id s = i)"
    and "\<And>a cs. cl_call_heap c a = Some cs \<Longrightarrow> a < cl_next_addr c"
    and "\<And>a cs k. cl_call_heap c a = Some cs \<Longrightarrow> cnt c a k = of_bool (k = T_UNARY)"
    and "\<And>a s. cl_stream_heap c a = Some s \<Longrightarrow> a < cl_next_addr c"
    and "\<And>a s. cl_stream_heap c a = Some s \<Longrightarrow> stream_ok a (c, s)"
    and "\<And>a k. cl_call_heap c a = None \<Longrightarrow> cl_stream_heap c a = None \<Longrightarrow> cnt c a k = 0"
  shows "heap_ok c"
  unfolding heap_ok_def using assms by blast

lemma heap_okD:
  assumes "heap_ok c"
  shows "m_ok (cl_calls c)" and "m_ok (cl_streams c)"
    and "m_find (cl_calls c) i = Some a \<longleftrightarrow> (\<exists>cs. cl_call_heap c a = Some cs \<and> cs_id cs = i)"
    and "m_find (cl_streams c) i = Some a \<longleftrightarrow> (\<exists>s. cl_stream_heap c a = Some s \<and> st_id s = i)"
    and "cl_call_heap c a = Some cs \<Longrightarrow> a < cl_next_addr c"
    and "cl_call_heap c a = Some cs \<Longrightarrow> cnt c a k = of_bool (k = T_UNARY)"
    and "cl_stream_heap c a = Some s \<Longrightarrow> a < cl_next_addr c"
    and "cl_stream_heap c a = Some s \<Longrightarrow> stream_ok a (c, s)"
    and "cl_call_heap c a = None \<Longrightarrow> cl_stream_heap c a = None \<Longrightarrow> cnt c a k = 0"
  using assms unfolding heap_ok_def by blast+

lemma heap_ok_stream_unique:
  assumes "heap_ok c" and "cl_stream_heap c a = Some s" and "cl_stream_heap c b = Some s'"
    and "st_id s = st_id s'"
  shows "a = b"
proof -
  from assms have "m_find (cl_streams c) (st_id s) = Some a" "m_find (cl_streams c) (st_id s) = Some b"
    unfolding heap_ok_def by (metis (no_types))+
  then show ?thesis by simp
qed

lemma stream_ok_no_unary: "stream_ok a (c, s) \<Longrightarrow> cnt c a T_UNARY = 0"
  by (simp add: stream_ok_def stream_core_def stream_tags_def)

lemma heap_ok_disjoint:
  assumes "heap_ok c" and "cl_stream_heap c a = Some s"
  shows "cl_call_heap c a = None"
proof (rule ccontr)
  assume "cl_call_heap c a \<noteq> None"
  then obtain cs where "cl_call_heap c a = Some cs" by auto
  with assms(1) have "cnt c a T_UNARY = 1" by (auto simp: heap_ok_def)
  moreover have "cnt c a T_UNARY = 0"
    by (rule stream_ok_no_unary [OF heap_okD(8) [OF assms]])
  ultimately show False by simp
qed

text \<open>Storing back a stream object after a section that touched only it.\<close>

lemma heap_ok_store:
  assumes hp: "heap_ok c" and s: "cl_stream_heap c a = Some s"
    and c0: "c0 = c\<lparr>cl_cq := q, cl_ready := r\<rparr>" and q: "\<And>b k. b \<noteq> a \<Longrightarrow> cnt c0 b k = cnt c b k"
    and sm0: "\<And>j. j \<noteq> st_id s \<Longrightarrow> smsgs c0 j = smsgs c j"
    and t: "touches a (st_id s) c0 c1" and ok: "stream_ok a (c1, s1)" and i: "st_id s1 = st_id s"
  shows "heap_ok (c1\<lparr>cl_stream_heap := (cl_stream_heap c1)(a \<mapsto> s1)\<rparr>)"
proof -
  note fr = touches_frame [OF t] c0
  let ?c = "c1\<lparr>cl_stream_heap := (cl_stream_heap c1)(a \<mapsto> s1)\<rparr>"
  have cnt: "cnt ?c b k = cnt c b k" if "b \<noteq> a" for b k
    using q [OF that] touches_cnt [OF t that] by (simp add: cnt_def)
  have sm: "smsgs ?c j = smsgs c j" if "j \<noteq> st_id s" for j
    using touches_smsgs [OF t that] sm0 [OF that] by (simp add: smsgs_def)
  have other: "stream_ok b (?c, s')" if "b \<noteq> a" "cl_stream_heap c b = Some s'" for b s'
  proof -
    have "st_id s' \<noteq> st_id s" using heap_ok_stream_unique [OF hp s that(2)] that(1) by metis
    then have "stream_ok b (?c, s') = stream_ok b (c, s')"
      by (intro stream_ok_cong cnt sm that) (simp_all add: fr)
    with hp that show ?thesis by (simp add: heap_ok_def)
  qed
  have this': "stream_ok a (?c, s1)"
    using ok by (subst stream_ok_cong [where c = c1]) (simp_all add: cnt_def smsgs_def)
  have na: "cl_call_heap c a = None" using hp s by (rule heap_ok_disjoint)
  show ?thesis
  proof (rule heap_okI)
    fix j b
    show "m_find (cl_streams ?c) j = Some b \<longleftrightarrow> (\<exists>s. cl_stream_heap ?c b = Some s \<and> st_id s = j)"
      using s i by (cases "b = a") (auto simp: fr heap_okD(4) [OF hp])
  next
    fix b s'
    assume "cl_stream_heap ?c b = Some s'"
    with other this' show "stream_ok b (?c, s')" by (cases "b = a") (auto simp: fr)
  next
    fix b s'
    assume "cl_stream_heap ?c b = Some s'"
    then show "b < cl_next_addr ?c"
      using heap_okD(7) [OF hp] s by (cases "b = a") (auto simp: fr)
  next
    fix b cs k
    assume "cl_call_heap ?c b = Some cs"
    then have "b \<noteq> a" "cl_call_heap c b = Some cs" using na by (auto simp: fr)
    then show "cnt ?c b k = of_bool (k = T_UNARY)" by (subst cnt) (auto simp: heap_okD(6) [OF hp])
  next
    fix b k
    assume "cl_call_heap ?c b = None" and "cl_stream_heap ?c b = None"
    then have "b \<noteq> a" "cl_call_heap c b = None" "cl_stream_heap c b = None"
      by (auto simp: fr split: if_splits)
    then show "cnt ?c b k = 0" by (subst cnt) (auto intro: heap_okD(9) [OF hp])
  qed (use heap_okD(1-3,5) [OF hp] in \<open>auto simp: fr\<close>)
qed

text \<open>\<^const>\<open>heap_ok\<close> reads only some fields.\<close>

lemma heap_ok_cong:
  assumes "cl_calls c' = cl_calls c" "cl_streams c' = cl_streams c"
    "cl_call_heap c' = cl_call_heap c" "cl_stream_heap c' = cl_stream_heap c"
    "cl_next_addr c' = cl_next_addr c" "cl_cq c' = cl_cq c" "cl_shutting c' = cl_shutting c"
    and "\<And>a s. cl_stream_heap c a = Some s \<Longrightarrow> smsgs c' (st_id s) = smsgs c (st_id s)"
  shows "heap_ok c' \<longleftrightarrow> heap_ok c"
proof -
  have cnt: "cnt c' = cnt c" using assms(6) by (intro ext) (simp add: cnt_def)
  have "stream_ok a (c', s) = stream_ok a (c, s)" if "cl_stream_heap c a = Some s" for a s
    using assms(7,8) that by (intro stream_ok_cong) (simp_all add: cnt)
  then show ?thesis by (auto simp: heap_ok_def assms(1-5) cnt)
qed

text \<open>Retiring a unary call: its only tag has been returned, the object is erased and deleted.\<close>

lemma heap_ok_unary:
  assumes hp: "heap_ok c" and cs: "cl_call_heap c a = Some cs"
  shows "heap_ok (c\<lparr>cl_cq := remove1 (Ctag a T_UNARY) (cl_cq c),
     cl_calls := m_erase (cs_id cs) (cl_calls c), cl_call_heap := (cl_call_heap c)(a := None)\<rparr>)"
    (is "heap_ok ?c")
proof -
  from heap_ok_disjoint [OF hp] cs have na: "cl_stream_heap c a = None"
    by (cases "cl_stream_heap c a") auto
  have cnt: "cnt ?c b k = (if b = a then 0 else cnt c b k)" for b k
    using heap_okD(6) [OF hp cs] by (auto simp: cnt_def)
  have uniq: "b = a" if "cl_call_heap c b = Some cs'" "cs_id cs' = cs_id cs" for b cs'
    using heap_okD(3) [OF hp, of "cs_id cs" a] heap_okD(3) [OF hp, of "cs_id cs" b] cs that by auto
  show ?thesis
  proof (rule heap_okI)
    fix i b
    show "m_find (cl_calls ?c) i = Some b \<longleftrightarrow> (\<exists>cs. cl_call_heap ?c b = Some cs \<and> cs_id cs = i)"
    proof (cases "b = a")
      case True
      with cs show ?thesis by (simp add: heap_okD(3) [OF hp])
    next
      case False
      with uniq [of b] show ?thesis by (auto simp: heap_okD(3) [OF hp])
    qed
  next
    fix b s
    assume b: "cl_stream_heap ?c b = Some s"
    with na have "b \<noteq> a" by auto
    moreover from b have "stream_ok b (c, s)" by (simp add: heap_okD(8) [OF hp])
    ultimately show "stream_ok b (?c, s)"
      by (subst stream_ok_cong [where c = c]) (simp_all only: cnt, simp_all add: smsgs_def)
  next
    fix b k
    assume "cl_call_heap ?c b = None" "cl_stream_heap ?c b = None"
    then show "cnt ?c b k = 0"
      using heap_okD(9) [OF hp, of b k] by (simp only: cnt) (auto split: if_splits)
  next
    fix b cs' k
    assume "cl_call_heap ?c b = Some cs'"
    then show "cnt ?c b k = of_bool (k = T_UNARY)"
      using heap_okD(6) [OF hp, of b cs' k] by (simp only: cnt) (auto split: if_splits)
  next
    fix b cs'
    assume "cl_call_heap ?c b = Some cs'"
    then show "b < cl_next_addr ?c" using heap_okD(5) [OF hp, of b cs'] by (simp split: if_splits)
  next
    fix b s'
    assume "cl_stream_heap ?c b = Some s'"
    then show "b < cl_next_addr ?c" using heap_okD(7) [OF hp, of b s'] by simp
  qed (simp_all add: heap_okD(1,2,4) [OF hp])
qed

text \<open>Freeing a stream object that has no outstanding tag.\<close>

lemma heap_ok_free:
  assumes hp: "heap_ok c" and s: "cl_stream_heap c a = Some s"
    and c0: "c0 = c\<lparr>cl_cq := q\<rparr>" and q: "\<And>b k. b \<noteq> a \<Longrightarrow> cnt c0 b k = cnt c b k"
    and t: "touches a (st_id s) c0 c1" and z: "\<And>k. cnt c1 a k = 0"
  shows "heap_ok (c1\<lparr>cl_streams := m_erase (st_id s) (cl_streams c1),
     cl_stream_heap := (cl_stream_heap c1)(a := None)\<rparr>)" (is "heap_ok ?c")
proof -
  note fr = touches_frame [OF t] c0
  have cnt: "cnt ?c b k = (if b = a then 0 else cnt c b k)" for b k
    using z [of k] q [of b k] touches_cnt [OF t, of b k] by (simp add: cnt_def)
  have sm: "smsgs ?c j = smsgs c j" if "j \<noteq> st_id s" for j
    using touches_smsgs [OF t that] by (simp add: smsgs_def c0)
  have na: "cl_call_heap c a = None" using hp s by (rule heap_ok_disjoint)
  show ?thesis
  proof (rule heap_okI)
    fix i b
    show "m_find (cl_streams ?c) i = Some b \<longleftrightarrow> (\<exists>s. cl_stream_heap ?c b = Some s \<and> st_id s = i)"
    proof (cases "b = a")
      case True
      with s show ?thesis by (simp add: fr heap_okD(4) [OF hp])
    next
      case False
      with heap_ok_stream_unique [OF hp s, of b] show ?thesis
        by (auto simp: fr heap_okD(4) [OF hp])
    qed
  next
    fix b s'
    assume "cl_stream_heap ?c b = Some s'"
    then have b: "b \<noteq> a" "cl_stream_heap c b = Some s'" by (auto simp: fr split: if_splits)
    then have "st_id s' \<noteq> st_id s" using heap_ok_stream_unique [OF hp s b(2)] by metis
    moreover from b have "stream_ok b (c, s')" by (simp add: heap_okD(8) [OF hp])
    moreover have "stream_ok b (?c, s') = stream_ok b (c, s')"
      using b(1) \<open>st_id s' \<noteq> st_id s\<close>
      by (intro stream_ok_cong sm) (simp_all only: cnt if_False, simp_all add: fr)
    ultimately show "stream_ok b (?c, s')" by simp
  next
    fix b k
    assume "cl_call_heap ?c b = None" "cl_stream_heap ?c b = None"
    then show "cnt ?c b k = 0"
      using heap_okD(9) [OF hp, of b k] by (simp only: cnt) (auto simp: fr split: if_splits)
  next
    fix b cs k
    assume "cl_call_heap ?c b = Some cs"
    then show "cnt ?c b k = of_bool (k = T_UNARY)"
      using heap_okD(6) [OF hp, of b cs k] na by (simp only: cnt) (auto simp: fr split: if_splits)
  next
    fix b cs'
    assume "cl_call_heap ?c b = Some cs'"
    then show "b < cl_next_addr ?c" using heap_okD(5) [OF hp, of b cs'] by (simp add: fr)
  next
    fix b s'
    assume "cl_stream_heap ?c b = Some s'"
    then show "b < cl_next_addr ?c"
      using heap_okD(7) [OF hp, of b s'] by (simp add: fr split: if_splits)
  qed (simp_all add: fr heap_okD(1-3) [OF hp])
qed

section \<open>The completion thread keeps the invariant\<close>

text \<open>
  A handled completion only appends events, one signal each; it changes no id counter and no
  shutdown flag.
\<close>

definition advances :: "client \<Rightarrow> client \<Rightarrow> bool" where
  "advances c c' \<longleftrightarrow>
     (\<exists>evs. cl_ready c' = cl_ready c @ evs \<and> cl_wake c' = (wake_signal ^^ length evs) (cl_wake c)) \<and>
     cl_next_id c' = cl_next_id c \<and> cl_closed c' = cl_closed c \<and> cl_shutting c' = cl_shutting c \<and>
     cl_cq_shut c' = cl_cq_shut c"

lemma touches_advances: "touches a i c c' \<Longrightarrow> advances c c'"
  unfolding touches_def advances_def by auto

lemma ids_ok_step:
  assumes "ids_ok n c" and "advances c c'"
    and "\<And>a cs. cl_call_heap c' a = Some cs \<Longrightarrow> \<exists>cs'. cl_call_heap c a = Some cs' \<and> cs_id cs' = cs_id cs"
    and "\<And>a s. cl_stream_heap c' a = Some s \<Longrightarrow> \<exists>s'. cl_stream_heap c a = Some s' \<and> st_id s' = st_id s"
    and "\<And>e. e \<in> set (cl_ready c') \<Longrightarrow> e \<in> set (cl_ready c) \<or> unat (ev_id e) < unat (cl_next_id c)"
  shows "ids_ok n c'"
proof -
  have nid: "cl_next_id c' = cl_next_id c" using assms(2) by (simp add: advances_def)
  from assms(1) have old:
    "\<And>a cs. cl_call_heap c a = Some cs \<Longrightarrow> unat (cs_id cs) < unat (cl_next_id c)"
    "\<And>a s. cl_stream_heap c a = Some s \<Longrightarrow> unat (st_id s) < unat (cl_next_id c)"
    "\<And>a cs b s. cl_call_heap c a = Some cs \<Longrightarrow> cl_stream_heap c b = Some s \<Longrightarrow> cs_id cs \<noteq> st_id s"
    "\<And>e. e \<in> set (cl_ready c) \<Longrightarrow> unat (ev_id e) < unat (cl_next_id c)"
    unfolding ids_ok_def by blast+
  show ?thesis
    unfolding ids_ok_def nid
  proof (intro conjI allI ballI impI)
    show "1 \<le> unat (cl_next_id c)" "unat (cl_next_id c) \<le> n + 1"
      using assms(1) by (simp_all add: ids_ok_def)
    fix a cs assume c: "cl_call_heap c' a = Some cs"
    from assms(3) [OF this] old(1) show "unat (cs_id cs) < unat (cl_next_id c)" by metis
    fix b s assume "cl_stream_heap c' b = Some s"
    from assms(4) [OF this] old(3) assms(3) [OF c] show "cs_id cs \<noteq> st_id s" by metis
  next
    fix a s assume "cl_stream_heap c' a = Some s"
    from assms(4) [OF this] old(2) show "unat (st_id s) < unat (cl_next_id c)" by metis
  next
    fix e assume "e \<in> set (cl_ready c')"
    from assms(5) [OF this] old(4) show "unat (ev_id e) < unat (cl_next_id c)" by blast
  qed
qed

lemma touches_log: "touches a i c c' \<Longrightarrow> log_ok c \<Longrightarrow> log_ok c'"
  unfolding touches_def log_ok_def by auto

lemma touches_events: "touches a i c c' \<Longrightarrow> e \<in> set (cl_ready c') \<Longrightarrow> e \<in> set (cl_ready c) \<or> ev_id e = i"
  by (auto simp: touches_def)

lemma wake_ok_signals: "wake_ok h \<Longrightarrow> wake_ok ((wake_signal ^^ n) h)"
  by (rule upipe.ok_signals)

lemma cl_handle_unary_inv:
  assumes inv: "cl_inv n c" and t: "Ctag a T_UNARY \<in> set (cl_cq c)"
  shows "\<exists>c'. cl_handle (Ctag a T_UNARY, cp) c = Inr c' \<and> cl_inv n c' \<and> advances c c'"
proof -
  from inv have hp: "heap_ok c" and ids: "ids_ok n c" and lg: "log_ok c" and wk: "wake_ok (cl_wake c)"
    by (simp_all add: cl_inv_def)
  from t have n: "0 < cnt c a T_UNARY" by (simp add: cnt_def count_list_pos_iff)
  have "cl_call_heap c a \<noteq> None"
  proof
    assume none: "cl_call_heap c a = None"
    show False
    proof (cases "cl_stream_heap c a")
      case None
      with none n heap_okD(9) [OF hp] show ?thesis by simp
    next
      case (Some s)
      from stream_ok_no_unary [OF heap_okD(8) [OF hp this]] n show ?thesis by simp
    qed
  qed
  then obtain cs where cs: "cl_call_heap c a = Some cs" by auto
  let ?c0 = "next_tag a T_UNARY c"
  let ?c1 = "?c0\<lparr>cl_calls := m_erase (cs_id cs) (cl_calls c), cl_call_heap := (cl_call_heap c)(a := None)\<rparr>"
  let ?ev = "unary_event (cs_id cs) cp"
  let ?c' = "cl_signal (cl_push_back ?ev ?c1)"
  have r: "run_unary a cp ?c0 = Inr ?c'"
    using cs by (simp add: run_unary_def Let_def cl_push_back_def cl_signal_def)
  have "heap_ok ?c' \<longleftrightarrow> heap_ok ?c1"
    by (intro heap_ok_cong) (simp_all add: cl_signal_def cl_push_back_def smsgs_def)
  then have 1: "heap_ok ?c'" using heap_ok_unary [OF hp cs] by simp
  have adv: "advances c ?c'"
    unfolding advances_def
    by (intro conjI exI [of _ "[?ev]"]) (simp_all add: cl_signal_def cl_push_back_def)
  have idcs: "unat (cs_id cs) < unat (cl_next_id c)" using ids cs by (auto simp: ids_ok_def)
  have 2: "ids_ok n ?c'"
    by (rule ids_ok_step [OF ids adv])
      (use idcs in \<open>auto simp: cl_signal_def cl_push_back_def split: if_splits\<close>)
  have 3: "log_ok ?c'" using lg by (simp add: log_ok_def cl_signal_def cl_push_back_def)
  have 4: "wake_ok (cl_wake ?c')" using wk by (simp add: cl_signal_def cl_push_back_def upipe.ok_signal)
  from 1 2 3 4 r adv show ?thesis by (simp add: cl_handle_def cl_inv_def)
qed

lemma cl_handle_stream_inv:
  assumes inv: "cl_inv n c" and t: "Ctag a k \<in> set (cl_cq c)" and k: "k \<noteq> T_UNARY"
  shows "\<exists>c'. cl_handle (Ctag a k, cp) c = Inr c' \<and> cl_inv n c' \<and> advances c c'"
proof -
  from inv have hp: "heap_ok c" and ids: "ids_ok n c" and lg: "log_ok c" and wk: "wake_ok (cl_wake c)"
    by (simp_all add: cl_inv_def)
  from t have n: "0 < cnt c a k" by (simp add: cnt_def count_list_pos_iff)
  have "cl_stream_heap c a \<noteq> None"
    using n k heap_okD(9) [OF hp, of a k] heap_okD(6) [OF hp, of a _ k]
    by (cases "cl_call_heap c a") auto
  then obtain s where s: "cl_stream_heap c a = Some s" by auto
  let ?c0 = "next_tag a k c"
  from dispatch_ok [OF heap_okD(8) [OF hp s] n, of cp] obtain p
    where d: "cl_dispatch a k cp (?c0, popped s) = Inr p"
      and good: "k \<noteq> T_FINISH \<Longrightarrow> stream_ok a p"
      and fin: "k = T_FINISH \<Longrightarrow> st_pending (snd p) = 0 \<and> st_status_emitted (snd p) \<and> (\<forall>j. cnt (fst p) a j = 0)"
    by blast
  from dispatch_frame [OF d] have fr: "touches a (st_id s) ?c0 (fst p)" and i: "st_id (snd p) = st_id s"
    by simp_all
  let ?c' = "s_maybe_free_locked a p"
  have r: "cl_handle (Ctag a k, cp) c = Inr ?c'"
    using k s d by (simp add: cl_handle_def Let_def)
  have q: "\<And>b j. b \<noteq> a \<Longrightarrow> cnt ?c0 b j = cnt c b j" by simp
  have 1: "heap_ok ?c'"
  proof (cases "k = T_FINISH")
    case True
    from fin [OF True] heap_ok_free [OF hp s refl q fr] show ?thesis
      by (simp add: s_maybe_free_locked_def split_beta i)
  next
    case False
    from good [OF False] have ok: "stream_ok a (fst p, snd p)" by simp
    then have "\<not> st_status_emitted (snd p)"
      by (simp add: stream_ok_def stream_core_def stream_wf_def split_beta)
    have "?c0 = c\<lparr>cl_cq := remove1 (Ctag a k) (cl_cq c), cl_ready := cl_ready c\<rparr>" by simp
    from heap_ok_store [OF hp s this q _ fr ok i] \<open>\<not> st_status_emitted (snd p)\<close> show ?thesis
      by (simp add: s_maybe_free_locked_def split_beta)
  qed
  note fr' = touches_frame [OF fr]
  have eq: "cl_ready ?c' = cl_ready (fst p)" "cl_wake ?c' = cl_wake (fst p)" "cl_log ?c' = cl_log (fst p)"
    "cl_next_id ?c' = cl_next_id c" "cl_closed ?c' = cl_closed c" "cl_shutting ?c' = cl_shutting c"
    "cl_cq_shut ?c' = cl_cq_shut c" "cl_call_heap ?c' = cl_call_heap c"
    by (simp_all add: s_maybe_free_locked_def split_beta fr')
  have adv: "advances c ?c'"
    using touches_advances [OF fr] by (simp add: advances_def eq)
  have ids: "ids_ok n ?c'"
  proof (rule ids_ok_step [OF ids adv])
    fix b s' assume "cl_stream_heap ?c' b = Some s'"
    then show "\<exists>s''. cl_stream_heap c b = Some s'' \<and> st_id s'' = st_id s'"
      using s i by (cases "b = a") (auto simp: s_maybe_free_locked_def split_beta fr' split: if_splits)
  next
    fix e assume "e \<in> set (cl_ready ?c')"
    then have "e \<in> set (cl_ready c) \<or> ev_id e = st_id s"
      using touches_events [OF fr] by (simp add: eq)
    then show "e \<in> set (cl_ready c) \<or> unat (ev_id e) < unat (cl_next_id c)"
      using ids s by (auto simp: ids_ok_def)
  qed (simp add: eq)
  have "log_ok ?c0" using lg by (simp add: log_ok_def)
  from touches_log [OF fr this] have lg: "log_ok ?c'" by (simp add: log_ok_def eq fr')
  have "wake_ok (cl_wake ?c')"
    using touches_advances [OF fr] wk by (auto simp: advances_def eq wake_ok_signals)
  with 1 ids lg r adv show ?thesis by (simp add: cl_inv_def)
qed

lemma cl_handle_inv:
  assumes "cl_inv n c" and "fst tc \<in> set (cl_cq c)"
  shows "\<exists>c'. cl_handle tc c = Inr c' \<and> cl_inv n c' \<and> advances c c'"
proof -
  obtain a k cp where tc: "tc = (Ctag a k, cp)" by (metis prod.collapse ctag.collapse)
  with assms cl_handle_unary_inv cl_handle_stream_inv show ?thesis
    by (cases "k = T_UNARY") auto
qed

section \<open>The entry points keep the invariant\<close>

text \<open>
  \<open>quiet c c'\<close>: the section queued no event, touched neither the wake handle nor the shutdown flags.
\<close>

definition quiet :: "client \<Rightarrow> client \<Rightarrow> bool" where
  "quiet c c' \<longleftrightarrow> cl_ready c' = cl_ready c \<and> cl_wake c' = cl_wake c \<and> cl_closed c' = cl_closed c \<and>
     cl_shutting c' = cl_shutting c \<and> cl_cq_shut c' = cl_cq_shut c"

lemma quiet_refl [simp]: "quiet c c"
  by (simp add: quiet_def)

lemma cl_invD:
  assumes "cl_inv n c"
  shows "heap_ok c" and "ids_ok n c" and "log_ok c" and "wake_ok (cl_wake c)"
  using assms by (simp_all add: cl_inv_def)

lemma cl_inv_mono: "cl_inv n c \<Longrightarrow> n \<le> m \<Longrightarrow> cl_inv m c"
  by (auto simp: cl_inv_def ids_ok_def)

lemma open_not_shut:
  assumes "log_ok c" and "\<not> cl_closed c"
  shows "\<not> cl_shutting c" and "\<not> cl_cq_shut c"
  using assms by (auto simp: log_ok_def)

lemma fresh_addr:
  assumes "heap_ok c"
  shows "cl_call_heap c (cl_next_addr c) = None" and "cl_stream_heap c (cl_next_addr c) = None"
    and "cnt c (cl_next_addr c) k = 0"
proof -
  show 1: "cl_call_heap c (cl_next_addr c) = None"
    using heap_okD(5) [OF assms, of "cl_next_addr c"] by (cases "cl_call_heap c (cl_next_addr c)") auto
  show 2: "cl_stream_heap c (cl_next_addr c) = None"
    using heap_okD(7) [OF assms, of "cl_next_addr c"] by (cases "cl_stream_heap c (cl_next_addr c)") auto
  show "cnt c (cl_next_addr c) k = 0" by (rule heap_okD(9) [OF assms 1 2])
qed

lemma ids_ok_fresh:
  assumes "ids_ok n c"
  shows "cl_call_heap c a = Some cs \<Longrightarrow> cs_id cs \<noteq> cl_next_id c"
    and "cl_stream_heap c a = Some s \<Longrightarrow> st_id s \<noteq> cl_next_id c"
    and "cl_stream_heap c a = Some s \<Longrightarrow> cl_next_id c \<noteq> st_id s"
proof -
  show "cs_id cs \<noteq> cl_next_id c" if "cl_call_heap c a = Some cs"
  proof -
    from assms that have "unat (cs_id cs) < unat (cl_next_id c)" unfolding ids_ok_def by blast
    then show ?thesis by auto
  qed
  show *: "st_id s \<noteq> cl_next_id c" if "cl_stream_heap c a = Some s"
  proof -
    from assms that have "unat (st_id s) < unat (cl_next_id c)" unfolding ids_ok_def by blast
    then show ?thesis by auto
  qed
  show "cl_next_id c \<noteq> st_id s" if "cl_stream_heap c a = Some s" using * [OF that] by simp
qed

lemma fresh_id:
  assumes "heap_ok c" and "ids_ok n c"
  shows "m_find (cl_calls c) (cl_next_id c) = None" and "m_find (cl_streams c) (cl_next_id c) = None"
    and "smsgs c (cl_next_id c) = 0"
proof -
  have "m_find (cl_calls c) (cl_next_id c) \<noteq> Some a" for a
    using ids_ok_fresh(1) [OF assms(2)] by (auto simp: heap_okD(3) [OF assms(1)])
  then show "m_find (cl_calls c) (cl_next_id c) = None" by auto
  have "m_find (cl_streams c) (cl_next_id c) \<noteq> Some a" for a
    using ids_ok_fresh(2) [OF assms(2)] by (auto simp: heap_okD(4) [OF assms(1)])
  then show "m_find (cl_streams c) (cl_next_id c) = None" by auto
  show "smsgs c (cl_next_id c) = 0"
    using assms(2) by (auto simp: smsgs_def filter_empty_conv is_smsg_def ids_ok_def)
qed

lemma next_id_step:
  assumes "ids_ok n c" and "n < 2 ^ 64 - 2"
  shows "unat (cl_next_id c + 1) = unat (cl_next_id c) + 1"
  using assms by (intro unat_plus_one_u64) (simp add: ids_ok_def)

text \<open>A new unary call.\<close>

lemma call_start_inv:
  assumes inv: "cl_inv n c" and op: "\<not> cl_closed c" and n: "n < 2 ^ 64 - 2"
  shows "\<exists>r c'. grpc_r_call_start now (Some c) args req = Inr (r, c') \<and> cl_inv (Suc n) c' \<and> quiet c c'"
proof -
  note hp = cl_invD(1) [OF inv] and ids = cl_invD(2) [OF inv] and lg = cl_invD(3) [OF inv]
  let ?a = "cl_next_addr c"
  let ?i = "cl_next_id c"
  define cs where "cs = \<lparr>cs_id = ?i, cs_context = apply_context_opts now client_context_init
    (ca_deadline_ms args) (ca_metadata args) (ca_wait_for_ready args)\<rparr>"
  define c' where "c' = cl_post ?a T_UNARY (Op_Unary (ca_method args) req)
    (c\<lparr>cl_next_addr := ?a + 1, cl_next_id := ?i + 1, cl_call_heap := (cl_call_heap c)(?a \<mapsto> cs),
       cl_calls := m_insert ?i ?a (cl_calls c)\<rparr>)"
  have cnt: "cnt c' b k = cnt c b k + (if b = ?a \<and> k = T_UNARY then 1 else 0)" for b k
    unfolding c'_def cnt_simps by (simp add: cnt_def)
  have sm: "smsgs c' = smsgs c" by (intro ext) (simp add: c'_def cl_post_def smsgs_def)
  have fld: "cl_calls c' = m_insert ?i ?a (cl_calls c)" "cl_streams c' = cl_streams c"
    "cl_call_heap c' = (cl_call_heap c)(?a \<mapsto> cs)" "cl_stream_heap c' = cl_stream_heap c"
    "cl_next_addr c' = ?a + 1" "cl_next_id c' = ?i + 1" "cl_shutting c' = cl_shutting c"
    by (simp_all add: c'_def cl_post_def)
  note fa = fresh_addr [OF hp] and fi = fresh_id [OF hp ids]
  have 1: "heap_ok c'"
  proof (rule heap_okI)
    fix i b
    show "m_find (cl_calls c') i = Some b \<longleftrightarrow> (\<exists>cs. cl_call_heap c' b = Some cs \<and> cs_id cs = i)"
    proof (cases "i = ?i")
      case True
      with fi(1) heap_okD(3) [OF hp, of i b] show ?thesis by (auto simp: fld cs_def)
    next
      case False
      with fa(1) show ?thesis by (auto simp: fld cs_def heap_okD(3) [OF hp])
    qed
  next
    fix b cs' k
    assume "cl_call_heap c' b = Some cs'"
    then show "cnt c' b k = of_bool (k = T_UNARY)"
      using heap_okD(6) [OF hp, of b cs' k] fa by (cases "b = ?a") (auto simp: fld cnt)
  next
    fix b s
    assume b: "cl_stream_heap c' b = Some s"
    with fa(2) have "b \<noteq> ?a" by (auto simp: fld)
    then have "stream_ok b (c', s) = stream_ok b (c, s)"
      by (intro stream_ok_cong) (simp_all add: cnt sm fld)
    with b show "stream_ok b (c', s)" by (simp add: fld heap_okD(8) [OF hp])
  next
    fix b k
    assume "cl_call_heap c' b = None" "cl_stream_heap c' b = None"
    then show "cnt c' b k = 0"
      using heap_okD(9) [OF hp, of b k] by (auto simp: fld cnt split: if_splits)
  next
    fix b cs' assume "cl_call_heap c' b = Some cs'"
    then show "b < cl_next_addr c'"
      using heap_okD(5) [OF hp, of b cs'] by (auto simp: fld less_Suc_eq split: if_splits)
  next
    fix b s assume "cl_stream_heap c' b = Some s"
    then show "b < cl_next_addr c'" using heap_okD(7) [OF hp, of b s] by (simp add: fld)
  qed (simp_all add: fld heap_okD(1,2,4) [OF hp])
  have 2: "ids_ok (Suc n) c'"
    using ids fa unfolding ids_ok_def fld next_id_step [OF ids n]
    by (auto simp: c'_def cl_post_def cs_def less_Suc_eq dest: ids_ok_fresh [OF ids])
  have 3: "log_ok c'" using lg open_not_shut [OF lg op] by (simp add: c'_def cl_post_def log_ok_def)
  have "grpc_r_call_start now (Some c) args req = Inr (R_Real (Some (double_of_u64 ?i)), c')"
    using op by (simp add: grpc_r_call_start_def get_client_def c'_def cs_def Let_def)
  moreover have "cl_inv (Suc n) c'" "quiet c c'"
    using 1 2 3 cl_invD(4) [OF inv] by (simp_all add: cl_inv_def quiet_def c'_def cl_post_def)
  ultimately show ?thesis by blast
qed

text \<open>A new stream.\<close>

lemma stream_start_inv:
  assumes inv: "cl_inv n c" and op: "\<not> cl_closed c" and n: "n < 2 ^ 64 - 2"
  shows "\<exists>r c'. grpc_r_stream_start now (Some c) args rcap wcap = Inr (r, c') \<and>
    cl_inv (Suc n) c' \<and> quiet c c'"
proof -
  note hp = cl_invD(1) [OF inv] and ids = cl_invD(2) [OF inv] and lg = cl_invD(3) [OF inv]
  let ?a = "cl_next_addr c"
  let ?i = "cl_next_id c"
  define s where "s = stream_state_init\<lparr>st_context := apply_context_opts now client_context_init
    (ca_deadline_ms args) (ca_metadata args) (ca_wait_for_ready args), st_read_cap := rcap,
    st_write_cap := word_of_int wcap, st_id := ?i, st_pending := 1\<rparr>"
  define c' where "c' = cl_post ?a T_START (Op_StartCall (ca_method args))
    (c\<lparr>cl_next_addr := ?a + 1, cl_next_id := ?i + 1, cl_stream_heap := (cl_stream_heap c)(?a \<mapsto> s),
       cl_streams := m_insert ?i ?a (cl_streams c)\<rparr>)"
  have cnt: "cnt c' b k = cnt c b k + (if b = ?a \<and> k = T_START then 1 else 0)" for b k
    unfolding c'_def cnt_simps by (simp add: cnt_def)
  have sm: "smsgs c' = smsgs c" by (intro ext) (simp add: c'_def cl_post_def smsgs_def)
  have fld: "cl_calls c' = cl_calls c" "cl_streams c' = m_insert ?i ?a (cl_streams c)"
    "cl_call_heap c' = cl_call_heap c" "cl_stream_heap c' = (cl_stream_heap c)(?a \<mapsto> s)"
    "cl_next_addr c' = ?a + 1" "cl_next_id c' = ?i + 1" "cl_shutting c' = cl_shutting c"
    by (simp_all add: c'_def cl_post_def)
  note fa = fresh_addr [OF hp] and fi = fresh_id [OF hp ids]
  have new: "stream_ok ?a (c', s)"
    using fa(3) fi(3)
    by (simp add: stream_ok_def stream_core_def stream_defs stream_live_def reads_flow_def
        writes_flow_def finish_flow_def cnt sm s_def stream_state_init_def)
  have 1: "heap_ok c'"
  proof (rule heap_okI)
    fix i b
    show "m_find (cl_streams c') i = Some b \<longleftrightarrow> (\<exists>s. cl_stream_heap c' b = Some s \<and> st_id s = i)"
    proof (cases "i = ?i")
      case True
      with fi(2) heap_okD(4) [OF hp, of i b] show ?thesis by (auto simp: fld s_def)
    next
      case False
      with fa(2) show ?thesis by (auto simp: fld s_def heap_okD(4) [OF hp])
    qed
  next
    fix b cs k
    assume "cl_call_heap c' b = Some cs"
    then show "cnt c' b k = of_bool (k = T_UNARY)"
      using heap_okD(6) [OF hp, of b cs k] fa by (cases "b = ?a") (auto simp: fld cnt)
  next
    fix b s'
    assume b: "cl_stream_heap c' b = Some s'"
    show "stream_ok b (c', s')"
    proof (cases "b = ?a")
      case True
      with b new show ?thesis by (simp add: fld)
    next
      case False
      then have "stream_ok b (c', s') = stream_ok b (c, s')"
        by (intro stream_ok_cong) (simp_all add: cnt sm fld)
      with b False show ?thesis by (simp add: fld heap_okD(8) [OF hp])
    qed
  next
    fix b k
    assume "cl_call_heap c' b = None" "cl_stream_heap c' b = None"
    then show "cnt c' b k = 0"
      using heap_okD(9) [OF hp, of b k] by (auto simp: fld cnt split: if_splits)
  next
    fix b s' assume "cl_stream_heap c' b = Some s'"
    then show "b < cl_next_addr c'"
      using heap_okD(7) [OF hp, of b s'] by (auto simp: fld less_Suc_eq split: if_splits)
  next
    fix b cs assume "cl_call_heap c' b = Some cs"
    then show "b < cl_next_addr c'" using heap_okD(5) [OF hp, of b cs] by (simp add: fld)
  qed (simp_all add: fld heap_okD(1-3) [OF hp])
  have 2: "ids_ok (Suc n) c'"
    using ids fa unfolding ids_ok_def fld next_id_step [OF ids n]
    by (auto simp: c'_def cl_post_def s_def less_Suc_eq dest: ids_ok_fresh [OF ids])
  have 3: "log_ok c'" using lg open_not_shut [OF lg op] by (simp add: c'_def cl_post_def log_ok_def)
  have "grpc_r_stream_start now (Some c) args rcap wcap = Inr (R_Real (Some (double_of_u64 ?i)), c')"
    using op by (simp add: grpc_r_stream_start_def get_client_def c'_def s_def Let_def)
  moreover have "cl_inv (Suc n) c'" "quiet c c'"
    using 1 2 3 cl_invD(4) [OF inv] by (simp_all add: cl_inv_def quiet_def c'_def cl_post_def)
  ultimately show ?thesis by blast
qed

end
