(* ===== verification/Client_Entry.thy ===== *)
theory Client_Entry
  imports Client_Safety
begin

text \<open>
  The entry points that work on calls and streams that already exist (cancelling, sending, closing
  the send direction) and the delivery of events to R keep the invariant of the whole client and
  run without a fault.  The batch that a poll takes is the one the reference definition of
  \<^verbatim>\<open>Event_Queue\<close> describes.
\<close>

section \<open>Sections that work on one object\<close>

lemma advances_refl [simp]: "advances c c"
  unfolding advances_def by (intro conjI exI [of _ "[]"]) simp_all

text \<open>A section that rewrites one stream object and touches nothing else but that stream.\<close>

lemma cl_store_inv:
  assumes inv: "cl_inv n c" and s: "cl_stream_heap c a = Some s"
    and c0: "c0 = c\<lparr>cl_ready := r\<rparr>" and r: "set r \<subseteq> set (cl_ready c)"
    and sm0: "\<And>j. j \<noteq> st_id s \<Longrightarrow> smsgs c0 j = smsgs c j"
    and t: "touches a (st_id s) c0 (fst p)" and ok: "stream_ok a p" and i: "st_id (snd p) = st_id s"
  shows "cl_inv n (cl_store a p)"
proof -
  note fr = touches_frame [OF t]
  have st: "cl_store a p = (fst p)\<lparr>cl_stream_heap := (cl_stream_heap (fst p))(a \<mapsto> snd p)\<rparr>"
    by (simp add: cl_store_def split_beta)
  have c0': "c0 = c\<lparr>cl_cq := cl_cq c, cl_ready := r\<rparr>" by (simp add: c0)
  have q: "\<And>b k. b \<noteq> a \<Longrightarrow> cnt c0 b k = cnt c b k" by (simp add: c0 cnt_def)
  from ok have ok': "stream_ok a (fst p, snd p)" by simp
  have 1: "heap_ok (cl_store a p)"
    unfolding st by (rule heap_ok_store [OF cl_invD(1) [OF inv] s c0' q sm0 t ok' i])
  have 2: "ids_ok n (cl_store a p)"
    unfolding ids_ok_def
  proof (intro conjI allI ballI impI)
    note ids = cl_invD(2) [OF inv, unfolded ids_ok_def]
    have same: "\<exists>s''. cl_stream_heap c b = Some s'' \<and> st_id s'' = st_id s'"
      if "cl_stream_heap (cl_store a p) b = Some s'" for b s'
      using that s i by (cases "b = a") (auto simp: st fr c0)
    have calls: "cl_call_heap (cl_store a p) = cl_call_heap c" "cl_next_id (cl_store a p) = cl_next_id c"
      by (simp_all add: st fr c0)
    show "1 \<le> unat (cl_next_id (cl_store a p))" "unat (cl_next_id (cl_store a p)) \<le> n + 1"
      using ids by (simp_all add: calls)
    fix b cs assume b: "cl_call_heap (cl_store a p) b = Some cs"
    with ids show "unat (cs_id cs) < unat (cl_next_id (cl_store a p))" unfolding calls by blast
    fix b' s' assume "cl_stream_heap (cl_store a p) b' = Some s'"
    from same [OF this] b ids show "cs_id cs \<noteq> st_id s'" unfolding calls by metis
  next
    fix b' s' assume "cl_stream_heap (cl_store a p) b' = Some s'"
    then obtain s'' where s'': "cl_stream_heap c b' = Some s''" "st_id s'' = st_id s'"
      using s i by (cases "b' = a") (auto simp: st fr c0)
    from cl_invD(2) [OF inv] s''(1) have "unat (st_id s'') < unat (cl_next_id c)"
      unfolding ids_ok_def by blast
    then show "unat (st_id s') < unat (cl_next_id (cl_store a p))" by (simp add: s''(2) st fr c0)
  next
    fix e assume "e \<in> set (cl_ready (cl_store a p))"
    then have "e \<in> set (cl_ready c) \<or> ev_id e = st_id s"
      using touches_events [OF t, of e] r by (auto simp: st c0)
    with cl_invD(2) [OF inv] s show "unat (ev_id e) < unat (cl_next_id (cl_store a p))"
      by (auto simp: ids_ok_def st fr c0)
  qed
  have "log_ok c0" using cl_invD(3) [OF inv] by (simp add: log_ok_def c0)
  with t have "log_ok (fst p)" by (rule touches_log)
  then have 3: "log_ok (cl_store a p)" by (simp add: log_ok_def st)
  have "wake_ok (cl_wake (cl_store a p))"
    using touches_advances [OF t] cl_invD(4) [OF inv] by (auto simp: advances_def st c0 wake_ok_signals)
  with 1 2 3 show ?thesis by (simp add: cl_inv_def)
qed

text \<open>The helpers post operations only: no event, no signal.\<close>

lemma helper_quiet [simp]:
  "quiet c (cl_store a (s_pump_writes_locked a (c, s)))"
  "quiet c (cl_store a (s_post_read_locked a (c, s)))"
  by (auto simp: quiet_def cl_store_def s_pump_writes_locked_def s_post_read_locked_def cl_post_def)

lemma pump_ok:
  assumes core: "stream_core a (c, s)" and r: "cl_shutting c \<or> reads_flow s \<and> finish_flow s"
  shows "stream_ok a (s_pump_writes_locked a (c, s))"
proof -
  let ?p = "s_pump_writes_locked a (c, s)"
  have "cl_shutting c \<or> finish_flow (snd ?p)"
    using r by (cases rule: s_pump_writes_cases [of a c s]) (auto simp: finish_flow_def)
  moreover have "cl_shutting c \<or> writes_flow (snd ?p)"
    using s_pump_writes_flow [of c s a] stream_core_wf [OF core] by auto
  moreover have "cl_shutting c \<or> reads_flow (snd ?p)" using r s_pump_reads_flow by blast
  moreover have "stream_core a ?p" using core by (rule s_pump_writes_core)
  ultimately show ?thesis by (auto simp: stream_ok_def stream_live_def split_beta)
qed

text \<open>A stream whose object is rewritten in a way the flow conditions for reads do not see.\<close>

lemma pump_store_inv:
  assumes inv: "cl_inv n c" and s: "cl_stream_heap c a = Some s"
    and core: "stream_core a (c, s')" and i: "st_id s' = st_id s"
    and fl: "reads_flow s \<Longrightarrow> reads_flow s'" "finish_flow s \<Longrightarrow> finish_flow s'"
  shows "cl_inv n (cl_store a (s_pump_writes_locked a (c, s')))"
proof (rule cl_store_inv [OF inv s, of c "cl_ready c"])
  from heap_okD(8) [OF cl_invD(1) [OF inv] s] fl
  have "cl_shutting c \<or> reads_flow s' \<and> finish_flow s'"
    by (auto simp: stream_ok_def stream_live_def)
  with core show "stream_ok a (s_pump_writes_locked a (c, s'))" by (rule pump_ok)
qed (simp_all add: i)

section \<open>Sending\<close>

lemma stream_send_inv:
  assumes inv: "cl_inv n c" and op: "\<not> cl_closed c"
  shows "\<exists>b c'. grpc_r_stream_send (Some c) cid bytes = Inr (R_Logical b, c') \<and> cl_inv n c' \<and> quiet c c'"
proof (cases "m_find (cl_streams c) (u64_of_double cid)")
  case None
  with inv op show ?thesis by (auto simp: grpc_r_stream_send_def get_client_def Let_def)
next
  case (Some a)
  with heap_okD(4) [OF cl_invD(1) [OF inv]] obtain s where s: "cl_stream_heap c a = Some s" by auto
  let ?s = "s\<lparr>st_write_queue := st_write_queue s @ [bytes]\<rparr>"
  show ?thesis
  proof (cases "st_broken s \<or> st_finish_posted s \<or> st_wdone_requested s \<or>
      unat (st_write_cap s) \<le> length (st_write_queue s)")
    case True
    with inv op Some s show ?thesis
      by (auto simp: grpc_r_stream_send_def get_client_def Let_def)
  next
    case False
    with heap_okD(8) [OF cl_invD(1) [OF inv] s] have "stream_core a (c, ?s)"
      by (clarsimp simp: core_simps)
    then have "cl_inv n (cl_store a (s_pump_writes_locked a (c, ?s)))"
      by (rule pump_store_inv [OF inv s]) (simp_all add: reads_flow_def finish_flow_def)
    with False op Some s show ?thesis
      by (auto simp: grpc_r_stream_send_def get_client_def Let_def)
  qed
qed

lemma writes_done_inv:
  assumes inv: "cl_inv n c" and op: "\<not> cl_closed c"
  shows "\<exists>b c'. grpc_r_stream_writes_done (Some c) cid = Inr (R_Logical b, c') \<and> cl_inv n c' \<and> quiet c c'"
proof (cases "m_find (cl_streams c) (u64_of_double cid)")
  case None
  with inv op show ?thesis by (auto simp: grpc_r_stream_writes_done_def get_client_def Let_def)
next
  case (Some a)
  with heap_okD(4) [OF cl_invD(1) [OF inv]] obtain s where s: "cl_stream_heap c a = Some s" by auto
  let ?s = "s\<lparr>st_wdone_requested := True\<rparr>"
  show ?thesis
  proof (cases "st_wdone_requested s")
    case True
    with inv op Some s show ?thesis
      by (auto simp: grpc_r_stream_writes_done_def get_client_def Let_def)
  next
    case False
    with heap_okD(8) [OF cl_invD(1) [OF inv] s] have "stream_core a (c, ?s)"
      by (clarsimp simp: core_simps)
    then have "cl_inv n (cl_store a (s_pump_writes_locked a (c, ?s)))"
      by (rule pump_store_inv [OF inv s]) (simp_all add: reads_flow_def finish_flow_def)
    with False op Some s show ?thesis
      by (auto simp: grpc_r_stream_writes_done_def get_client_def Let_def)
  qed
qed

section \<open>Cancelling\<close>

lemma cancel_call_inv:
  assumes inv: "cl_inv n c" and cs: "cl_call_heap c a = Some cs"
  shows "\<exists>c'. cancel_call a c = Inr c' \<and> cl_inv n c' \<and> quiet c c' \<and>
    cl_calls c' = cl_calls c \<and> cl_streams c' = cl_streams c \<and> cl_cq c' = cl_cq c \<and>
    cl_log c' = cl_log c \<and> cl_next_id c' = cl_next_id c"
proof -
  note hp = cl_invD(1) [OF inv]
  let ?cs = "cs\<lparr>cs_context := try_cancel (cs_context cs)\<rparr>"
  let ?c = "c\<lparr>cl_call_heap := (cl_call_heap c)(a \<mapsto> ?cs)\<rparr>"
  have cnt: "cnt ?c = cnt c" by (intro ext) (simp add: cnt_def)
  have same: "\<exists>cs''. cl_call_heap c b = Some cs'' \<and> cs_id cs'' = cs_id cs'"
    if "cl_call_heap ?c b = Some cs'" for b cs'
    using that cs by (cases "b = a") auto
  have 1: "heap_ok ?c"
  proof (rule heap_okI)
    fix i b
    show "m_find (cl_calls ?c) i = Some b \<longleftrightarrow> (\<exists>cs. cl_call_heap ?c b = Some cs \<and> cs_id cs = i)"
      using cs by (cases "b = a") (auto simp: heap_okD(3) [OF hp])
  next
    fix b s assume "cl_stream_heap ?c b = Some s"
    with heap_okD(8) [OF hp, of b s] show "stream_ok b (?c, s)"
      by (subst stream_ok_cong [where c = c]) (simp_all add: cnt smsgs_def)
  next
    fix b cs' assume "cl_call_heap ?c b = Some cs'"
    from same [OF this] heap_okD(5) [OF hp] show "b < cl_next_addr ?c" by auto
  next
    fix b cs' k assume "cl_call_heap ?c b = Some cs'"
    from same [OF this] heap_okD(6) [OF hp] show "cnt ?c b k = of_bool (k = T_UNARY)"
      unfolding cnt by blast
  next
    fix b k assume "cl_call_heap ?c b = None" "cl_stream_heap ?c b = None"
    with heap_okD(9) [OF hp, of b k] show "cnt ?c b k = 0" by (simp add: cnt split: if_splits)
  qed (use heap_okD(1,2,4,7) [OF hp] in auto)
  have "advances c ?c" unfolding advances_def by (intro conjI exI [of _ "[]"]) simp_all
  then have 2: "ids_ok n ?c"
    by (rule ids_ok_step [OF cl_invD(2) [OF inv]]) (use same in auto)
  have "log_ok ?c" using cl_invD(3) [OF inv] by (simp add: log_ok_def)
  with 1 2 cs inv show ?thesis by (simp add: cancel_call_def quiet_def cl_inv_def)
qed

lemma stream_ok_context [simp]: "stream_ok a (c, s\<lparr>st_context := x\<rparr>) = stream_ok a (c, s)"
  by (simp add: core_simps stream_live_def reads_flow_def writes_flow_def finish_flow_def)

lemma cancel_stream_inv:
  assumes inv: "cl_inv n c" and s: "cl_stream_heap c a = Some s"
  shows "\<exists>c'. cancel_stream a c = Inr c' \<and> cl_inv n c' \<and> quiet c c' \<and>
    cl_calls c' = cl_calls c \<and> cl_streams c' = cl_streams c \<and> cl_cq c' = cl_cq c \<and>
    cl_log c' = cl_log c \<and> cl_next_id c' = cl_next_id c"
proof -
  let ?s = "s\<lparr>st_context := try_cancel (st_context s)\<rparr>"
  have ok: "stream_ok a (c, ?s)" using heap_okD(8) [OF cl_invD(1) [OF inv] s] by simp
  have "cl_inv n (cl_store a (c, ?s))"
    by (rule cl_store_inv [OF inv s, of c "cl_ready c"]) (use ok in simp_all)
  with s show ?thesis by (simp add: cancel_stream_def cl_store_def quiet_def)
qed

lemma quiet_trans [trans]: "quiet c1 c2 \<Longrightarrow> quiet c2 c3 \<Longrightarrow> quiet c1 c3"
  by (simp add: quiet_def)

lemma call_cancel_inv:
  assumes inv: "cl_inv n c" and op: "\<not> cl_closed c"
  shows "\<exists>c'. grpc_r_call_cancel (Some c) cid = Inr (R_NilValue, c') \<and> cl_inv n c' \<and> quiet c c'"
proof -
  let ?w = "u64_of_double cid"
  have "\<exists>c1. (case m_find (cl_calls c) ?w of None \<Rightarrow> Inr c | Some a \<Rightarrow> cancel_call a c) = Inr c1 \<and>
      cl_inv n c1 \<and> quiet c c1"
    using inv heap_okD(3) [OF cl_invD(1) [OF inv]] cancel_call_inv [OF inv]
    by (fastforce split: option.split)
  then obtain c1 where c1: "(case m_find (cl_calls c) ?w of None \<Rightarrow> Inr c | Some a \<Rightarrow> cancel_call a c) = Inr c1"
    and inv1: "cl_inv n c1" and q1: "quiet c c1" by blast
  have "\<exists>c2. (case m_find (cl_streams c1) ?w of None \<Rightarrow> Inr c1 | Some a \<Rightarrow> cancel_stream a c1) = Inr c2 \<and>
      cl_inv n c2 \<and> quiet c1 c2"
    using inv1 heap_okD(4) [OF cl_invD(1) [OF inv1]] cancel_stream_inv [OF inv1]
    by (fastforce split: option.split)
  with c1 q1 op show ?thesis
    by (auto simp: grpc_r_call_cancel_def get_client_def Let_def intro: quiet_trans)
qed

section \<open>Delivering events\<close>

text \<open>An event leaves the deque; a message makes room in its stream's buffer.\<close>

lemma taken_stream_ok:
  assumes ok: "stream_ok a (c, s)" and pos: "smsgs c0 (st_id s) + 1 = smsgs c (st_id s)"
    and c0: "c0 = c\<lparr>cl_ready := r\<rparr>"
  defines "s1 \<equiv> s\<lparr>st_unread := st_unread s - 1\<rparr>"
  shows "stream_ok a (if st_unread s1 < st_read_cap s1 then s_post_read_locked a (c0, s1) else (c0, s1))"
    (is "stream_ok a ?p")
proof -
  have "0 < st_unread s" using ok pos by (simp add: core_simps)
  with ok pos c0 have core: "stream_core a (c0, s1)"
    by (clarsimp simp: core_simps s1_def cnt_def)
  then have "stream_core a ?p" by (auto intro: s_post_read_core)
  moreover have "cl_shutting c \<or> reads_flow (snd ?p)"
    using s_post_read_flow [of c0 a s1] by (auto simp: c0 reads_flow_def)
  moreover have "cl_shutting c \<or> writes_flow s1 \<and> finish_flow s1"
    using ok by (auto simp: stream_ok_def stream_live_def s1_def writes_flow_def finish_flow_def)
  then have "cl_shutting c \<or> writes_flow (snd ?p) \<and> finish_flow (snd ?p)"
    by (cases rule: s_post_read_cases [of a c0 s1]) (auto simp: writes_flow_def finish_flow_def)
  ultimately show ?thesis by (auto simp: stream_ok_def stream_live_def split_beta c0)
qed

lemma smsgs_ready: "smsgs (c\<lparr>cl_ready := r\<rparr>) i = length (filter (is_smsg i) r)"
  by (simp add: smsgs_def)

text \<open>Only messages count, and only for their own stream.\<close>

lemma cl_inv_ready:
  assumes inv: "cl_inv n c" and r: "set r \<subseteq> set (cl_ready c)"
    and sm: "\<And>a s. cl_stream_heap c a = Some s \<Longrightarrow>
      length (filter (is_smsg (st_id s)) r) = smsgs c (st_id s)"
  shows "cl_inv n (c\<lparr>cl_ready := r\<rparr>)"
proof -
  have "heap_ok (c\<lparr>cl_ready := r\<rparr>) \<longleftrightarrow> heap_ok c"
    by (rule heap_ok_cong) (simp_all add: smsgs_ready sm)
  then show ?thesis using inv r by (auto simp: cl_inv_def ids_ok_def log_ok_def)
qed

lemma cl_taken_inv:
  assumes inv: "cl_inv n c" and rd: "cl_ready c = pre @ ev # it"
  shows "\<exists>c'. cl_taken ev (c\<lparr>cl_ready := pre @ it\<rparr>) = Inr c' \<and> cl_inv n c' \<and>
    quiet (c\<lparr>cl_ready := pre @ it\<rparr>) c'"
proof -
  let ?c0 = "c\<lparr>cl_ready := pre @ it\<rparr>"
  note hp = cl_invD(1) [OF inv]
  have sm: "smsgs ?c0 i + (if is_smsg i ev then 1 else 0) = smsgs c i" for i
    by (simp add: smsgs_def rd)
  show ?thesis
  proof (cases "ev_kind ev = EV_SMSG \<and> m_find (cl_streams c) (ev_id ev) \<noteq> None")
    case False
    have "\<not> is_smsg (st_id s) ev" if "cl_stream_heap c a = Some s" for a s
      using False that heap_okD(4) [OF hp, of "st_id s" a] by (auto simp: is_smsg_def)
    with sm have "\<And>a s. cl_stream_heap c a = Some s \<Longrightarrow> smsgs ?c0 (st_id s) = smsgs c (st_id s)"
      by (metis add_0_right)
    then have "cl_inv n ?c0"
      by (intro cl_inv_ready inv) (auto simp: rd smsgs_ready)
    moreover have "cl_taken ev ?c0 = Inr ?c0" using False by (auto simp: cl_taken_def)
    ultimately show ?thesis by simp
  next
    case True
    then obtain a where k: "ev_kind ev = EV_SMSG" and a: "m_find (cl_streams c) (ev_id ev) = Some a" by auto
    with heap_okD(4) [OF hp] obtain s where s: "cl_stream_heap c a = Some s" and i: "st_id s = ev_id ev"
      by auto
    let ?s1 = "s\<lparr>st_unread := st_unread s - 1\<rparr>"
    let ?p = "if st_unread ?s1 < st_read_cap ?s1 then s_post_read_locked a (?c0, ?s1) else (?c0, ?s1)"
    have "stream_ok a ?p"
      using sm [of "st_id s"] k i by (intro taken_stream_ok [OF heap_okD(8) [OF hp s] _ refl]) (simp add: is_smsg_def)
    moreover have "smsgs ?c0 j = smsgs c j" if "j \<noteq> st_id s" for j
      using sm [of j] that i by (auto simp: is_smsg_def)
    ultimately have "cl_inv n (cl_store a ?p)"
      by (intro cl_store_inv [OF inv s refl, of "pre @ it"]) (auto simp: rd)
    moreover have "cl_taken ev ?c0 = Inr (cl_store a ?p)" using k a s by (simp add: cl_taken_def Let_def)
    moreover have "quiet ?c0 (cl_store a ?p)"
      by (auto simp: quiet_def cl_store_def s_post_read_locked_def cl_post_def)
    ultimately show ?thesis by blast
  qed
qed

text \<open>
  The batch loop takes exactly the events of the reference definition, in arrival order, and
  leaves the others where they were.
\<close>

lemma cl_batch_loop_ok:
  assumes "cl_inv n c" and "cl_ready c = pre @ it"
  shows "\<exists>c'. cl_batch_loop only_id maxn batch pre it c =
      Inr (batch @ fst (take_matching (matches ev_id only_id) (nat (maxn - int (length batch))) it), c') \<and>
    cl_ready c' = pre @ snd (take_matching (matches ev_id only_id) (nat (maxn - int (length batch))) it) \<and>
    cl_inv n c' \<and> cl_wake c' = cl_wake c \<and> cl_closed c' = cl_closed c \<and> cl_shutting c' = cl_shutting c"
  using assms
proof (induction it arbitrary: c pre batch)
  case Nil
  then show ?case by simp
next
  case (Cons ev it)
  show ?case
  proof (cases "int (length batch) < maxn")
    case False
    with Cons.prems show ?thesis by simp
  next
    case True
    then obtain m where m: "nat (maxn - int (length batch)) = Suc m"
      "nat (maxn - int (length (batch @ [ev]))) = m"
      by (cases "nat (maxn - int (length batch))") auto
    show ?thesis
    proof (cases "matches ev_id only_id ev")
      case False
      from Cons.prems have "cl_ready c = (pre @ [ev]) @ it" by simp
      from Cons.IH [OF Cons.prems(1) this, of batch] True False m show ?thesis
        by (auto simp: split_beta)
    next
      case match: True
      from cl_taken_inv [OF Cons.prems] obtain c1 where c1: "cl_taken ev (c\<lparr>cl_ready := pre @ it\<rparr>) = Inr c1"
        and inv1: "cl_inv n c1" and q: "quiet (c\<lparr>cl_ready := pre @ it\<rparr>) c1" by blast
      from q have "cl_ready c1 = pre @ it" by (simp add: quiet_def)
      from Cons.IH [OF inv1 this, of "batch @ [ev]"] True match m c1 q show ?thesis
        by (auto simp: split_beta quiet_def)
    qed
  qed
qed

text \<open>The wake handle is readable exactly while events are queued.\<close>

definition armed :: "client \<Rightarrow> bool" where
  "armed c \<longleftrightarrow> (wake_readable (cl_wake c) \<longleftrightarrow> cl_ready c \<noteq> [])"

lemma cl_drain_inv: "cl_inv n c \<Longrightarrow> cl_inv n (cl_drain c)"
  using heap_ok_cong [of "cl_drain c" c]
  by (simp add: cl_inv_def cl_drain_def ids_ok_def log_ok_def upipe.ok_drain smsgs_def)

lemma cl_signal_inv: "cl_inv n c \<Longrightarrow> cl_inv n (cl_signal c)"
  using heap_ok_cong [of "cl_signal c" c]
  by (simp add: cl_inv_def cl_signal_def ids_ok_def log_ok_def upipe.ok_signal smsgs_def)

lemma cl_poll_locked_ok:
  fixes only_id maxn
  assumes inv: "cl_inv n c"
  defines "t \<equiv> take_matching (matches ev_id only_id) (nat maxn) (cl_ready c)"
  shows "\<exists>c'. cl_poll_locked only_id maxn c = Inr (fst t, c') \<and> cl_ready c' = snd t \<and>
    cl_inv n c' \<and> armed c' \<and> cl_closed c' = cl_closed c \<and> cl_shutting c' = cl_shutting c"
proof -
  have rd: "cl_ready (cl_drain c) = [] @ cl_ready c" by (simp add: cl_drain_def)
  from cl_batch_loop_ok [OF cl_drain_inv [OF inv] rd, of only_id maxn "[]"] obtain c1 where
    c1: "cl_batch_loop only_id maxn [] [] (cl_ready c) (cl_drain c) = Inr (fst t, c1)"
    "cl_ready c1 = snd t" "cl_inv n c1" "cl_wake c1 = wake_drain (cl_wake c)"
    "cl_closed c1 = cl_closed c" "cl_shutting c1 = cl_shutting c"
    by (auto simp: t_def cl_drain_def)
  let ?c = "if cl_ready c1 \<noteq> [] then cl_signal c1 else c1"
  have "armed ?c"
    using upipe.rearm_establishes(2) [OF cl_invD(4) [OF inv], of "cl_ready c1"] c1(4)
    by (cases "cl_ready c1 = []") (simp_all add: armed_def cl_signal_def)
  moreover have "cl_inv n ?c" using c1(3) cl_signal_inv by simp
  ultimately show ?thesis using c1 rd by (simp add: cl_poll_locked_def Let_def cl_signal_def)
qed

end
