(* ===== verification/Client_Shutdown.thy ===== *)
theory Client_Shutdown
  imports Client_Entry
begin

text \<open>
  Closing a client (\<^verbatim>\<open>client_shutdown\<close>, the finalizer and \<^verbatim>\<open>grpc_r_client_close\<close>): every call is
  cancelled, the completion thread drains the queue and ends, and every object is deleted exactly
  once.
\<close>

section \<open>What a handled completion changes, whatever the tag\<close>

lemma run_unary_advances: "run_unary a cp c = Inr c' \<Longrightarrow> advances c c' \<and> cl_cq c' = cl_cq c \<and> cl_log c' = cl_log c"
  unfolding run_unary_def advances_def
  by (auto simp: rbind_Inr_iff deref_Inr_iff Let_def cl_push_back_def cl_signal_def
      intro!: exI [of _ "[unary_event i cp]" for i])

lemma cl_handle_advances:
  assumes "cl_handle tc c = Inr c'"
  shows "advances c c'" and "cl_shutting c \<Longrightarrow> cl_cq c' = remove1 (fst tc) (cl_cq c) \<and> cl_log c' = cl_log c"
proof -
  obtain a k cp where tc: "tc = (Ctag a k, cp)" by (metis prod.collapse ctag.collapse)
  have "advances c c' \<and> (cl_shutting c \<longrightarrow> cl_cq c' = remove1 (fst tc) (cl_cq c) \<and> cl_log c' = cl_log c)"
  proof (cases "k = T_UNARY")
    case True
    with assms tc have "run_unary a cp (next_tag a k c) = Inr c'" by (simp add: cl_handle_def)
    from run_unary_advances [OF this] tc show ?thesis by (simp add: advances_def)
  next
    case False
    with assms tc obtain s p where p: "cl_dispatch a k cp (next_tag a k c, popped s) = Inr p"
      and c': "c' = s_maybe_free_locked a p"
      by (auto simp: cl_handle_def rbind_Inr_iff deref_Inr_iff Let_def)
    from dispatch_frame [OF p] have t: "touches a (st_id s) (next_tag a k c) (fst p)" by simp
    from touches_advances [OF t] have "advances c c'"
      by (simp add: advances_def c' s_maybe_free_locked_def split_beta)
    moreover from t tc have "cl_shutting c \<longrightarrow> cl_cq c' = remove1 (fst tc) (cl_cq c) \<and> cl_log c' = cl_log c"
      by (auto simp: touches_def c' s_maybe_free_locked_def split_beta)
    ultimately show ?thesis by simp
  qed
  then show "advances c c'"
    and "cl_shutting c \<Longrightarrow> cl_cq c' = remove1 (fst tc) (cl_cq c) \<and> cl_log c' = cl_log c" by simp_all
qed

section \<open>The completion thread ends\<close>

text \<open>
  Once the queue is shut down no handler posts anything, so the loop ends after the outstanding
  completions, in whatever order they are delivered.
\<close>

lemma cl_run_drains:
  assumes "cl_inv n c" and "cl_shutting c" and "cl_cq_shut c" and "mset (map fst tcs) = mset (cl_cq c)"
  shows "\<exists>c'. cl_run tcs c = Some (Inr c') \<and> cl_inv n c' \<and> cl_cq c' = [] \<and> cl_log c' = cl_log c \<and>
    cl_closed c' = cl_closed c \<and> wh_r (cl_wake c') = wh_r (cl_wake c) \<and> wh_w (cl_wake c') = wh_w (cl_wake c)"
  using assms
proof (induction tcs arbitrary: c)
  case Nil
  then show ?case by simp
next
  case (Cons tc tcs)
  then have m: "fst tc \<in> set (cl_cq c)" by (metis list.set_intros(1) list.simps(9) mset_eq_setD)
  from cl_handle_inv [OF Cons.prems(1) this] obtain c1
    where c1: "cl_handle tc c = Inr c1" "cl_inv n c1" "advances c c1" by blast
  from cl_handle_advances(2) [OF c1(1) Cons.prems(2)]
  have q: "cl_cq c1 = remove1 (fst tc) (cl_cq c)" "cl_log c1 = cl_log c" by simp_all
  with Cons.prems(4) have "mset (map fst tcs) = mset (cl_cq c1)"
    by (simp flip: Cons.prems(4))
  with Cons.IH [OF c1(2)] c1(3) Cons.prems(2,3) have
    "\<exists>c'. cl_run tcs c1 = Some (Inr c') \<and> cl_inv n c' \<and> cl_cq c' = [] \<and> cl_log c' = cl_log c1 \<and>
       cl_closed c' = cl_closed c1 \<and> wh_r (cl_wake c') = wh_r (cl_wake c1) \<and> wh_w (cl_wake c') = wh_w (cl_wake c1)"
    by (simp add: advances_def)
  with c1(1,3) m q show ?case by (auto simp: advances_def)
qed

section \<open>Cancelling everything\<close>

definition closing :: "client \<Rightarrow> client \<Rightarrow> bool" where
  "closing c c' \<longleftrightarrow> cl_closed c' \<and> cl_shutting c' \<and> cl_calls c' = cl_calls c \<and> cl_streams c' = cl_streams c \<and>
     cl_cq c' = cl_cq c \<and> cl_log c' = cl_log c \<and> cl_wake c' = cl_wake c \<and> cl_ready c' = cl_ready c \<and>
     cl_next_id c' = cl_next_id c"

lemma cl_inv_shutting:
  assumes "cl_inv n c"
  shows "cl_inv n (c\<lparr>cl_closed := True, cl_shutting := True\<rparr>)" (is "cl_inv n ?c")
proof -
  have cnt: "cnt ?c = cnt c" by (intro ext) (simp add: cnt_def)
  have "stream_ok a (?c, s)" if "stream_ok a (c, s)" for a s
    using that by (simp add: stream_ok_def stream_core_def stream_live_def cnt smsgs_def)
  with assms show ?thesis by (auto simp: cl_inv_def heap_ok_def ids_ok_def log_ok_def cnt)
qed

lemma client_shutdown_begin_ok:
  assumes inv: "cl_inv n c"
  shows "\<exists>c'. client_shutdown_begin c = Inr c' \<and> cl_inv n c' \<and> closing c c' \<and> cl_cq_shut c'"
proof -
  let ?c = "c\<lparr>cl_closed := True, cl_shutting := True\<rparr>"
  let ?I = "\<lambda>c'. cl_inv n c' \<and> closing c c'"
  have start: "?I ?c" using cl_inv_shutting [OF inv] by (simp add: closing_def)
  have "\<exists>c'. rfold (\<lambda>kv. cancel_call (snd kv)) (cl_calls c) ?c = Inr c' \<and> ?I c'"
  proof (rule rfold_inv [where I = ?I, OF start])
    fix kv c' assume kv: "kv \<in> set (cl_calls c)" and I: "?I c'"
    note hp = cl_invD(1) [of n c'] and D = heap_okD(1,3) [OF hp]
    from kv I have "m_find (cl_calls c') (fst kv) = Some (snd kv)"
      by (intro m_find_set D(1)) (simp_all add: closing_def)
    with I D(2) obtain cs where "cl_call_heap c' (snd kv) = Some cs" by blast
    from cancel_call_inv [OF _ this, of n] I
    show "\<exists>c''. cancel_call (snd kv) c' = Inr c'' \<and> ?I c''" by (auto simp: closing_def quiet_def)
  qed
  then obtain c1 where c1: "rfold (\<lambda>kv. cancel_call (snd kv)) (cl_calls c) ?c = Inr c1"
    and I1: "?I c1" by blast
  have "\<exists>c'. rfold (\<lambda>kv. cancel_stream (snd kv)) (cl_streams c) c1 = Inr c' \<and> ?I c'"
  proof (rule rfold_inv [where I = ?I, OF I1])
    fix kv c' assume kv: "kv \<in> set (cl_streams c)" and I: "?I c'"
    note hp = cl_invD(1) [of n c'] and D = heap_okD(2,4) [OF hp]
    from kv I have "m_find (cl_streams c') (fst kv) = Some (snd kv)"
      by (intro m_find_set D(1)) (simp_all add: closing_def)
    with I D(2) obtain s where "cl_stream_heap c' (snd kv) = Some s" by blast
    from cancel_stream_inv [OF _ this, of n] I
    show "\<exists>c''. cancel_stream (snd kv) c' = Inr c'' \<and> ?I c''" by (auto simp: closing_def quiet_def)
  qed
  then obtain c2 where c2: "rfold (\<lambda>kv. cancel_stream (snd kv)) (cl_streams c) c1 = Inr c2"
    and I2: "?I c2" by blast
  have "heap_ok (c2\<lparr>cl_cq_shut := True\<rparr>) \<longleftrightarrow> heap_ok c2"
    by (rule heap_ok_cong) (simp_all add: smsgs_def)
  with I2 have "cl_inv n (c2\<lparr>cl_cq_shut := True\<rparr>)"
    by (auto simp: cl_inv_def ids_ok_def log_ok_def closing_def)
  moreover from I1 have "cl_streams c1 = cl_streams c" by (simp add: closing_def)
  ultimately show ?thesis using c1 c2 I2 by (simp add: client_shutdown_begin_def Let_def closing_def)
qed

section \<open>Deleting what is left\<close>

lemma delete_streams:
  "distinct (map snd xs) \<Longrightarrow> (\<And>a. a \<in> snd ` set xs \<Longrightarrow> cl_stream_heap c a \<noteq> None) \<Longrightarrow>
   rfold (\<lambda>kv. delete_stream (snd kv)) xs c =
     Inr (c\<lparr>cl_stream_heap := (\<lambda>a. if a \<in> snd ` set xs then None else cl_stream_heap c a)\<rparr>)"
proof (induction xs arbitrary: c)
  case Nil
  then show ?case by simp
next
  case (Cons x xs)
  from Cons.prems(2) [of "snd x"] obtain s where s: "cl_stream_heap c (snd x) = Some s" by auto
  let ?c = "c\<lparr>cl_stream_heap := (cl_stream_heap c)(snd x := None)\<rparr>"
  have "cl_stream_heap ?c a \<noteq> None" if a: "a \<in> snd ` set xs" for a
  proof -
    from Cons.prems(1) a have "a \<noteq> snd x" by (metis distinct.simps(2) list.simps(9) set_map)
    with Cons.prems(2) [of a] a show ?thesis by simp
  qed
  with Cons have IH: "rfold (\<lambda>kv. delete_stream (snd kv)) xs ?c =
     Inr (?c\<lparr>cl_stream_heap := (\<lambda>a. if a \<in> snd ` set xs then None else cl_stream_heap ?c a)\<rparr>)"
    by simp
  have "(\<lambda>a. if a \<in> snd ` set xs then None else cl_stream_heap ?c a) =
      (\<lambda>a. if a \<in> snd ` set (x # xs) then None else cl_stream_heap c a)" by auto
  moreover have "delete_stream (snd x) c = Inr ?c" using s by (simp add: delete_stream_def)
  ultimately show ?case using IH by (simp del: fun_upd_apply)
qed

lemma heap_ok_distinct_streams:
  assumes "heap_ok c"
  shows "distinct (map snd (cl_streams c))"
proof -
  have "inj_on snd (set (cl_streams c))"
  proof (rule inj_onI)
    fix x y assume x: "x \<in> set (cl_streams c)" and y: "y \<in> set (cl_streams c)" and e: "snd x = snd y"
    have *: "m_find (cl_streams c) (fst z) = Some (snd z)" if "z \<in> set (cl_streams c)" for z
      using that by (intro m_find_set heap_okD(2) [OF assms]) simp
    have "m_find (cl_streams c) (fst x) = Some (snd x)" "m_find (cl_streams c) (fst y) = Some (snd x)"
      using * [OF x] * [OF y] by (simp_all add: e)
    then have "fst x = fst y" by (auto simp: heap_okD(4) [OF assms])
    with e show "x = y" by (simp add: prod_eq_iff)
  qed
  moreover have "distinct (cl_streams c)"
    using heap_okD(2) [OF assms] by (simp add: m_ok_def distinct_map)
  ultimately show ?thesis by (simp add: distinct_map)
qed

lemma client_shutdown_end_ok:
  assumes inv: "cl_inv n c" and q: "cl_cq c = []"
  shows "client_shutdown_end c = Inr (c\<lparr>cl_calls := [], cl_streams := [], cl_ready := [],
    cl_call_heap := Map.empty, cl_stream_heap := Map.empty, cl_wake := fst (wake_close (cl_wake c))\<rparr>,
    [wh_r (cl_wake c), wh_w (cl_wake c)])"
proof -
  note hp = cl_invD(1) [OF inv]
  have "cl_call_heap c a = None" for a
    using heap_okD(6) [OF hp, of a _ T_UNARY] q by (cases "cl_call_heap c a") (auto simp: cnt_def)
  then have none: "cl_call_heap c = Map.empty" by auto
  then have calls: "cl_calls c = []"
    using heap_okD(3) [OF hp] by (intro m_find_empty) (metis not_None_eq)
  have all: "a \<in> snd ` set (cl_streams c) \<longleftrightarrow> cl_stream_heap c a \<noteq> None" for a
  proof
    assume "a \<in> snd ` set (cl_streams c)"
    then obtain i where "(i, a) \<in> set (cl_streams c)" by auto
    with heap_okD(2) [OF hp] have "m_find (cl_streams c) i = Some a" by (simp add: m_find_set)
    then show "cl_stream_heap c a \<noteq> None" by (auto simp: heap_okD(4) [OF hp])
  next
    assume "cl_stream_heap c a \<noteq> None"
    then have "\<exists>i. m_find (cl_streams c) i = Some a" by (auto simp: heap_okD(4) [OF hp])
    then show "a \<in> snd ` set (cl_streams c)" by (force dest: m_find_SomeD)
  qed
  let ?c = "c\<lparr>cl_calls := []\<rparr>"
  have "rfold (\<lambda>kv. delete_stream (snd kv)) (cl_streams c) ?c =
      Inr (?c\<lparr>cl_stream_heap := (\<lambda>a. if a \<in> snd ` set (cl_streams c) then None else cl_stream_heap ?c a)\<rparr>)"
    by (rule delete_streams [OF heap_ok_distinct_streams [OF hp]]) (use all in simp)
  also have "(\<lambda>a. if a \<in> snd ` set (cl_streams c) then None else cl_stream_heap ?c a) = Map.empty"
    using all by auto
  finally show ?thesis using calls none cl_invD(4) [OF inv]
    by (simp add: client_shutdown_end_def Let_def wake_close_def wake_ok_def)
qed

text \<open>The whole of \<^verbatim>\<open>client_shutdown\<close>.\<close>

lemma client_shutdown_ok:
  assumes inv: "cl_inv n c" and op: "\<not> cl_closed c" and m: "mset (map fst tcs) = mset (cl_cq c)"
  shows "\<exists>c'. client_shutdown tcs c = Some (Inr (c', [wh_r (cl_wake c), wh_w (cl_wake c)])) \<and> cl_closed c' \<and>
    cl_call_heap c' = Map.empty \<and> cl_stream_heap c' = Map.empty \<and> cl_cq c' = [] \<and>
    cl_calls c' = [] \<and> cl_streams c' = [] \<and> cl_ready c' = [] \<and>
    cl_log c' = cl_log c \<and> wh_r (cl_wake c') = -1 \<and> wh_w (cl_wake c') = -1"
proof -
  from client_shutdown_begin_ok [OF inv] obtain c1 where c1: "client_shutdown_begin c = Inr c1"
    "cl_inv n c1" "closing c c1" "cl_cq_shut c1" by blast
  then have "mset (map fst tcs) = mset (cl_cq c1)" "cl_shutting c1" using m by (simp_all add: closing_def)
  from cl_run_drains [OF c1(2) this(2) c1(4) this(1)] obtain c2 where c2: "cl_run tcs c1 = Some (Inr c2)"
    "cl_inv n c2" "cl_cq c2 = []" "cl_log c2 = cl_log c1" "cl_closed c2 = cl_closed c1"
    "wh_r (cl_wake c2) = wh_r (cl_wake c1)" "wh_w (cl_wake c2) = wh_w (cl_wake c1)" by blast
  with c1 op client_shutdown_end_ok [OF c2(2,3)] show ?thesis
    by (simp add: client_shutdown_def closing_def wake_close_def)
qed

end
