(* ===== verification/Client_System.thy ===== *)
theory Client_System
  imports Client_Shutdown
begin

text \<open>
  The client in its environment: R calls the entry points, the library returns completions in any
  order and at any time, also while R waits inside a poll.  The state carries the client and four
  histories that the code does not have: the events ever queued; every poll, with the batch it took
  out of the deque and what the entry point then returned to R; the messages R handed over for
  sending; and the messages the library handed over with completed reads.  The invariant of the
  client and of the histories holds in every reachable state.
\<close>

section \<open>The system\<close>

datatype cl_call =
    Call_start int call_args string
  | Call_cancel int
  | Stream_start int call_args int int
  | Stream_send int string
  | Stream_writes_done int

definition cl_exec :: "cl_call \<Rightarrow> client option \<Rightarrow> (sexp \<times> client) res" where
  "cl_exec op xp =
     (case op of
        Call_start now args req \<Rightarrow> grpc_r_call_start now xp args req
      | Call_cancel cid \<Rightarrow> grpc_r_call_cancel xp cid
      | Stream_start now args rcap wcap \<Rightarrow> grpc_r_stream_start now xp args rcap wcap
      | Stream_send cid bytes \<Rightarrow> grpc_r_stream_send xp cid bytes
      | Stream_writes_done cid \<Rightarrow> grpc_r_stream_writes_done xp cid)"

text \<open>The message that a successful send adds, with the stream object it goes to.\<close>

definition accepted :: "cl_call \<Rightarrow> sexp \<Rightarrow> client \<Rightarrow> (addr \<times> string) list" where
  "accepted op v c =
     (case op of
        Stream_send cid bytes \<Rightarrow>
          (case m_find (cl_streams c) (u64_of_double cid) of
             None \<Rightarrow> []
           | Some a \<Rightarrow> if v = R_Logical True then [(a, bytes)] else [])
      | _ \<Rightarrow> [])"

text \<open>The messages filled in by a successful read, with the stream they belong to.\<close>

definition cl_filled :: "ctag \<times> completion \<Rightarrow> client \<Rightarrow> (u64 \<times> string list option) list" where
  "cl_filled tc c =
     (if tag_kind (fst tc) = T_READ \<and> cp_ok (snd tc)
      then case cl_stream_heap c (tag_obj (fst tc)) of
             None \<Rightarrow> []
           | Some s \<Rightarrow> [(st_id s, cp_dump (snd tc))]
      else [])"

text \<open>What \<^const>\<open>grpc_r_client_poll\<close> returns to R for a batch.\<close>

definition cl_poll_result :: "mk_char_len \<Rightarrow> cl_event list \<Rightarrow> sexp res" where
  "cl_poll_result mk batch = rbind (cl_events_to_r mk batch) (\<lambda>es. Inr (R_List es None))"

record cl_world =
  w_client :: client
  w_calls :: nat
  w_queued :: "cl_event list"
  w_polls :: "(cl_event list \<times> sexp res) list"
  w_sent :: "(addr \<times> string) list"
  w_reads :: "(u64 \<times> string list option) list"

text \<open>
  The events taken out of the deque so far; those of the polls that returned them to R; and those
  of the polls whose conversion raised an R error instead.
\<close>

definition w_taken :: "cl_world \<Rightarrow> cl_event list" where
  "w_taken w = batches (w_polls w)"

definition w_received :: "cl_world \<Rightarrow> cl_event list" where
  "w_received w = returned_batches (w_polls w)"

definition w_lost :: "cl_world \<Rightarrow> cl_event list" where
  "w_lost w = lost_batches (w_polls w)"

definition cl_enabled :: "ctag \<times> completion \<Rightarrow> client \<Rightarrow> bool" where
  "cl_enabled tc c \<longleftrightarrow> fst tc \<in> set (cl_cq c)"

text \<open>The wait of a poll, and its locked section, as \<^const>\<open>client_poll\<close> composes them.\<close>

definition cl_wait :: "int \<Rightarrow> u64 option \<Rightarrow> (ctag \<times> completion) wait_turn list \<Rightarrow> client \<Rightarrow> client res option" where
  "cl_wait timeout want turns c =
     (if timeout \<noteq> 0 then wait_loop (cl_found want) cl_drain cl_handle cl_wake timeout turns c
      else Some (Inr c))"

text \<open>The same wait, with the messages of the reads that complete meanwhile.\<close>

definition cl_wait_reads ::
  "int \<Rightarrow> u64 option \<Rightarrow> (ctag \<times> completion) wait_turn list \<Rightarrow> client \<Rightarrow>
   (client \<times> (u64 \<times> string list option) list) res option" where
  "cl_wait_reads timeout want turns c =
     (if timeout \<noteq> 0 then observed_wait (cl_found want) cl_drain cl_handle cl_wake cl_filled timeout turns (c, [])
      else Some (Inr (c, [])))"

lemma cl_wait_reads_wait:
  "cl_wait timeout want turns c = map_option (map_sum id fst) (cl_wait_reads timeout want turns c)"
  using wait_loop_observed [of "cl_found want" cl_drain cl_handle cl_wake timeout turns "(c, [])" cl_filled]
  by (simp add: cl_wait_def cl_wait_reads_def)

lemma client_poll_eq:
  "client_poll (Some c) maxn timeout only_id turns =
     (if cl_closed c then Some (Inl (Rf_error ''grpc client is closed''))
      else case cl_wait timeout (map_option u64_of_double only_id) turns c of
             None \<Rightarrow> None
           | Some (Inl e) \<Rightarrow> Some (Inl e)
           | Some (Inr c1) \<Rightarrow> Some (cl_poll_locked (map_option u64_of_double only_id) maxn c1))"
  by (simp add: client_poll_def get_client_def cl_wait_def Let_def)

definition cl_created :: "cl_world \<Rightarrow> bool" where
  "cl_created w \<longleftrightarrow>
     (\<exists>r wr cap o'. r \<ge> 0 \<and> wr \<ge> 0 \<and> 0 < cap \<and>
        grpc_r_client_create (Some (r, wr, cap)) o' = Inr (w_client w)) \<and>
     w_calls w = 0 \<and> w_queued w = [] \<and> w_polls w = [] \<and> w_sent w = [] \<and> w_reads w = []"

inductive cl_step :: "cl_world \<Rightarrow> cl_world \<Rightarrow> bool" where
  called:
    "cl_exec op (Some (w_client w)) = Inr (v, c') \<Longrightarrow>
     cl_step w (w\<lparr>w_client := c', w_calls := w_calls w + 1,
                   w_sent := w_sent w @ accepted op v (w_client w)\<rparr>)"
| completed:
    "cl_enabled tc (w_client w) \<Longrightarrow> cl_handle tc (w_client w) = Inr c' \<Longrightarrow>
     cl_step w (w\<lparr>w_client := c',
                   w_queued := w_queued w @ drop (length (cl_ready (w_client w))) (cl_ready c'),
                   w_reads := w_reads w @ cl_filled tc (w_client w)\<rparr>)"
| polled:
    "\<not> cl_closed (w_client w) \<Longrightarrow> turns_ok cl_enabled cl_drain cl_handle turns (w_client w) \<Longrightarrow>
     cl_wait_reads timeout want turns (w_client w) = Some (Inr (c1, reads)) \<Longrightarrow>
     cl_poll_locked want maxn c1 = Inr (batch, c') \<Longrightarrow>
     cl_step w (w\<lparr>w_client := c',
                   w_queued := w_queued w @ drop (length (cl_ready (w_client w))) (cl_ready c1),
                   w_polls := w_polls w @ [(batch, cl_poll_result mk batch)],
                   w_reads := w_reads w @ reads\<rparr>)"
| closing:
    "\<not> cl_closed (w_client w) \<Longrightarrow> client_shutdown_begin (w_client w) = Inr c' \<Longrightarrow>
     cl_step w (w\<lparr>w_client := c'\<rparr>)"

text \<open>Every poll that returns from its wait is a step, with what the entry point returns to R.\<close>

lemma poll_is_step:
  assumes "turns_ok cl_enabled cl_drain cl_handle turns (w_client w)"
    and "grpc_r_client_poll mk (Some (w_client w)) maxn timeout only_id turns = Some (Inr (r, c'))"
  shows "\<exists>w'. cl_step w w' \<and> w_client w' = c' \<and> (\<exists>batch. w_polls w' = w_polls w @ [(batch, r)])"
proof -
  let ?want = "map_option u64_of_double only_id"
  from assms(2) have op: "\<not> cl_closed (w_client w)"
    by (auto simp: grpc_r_client_poll_def client_poll_eq split: if_splits)
  with assms(2) obtain c1 batch where c1: "cl_wait timeout ?want turns (w_client w) = Some (Inr c1)"
    and b: "cl_poll_locked ?want maxn c1 = Inr (batch, c')" and r: "r = cl_poll_result mk batch"
    by (auto simp: grpc_r_client_poll_def client_poll_eq cl_poll_result_def rbind_Inr_iff
        split: if_splits option.splits sum.splits)
  from c1 obtain reads where "cl_wait_reads timeout ?want turns (w_client w) = Some (Inr (c1, reads))"
    by (auto simp: cl_wait_reads_wait map_sum_Inr_iff)
  from cl_step.polled [OF op assms(1) this b, of mk] r show ?thesis by fastforce
qed

abbreviation cl_reach :: "cl_world \<Rightarrow> bool" where
  "cl_reach \<equiv> reachable cl_created cl_step"

section \<open>What one section does to the set of live calls and to the events\<close>

definition live :: "u64 \<Rightarrow> client \<Rightarrow> bool" where
  "live i c \<longleftrightarrow> m_find (cl_calls c) i \<noteq> None \<or> m_find (cl_streams c) i \<noteq> None"

definition terminal :: "cl_event \<Rightarrow> bool" where
  "terminal e \<longleftrightarrow> ev_kind e = EV_UNARY \<or> ev_kind e = EV_STATUS"

lemma helpers_ready [simp]:
  "cl_ready (fst (s_post_read_locked a p)) = cl_ready (fst p)"
  "cl_ready (fst (s_pump_writes_locked a p)) = cl_ready (fst p)"
  "cl_ready (fst (s_try_finish_locked a p)) = cl_ready (fst p)"
  by (auto simp: s_post_read_locked_def s_pump_writes_locked_def s_try_finish_locked_def cl_post_def
      split_beta)

lemma dispatch_events:
  assumes "cl_dispatch a k cp (c, s) = Inr p" and "k \<noteq> T_UNARY"
  shows "\<exists>evs. cl_ready (fst p) = cl_ready c @ evs \<and> (\<forall>e \<in> set evs. ev_id e = st_id s) \<and>
    (if k = T_FINISH then \<exists>e. evs = [e] \<and> terminal e else \<forall>e \<in> set evs. \<not> terminal e)"
proof (cases k)
  case T_READ
  show ?thesis
  proof (cases "cp_ok cp \<and> \<not> st_broken s")
    case True
    with assms T_READ show ?thesis
      by (intro exI [of _ "[msg_event (st_id s) cp]"])
        (auto simp: cl_dispatch_def run_read_def Let_def terminal_def cl_signal_def cl_push_back_def)
  next
    case False
    with assms T_READ show ?thesis by (auto simp: cl_dispatch_def run_read_def Let_def)
  qed
next
  case T_WRITE
  show ?thesis
  proof (cases "cp_ok cp \<and> \<not> st_broken s \<and> tl (st_write_queue s) = []")
    case True
    with assms T_WRITE show ?thesis
      by (intro exI [of _ "[writable_event (st_id s)]"])
        (auto simp: cl_dispatch_def run_write_def Let_def terminal_def cl_signal_def cl_push_back_def
          split: list.splits)
  next
    case False
    with assms T_WRITE show ?thesis
      by (intro exI [of _ "[]"])
        (auto simp: cl_dispatch_def run_write_def Let_def split: if_splits list.splits)
  qed
next
  case T_FINISH
  with assms show ?thesis
    by (auto simp: cl_dispatch_def run_finish_def Let_def terminal_def cl_signal_def cl_push_back_def)
next
  case T_START
  with assms show ?thesis by (auto simp: cl_dispatch_def run_start_def Let_def)
next
  case T_WDONE
  with assms show ?thesis by (auto simp: cl_dispatch_def run_wdone_def Let_def)
qed (use assms in simp)

text \<open>
  A completion belongs to one live call.  Its events are that call's; either none of them is
  terminal and the call stays live, or there is one terminal event and the call is over.
\<close>

definition call_step :: "u64 \<Rightarrow> cl_event list \<Rightarrow> client \<Rightarrow> client \<Rightarrow> bool" where
  "call_step i evs c c' \<longleftrightarrow>
     live i c \<and> cl_ready c' = cl_ready c @ evs \<and> cl_next_id c' = cl_next_id c \<and>
     (\<forall>e \<in> set evs. ev_id e = i) \<and>
     ((\<forall>e \<in> set evs. \<not> terminal e) \<and> (\<forall>j. live j c' \<longleftrightarrow> live j c) \<or>
      (\<exists>e. evs = [e] \<and> terminal e) \<and> (\<forall>j. live j c' \<longleftrightarrow> live j c \<and> j \<noteq> i))"

lemma live_call: "heap_ok c \<Longrightarrow> cl_call_heap c a = Some cs \<Longrightarrow> m_find (cl_calls c) (cs_id cs) = Some a"
  using heap_okD(3) by blast

lemma live_stream: "heap_ok c \<Longrightarrow> cl_stream_heap c a = Some s \<Longrightarrow> m_find (cl_streams c) (st_id s) = Some a"
  using heap_okD(4) by blast

lemma ids_separate:
  assumes "cl_inv n c"
  shows "m_find (cl_calls c) i = Some a \<Longrightarrow> m_find (cl_streams c) i = None"
    and "m_find (cl_streams c) i = Some b \<Longrightarrow> m_find (cl_calls c) i = None"
proof -
  have no: False if a: "m_find (cl_calls c) i = Some a" and b: "m_find (cl_streams c) i = Some b" for a b
  proof -
    from a b obtain cs s where "cl_call_heap c a = Some cs" "cs_id cs = i" "cl_stream_heap c b = Some s" "st_id s = i"
      by (auto simp: heap_okD(3,4) [OF cl_invD(1) [OF assms]])
    with cl_invD(2) [OF assms] show False unfolding ids_ok_def by metis
  qed
  show "m_find (cl_calls c) i = Some a \<Longrightarrow> m_find (cl_streams c) i = None" using no by fastforce
  show "m_find (cl_streams c) i = Some b \<Longrightarrow> m_find (cl_calls c) i = None" using no by fastforce
qed

lemma unary_call_step:
  assumes inv: "cl_inv n c" and h: "run_unary a cp (next_tag a T_UNARY c) = Inr c'"
  shows "\<exists>i evs. call_step i evs c c'"
proof -
  from h obtain cs where cs: "cl_call_heap c a = Some cs"
    and c': "c' = cl_signal (cl_push_back (unary_event (cs_id cs) cp) (next_tag a T_UNARY c))
      \<lparr>cl_calls := m_erase (cs_id cs) (cl_calls c), cl_call_heap := (cl_call_heap c)(a := None)\<rparr>"
    by (auto simp: run_unary_def rbind_Inr_iff deref_Inr_iff Let_def cl_push_back_def cl_signal_def)
  note lc = live_call [OF cl_invD(1) [OF inv] cs]
  have lv: "live j c' \<longleftrightarrow> live j c \<and> j \<noteq> cs_id cs" for j
    using ids_separate(1) [OF inv lc] by (auto simp: c' live_def cl_push_back_def cl_signal_def)
  have rd: "cl_ready c' = cl_ready c @ [unary_event (cs_id cs) cp]" "cl_next_id c' = cl_next_id c"
    by (simp_all add: c' cl_push_back_def cl_signal_def)
  show ?thesis
    unfolding call_step_def
    by (rule exI [of _ "cs_id cs"], rule exI [of _ "[unary_event (cs_id cs) cp]"])
      (use lv rd lc in \<open>simp add: live_def terminal_def\<close>)
qed

lemma stream_call_step:
  assumes inv: "cl_inv n c" and en: "Ctag a k \<in> set (cl_cq c)" and k: "k \<noteq> T_UNARY"
    and h: "cl_handle (Ctag a k, cp) c = Inr c'"
  shows "\<exists>i evs. call_step i evs c c'"
proof -
  note hp = cl_invD(1) [OF inv]
  from h k obtain s p where s: "cl_stream_heap c a = Some s"
    and p: "cl_dispatch a k cp (next_tag a k c, popped s) = Inr p" and c': "c' = s_maybe_free_locked a p"
    by (auto simp: cl_handle_def rbind_Inr_iff deref_Inr_iff Let_def)
  from dispatch_events [OF p k] obtain evs where
    ev: "cl_ready (fst p) = cl_ready c @ evs" "\<forall>e \<in> set evs. ev_id e = st_id s"
      "if k = T_FINISH then \<exists>e. evs = [e] \<and> terminal e else \<forall>e \<in> set evs. \<not> terminal e" by auto
  from dispatch_frame [OF p] have t: "touches a (st_id s) (next_tag a k c) (fst p)" and i: "st_id (snd p) = st_id s"
    by simp_all
  from en have n: "0 < cnt c a k" by (simp add: cnt_def count_list_pos_iff)
  from dispatch_ok [OF heap_okD(8) [OF hp s] n, of cp] p have
    good: "k \<noteq> T_FINISH \<Longrightarrow> stream_ok a p" and
    fin: "k = T_FINISH \<Longrightarrow> st_pending (snd p) = 0 \<and> st_status_emitted (snd p)"
    by (metis sum.inject(2))+
  note ls = live_stream [OF hp s]
  have e: "(st_pending (snd p) = 0 \<and> st_status_emitted (snd p)) \<longleftrightarrow> k = T_FINISH"
    using fin good by (cases "k = T_FINISH") (auto simp: stream_ok_def stream_core_def stream_wf_def split_beta)
  have lv: "live j c' \<longleftrightarrow> live j c \<and> (k = T_FINISH \<longrightarrow> j \<noteq> st_id s)" for j
    using ids_separate(2) [OF inv ls] touches_frame(1,2) [OF t] i
    by (auto simp: c' s_maybe_free_locked_def split_beta e live_def)
  have rd: "cl_ready c' = cl_ready c @ evs" "cl_next_id c' = cl_next_id c"
    using ev(1) touches_frame(3) [OF t] by (simp_all add: c' s_maybe_free_locked_def split_beta)
  show ?thesis
    unfolding call_step_def
    by (rule exI [of _ "st_id s"], rule exI [of _ evs])
      (use lv rd ls ev(2,3) in \<open>auto simp: live_def split: if_splits\<close>)
qed

lemma handle_call_step:
  assumes inv: "cl_inv n c" and en: "cl_enabled tc c" and h: "cl_handle tc c = Inr c'"
  shows "\<exists>i evs. call_step i evs c c'"
proof -
  obtain a k cp where tc: "tc = (Ctag a k, cp)" by (metis prod.collapse ctag.collapse)
  show ?thesis
  proof (cases "k = T_UNARY")
    case True
    with h tc have "run_unary a cp (next_tag a T_UNARY c) = Inr c'" by (simp add: cl_handle_def)
    with inv show ?thesis by (rule unary_call_step)
  next
    case False
    with inv en h tc show ?thesis by (intro stream_call_step [of n c a k cp]) (auto simp: cl_enabled_def)
  qed
qed

section \<open>The invariant of the histories\<close>

definition of_id :: "u64 \<Rightarrow> cl_event list \<Rightarrow> cl_event list" where
  "of_id i es = filter (\<lambda>e. ev_id e = i) es"

lemma of_id_append [simp]: "of_id i (xs @ ys) = of_id i xs @ of_id i ys"
  by (simp add: of_id_def)

lemma of_id_Nil [simp]: "of_id i [] = []"
  by (simp add: of_id_def)

text \<open>
  \<open>h\<close> are the events ever queued, \<open>d\<close> the ones taken out: per call, what was taken followed by
  what is still queued is what was ever queued; a terminal event is its call's last, and a call is over
  exactly when it has had one.
\<close>

definition hist_ok :: "cl_event list \<Rightarrow> cl_event list \<Rightarrow> client \<Rightarrow> bool" where
  "hist_ok h d c \<longleftrightarrow>
     (\<forall>i. of_id i h = of_id i d @ of_id i (cl_ready c)) \<and>
     (\<forall>e \<in> set h. unat (ev_id e) < unat (cl_next_id c)) \<and>
     (\<forall>pre e post. h = pre @ e # post \<longrightarrow> terminal e \<longrightarrow>
        \<not> live (ev_id e) c \<and> (\<forall>e' \<in> set post. ev_id e' \<noteq> ev_id e)) \<and>
     (\<forall>i. 0 < unat i \<longrightarrow> unat i < unat (cl_next_id c) \<longrightarrow> \<not> live i c \<longrightarrow>
        (\<exists>e \<in> set h. ev_id e = i \<and> terminal e))"

lemma hist_okD:
  assumes "hist_ok h d c"
  shows "of_id i h = of_id i d @ of_id i (cl_ready c)"
    and "e \<in> set h \<Longrightarrow> unat (ev_id e) < unat (cl_next_id c)"
    and "h = pre @ e # post \<Longrightarrow> terminal e \<Longrightarrow> \<not> live (ev_id e) c"
    and "h = pre @ e # post \<Longrightarrow> terminal e \<Longrightarrow> e' \<in> set post \<Longrightarrow> ev_id e' \<noteq> ev_id e"
    and "0 < unat i \<Longrightarrow> unat i < unat (cl_next_id c) \<Longrightarrow> \<not> live i c \<Longrightarrow> \<exists>e \<in> set h. ev_id e = i \<and> terminal e"
  using assms unfolding hist_ok_def by blast+

text \<open>A section that changes neither the deque nor the set of live calls.\<close>

lemma hist_ok_cong:
  assumes "cl_ready c' = cl_ready c" and "cl_next_id c' = cl_next_id c" and "\<And>j. live j c' = live j c"
  shows "hist_ok h d c' = hist_ok h d c"
  by (simp add: hist_ok_def assms)

lemma live_id: "cl_inv n c \<Longrightarrow> live i c \<Longrightarrow> unat i < unat (cl_next_id c)"
  by (auto simp: live_def cl_inv_def heap_ok_def ids_ok_def)

text \<open>A completion.\<close>

lemma hist_ok_call_step:
  assumes hist: "hist_ok h d c" and inv: "cl_inv n c" and st: "call_step i evs c c'"
  shows "hist_ok (h @ evs) d c'"
proof -
  from st have li: "live i c" and rd: "cl_ready c' = cl_ready c @ evs" and nid: "cl_next_id c' = cl_next_id c"
    and ids: "\<And>e. e \<in> set evs \<Longrightarrow> ev_id e = i" and sub: "\<And>j. live j c' \<Longrightarrow> live j c"
    by (auto simp: call_step_def)
  show ?thesis
    unfolding hist_ok_def
  proof (intro conjI allI impI ballI)
    fix j show "of_id j (h @ evs) = of_id j d @ of_id j (cl_ready c')"
      by (simp add: rd hist_okD(1) [OF hist])
  next
    fix e assume "e \<in> set (h @ evs)"
    then show "unat (ev_id e) < unat (cl_next_id c')"
      using hist_okD(2) [OF hist] live_id [OF inv li] ids by (auto simp: nid)
  next
    fix pre e post assume h: "h @ evs = pre @ e # post" and te: "terminal e"
    have old: "\<not> live (ev_id e) c \<and> (\<forall>e' \<in> set us. ev_id e' \<noteq> ev_id e)" if "h = pre @ e # us" for us
      using hist_okD(3,4) [OF hist that te] by blast
    consider us where "h = pre @ e # us" "post = us @ evs" | us where "pre = h @ us" "evs = us @ e # post"
      using h by (auto simp: append_eq_append_conv2 append_eq_Cons_conv)
    then have "\<not> live (ev_id e) c' \<and> (\<forall>e' \<in> set post. ev_id e' \<noteq> ev_id e)"
    proof cases
      case (1 us)
      with old [of us] li ids sub show ?thesis by auto
    next
      case (2 us)
      with te have "e \<in> set evs" "\<not> (\<forall>e \<in> set evs. \<not> terminal e)" by auto
      with st obtain e' where "evs = [e']" "\<not> live i c'" unfolding call_step_def by blast
      with \<open>e \<in> set evs\<close> have "evs = [e]" by simp
      moreover from this 2(2) have "post = []" by (cases us) auto
      ultimately show ?thesis using ids \<open>\<not> live i c'\<close> by simp
    qed
    then show "\<not> live (ev_id e) c'" and "\<And>e'. e' \<in> set post \<Longrightarrow> ev_id e' \<noteq> ev_id e" by blast+
  next
    fix j assume j: "0 < unat j" "unat j < unat (cl_next_id c')" "\<not> live j c'"
    show "\<exists>e \<in> set (h @ evs). ev_id e = j \<and> terminal e"
    proof (cases "live j c")
      case True
      with j st ids show ?thesis by (auto simp: call_step_def)
    next
      case False
      with hist_okD(5) [OF hist] j nid show ?thesis by auto
    qed
  qed
qed

lemma hist_ok_handle:
  assumes "hist_ok h d c" and inv: "cl_inv n c" and "cl_enabled tc c" and "cl_handle tc c = Inr c'"
  shows "hist_ok (h @ drop (length (cl_ready c)) (cl_ready c')) d c'"
proof -
  from handle_call_step [OF assms(2-4)] obtain i evs where st: "call_step i evs c c'" by blast
  then have "drop (length (cl_ready c)) (cl_ready c') = evs" by (simp add: call_step_def)
  with hist_ok_call_step [OF assms(1) inv st] show ?thesis by simp
qed

text \<open>An entry point that starts a call, and one that works on a call that exists.\<close>

lemma exec_live:
  assumes "cl_exec op (Some c) = Inr (v, c')"
  shows "cl_ready c' = cl_ready c \<and>
    (cl_next_id c' = cl_next_id c \<and> (\<forall>j. live j c' = live j c) \<or>
     cl_next_id c' = cl_next_id c + 1 \<and> (\<forall>j. live j c' \<longleftrightarrow> live j c \<or> j = cl_next_id c))"
proof -
  have open': "\<not> cl_closed c" using assms
    by (cases op) (auto simp: cl_exec_def grpc_r_call_start_def grpc_r_stream_start_def grpc_r_call_cancel_def
        grpc_r_stream_send_def grpc_r_stream_writes_done_def get_client_def split: if_splits)
  have store: "cl_ready (cl_store a (s_pump_writes_locked a (c, s))) = cl_ready c \<and>
      cl_next_id (cl_store a (s_pump_writes_locked a (c, s))) = cl_next_id c \<and>
      live j (cl_store a (s_pump_writes_locked a (c, s))) = live j c" for a s j
    by (auto simp: cl_store_def s_pump_writes_locked_def cl_post_def live_def)
  show ?thesis
  proof (cases op)
    case (Call_start now args req)
    with assms open' have "cl_ready c' = cl_ready c" "cl_next_id c' = cl_next_id c + 1"
      "cl_calls c' = m_insert (cl_next_id c) (cl_next_addr c) (cl_calls c)" "cl_streams c' = cl_streams c"
      by (auto simp: cl_exec_def grpc_r_call_start_def get_client_def Let_def cl_post_def)
    then show ?thesis by (simp add: live_def)
  next
    case (Stream_start now args rcap wcap)
    with assms open' have "cl_ready c' = cl_ready c" "cl_next_id c' = cl_next_id c + 1"
      "cl_streams c' = m_insert (cl_next_id c) (cl_next_addr c) (cl_streams c)" "cl_calls c' = cl_calls c"
      by (auto simp: cl_exec_def grpc_r_stream_start_def get_client_def Let_def cl_post_def)
    then show ?thesis by (simp add: live_def)
  next
    case (Call_cancel cid)
    with assms open' show ?thesis
      by (auto simp: cl_exec_def grpc_r_call_cancel_def get_client_def Let_def rbind_Inr_iff cancel_call_def
          cancel_stream_def deref_Inr_iff live_def split: option.splits)
  next
    case (Stream_send cid bytes)
    with assms open' store show ?thesis
      by (auto simp: cl_exec_def grpc_r_stream_send_def get_client_def Let_def rbind_Inr_iff
          split: option.splits if_splits)
  next
    case (Stream_writes_done cid)
    with assms open' store show ?thesis
      by (auto simp: cl_exec_def grpc_r_stream_writes_done_def get_client_def Let_def rbind_Inr_iff
          split: option.splits if_splits)
  qed
qed

lemma hist_ok_exec:
  assumes hist: "hist_ok h d c" and inv: "cl_inv n c" and n: "n < 2 ^ 64 - 2"
    and ex: "cl_exec op (Some c) = Inr (v, c')"
  shows "hist_ok h d c'"
proof -
  note ex = exec_live [OF ex]
  show ?thesis
  proof (cases "cl_next_id c' = cl_next_id c \<and> (\<forall>j. live j c' = live j c)")
    case True
    with hist conjunct1 [OF ex] show ?thesis using hist_ok_cong [of c' c h d] by blast
  next
    case False
    with conjunct2 [OF ex] have new: "cl_next_id c' = cl_next_id c + 1 \<and>
      (\<forall>j. live j c' \<longleftrightarrow> live j c \<or> j = cl_next_id c)" by argo
    note 2 = conjunct1 [OF ex] conjunct1 [OF new] conjunct2 [OF new, rule_format]
    have nid: "unat (cl_next_id c') = unat (cl_next_id c) + 1"
      unfolding 2(2) by (rule next_id_step [OF cl_invD(2) [OF inv] n])
    show ?thesis
      unfolding hist_ok_def 2(1) nid
    proof (intro conjI allI impI ballI)
      fix e assume "e \<in> set h"
      from hist_okD(2) [OF hist this] show "unat (ev_id e) < unat (cl_next_id c) + 1" by simp
    next
      fix pre e post assume h: "h = pre @ e # post" and te: "terminal e"
      then have "ev_id e \<noteq> cl_next_id c" using hist_okD(2) [OF hist, of e] by auto
      then show "\<not> live (ev_id e) c'" using hist_okD(3) [OF hist h te] by (simp add: 2(3))
      fix e' assume "e' \<in> set post"
      then show "ev_id e' \<noteq> ev_id e" by (rule hist_okD(4) [OF hist h te])
    next
      fix j assume j: "0 < unat j" "unat j < unat (cl_next_id c) + 1" "\<not> live j c'"
      then have "unat j \<noteq> unat (cl_next_id c)" by (auto simp: 2(3) word_unat_eq_iff)
      with j show "\<exists>e \<in> set h. ev_id e = j \<and> terminal e"
        by (intro hist_okD(5) [OF hist]) (simp_all add: 2(3))
    qed (rule hist_okD(1) [OF hist])
  qed
qed

section \<open>Polling and closing\<close>

definition cl_extends :: "client \<Rightarrow> client \<Rightarrow> bool" where
  "cl_extends c c' \<longleftrightarrow> (\<exists>evs. cl_ready c' = cl_ready c @ evs) \<and>
     cl_closed c' = cl_closed c \<and> cl_shutting c' = cl_shutting c"

text \<open>The invariant while a poll waits: \<open>k\<close> events were queued when it started.\<close>

definition wait_inv :: "nat \<Rightarrow> cl_event list \<Rightarrow> cl_event list \<Rightarrow> nat \<Rightarrow> client \<Rightarrow> bool" where
  "wait_inv n h d k c \<longleftrightarrow>
     cl_inv n c \<and> k \<le> length (cl_ready c) \<and> hist_ok (h @ drop k (cl_ready c)) d c"

lemma advances_signals:
  assumes "advances c c'" and "wake_ok (cl_wake c)"
  shows "wake_ok (cl_wake c')"
    and "cl_ready c' \<noteq> cl_ready c \<Longrightarrow> wake_readable (cl_wake c')"
    and "wake_readable (cl_wake c) \<Longrightarrow> wake_readable (cl_wake c')"
proof -
  from assms(1) obtain evs where rd: "cl_ready c' = cl_ready c @ evs"
    and wk: "cl_wake c' = (wake_signal ^^ length evs) (cl_wake c)"
    unfolding advances_def by blast
  show "wake_ok (cl_wake c')" by (simp add: wk wake_ok_signals assms(2))
  have sig: "wake_readable ((wake_signal ^^ Suc m) (cl_wake c))" for m
    by (simp add: upipe.signal_readable wake_ok_signals assms(2))
  show "wake_readable (cl_wake c')" if "cl_ready c' \<noteq> cl_ready c"
    using that sig rd wk by (cases evs) auto
  show "wake_readable (cl_wake c')" if "wake_readable (cl_wake c)"
    using that sig wk by (cases evs) auto
qed

lemma wait_inv_handle:
  assumes w: "wait_inv n h d k c" and en: "cl_enabled tc c"
  shows "\<exists>c'. cl_handle tc c = Inr c' \<and> wait_inv n h d k c'"
proof -
  from w have inv: "cl_inv n c" and k: "k \<le> length (cl_ready c)"
    and hist: "hist_ok (h @ drop k (cl_ready c)) d c" by (simp_all add: wait_inv_def)
  from cl_handle_inv [OF inv, of tc] en obtain c' where c': "cl_handle tc c = Inr c'" "cl_inv n c'" "advances c c'"
    by (auto simp: cl_enabled_def)
  from c'(3) obtain evs where "cl_ready c' = cl_ready c @ evs" by (auto simp: advances_def)
  with hist_ok_handle [OF hist inv en c'(1)] c' k show ?thesis by (auto simp: wait_inv_def)
qed

interpretation clq: safe_queue "cl_found want" cl_drain cl_handle cl_wake "\<lambda>c. wake_ok (cl_wake c)"
  cl_enabled "wait_inv n h d k" cl_extends for want n h d k
proof unfold_locales
  fix c c' t
  show "cl_found want (cl_drain c) \<longleftrightarrow> cl_found want c" by (simp add: cl_found_def cl_drain_def)
  show "wake_ok (cl_wake c) \<Longrightarrow> wake_ok (cl_wake (cl_drain c))" by (simp add: cl_drain_def upipe.ok_drain)
  show "wake_ok (cl_wake c) \<Longrightarrow> cl_handle t c = Inr c' \<Longrightarrow> wake_ok (cl_wake c')"
    using cl_handle_advances(1) advances_signals(1) by blast
  show "wake_ok (cl_wake c) \<Longrightarrow> cl_handle t c = Inr c' \<Longrightarrow> cl_found want c' \<Longrightarrow> \<not> cl_found want c \<Longrightarrow>
      wake_readable (cl_wake c')"
    using cl_handle_advances(1) [of t c c'] advances_signals(2) [of c c']
    by (cases "cl_ready c' = cl_ready c") (auto simp: cl_found_def)
  show "cl_found want c \<Longrightarrow> cl_handle t c = Inr c' \<Longrightarrow> cl_found want c'"
    using cl_handle_advances(1) [of t c c'] by (auto simp: cl_found_def advances_def have_match_def)
  show "wake_ok (cl_wake c) \<Longrightarrow> cl_handle t c = Inr c' \<Longrightarrow> wake_readable (cl_wake c) \<Longrightarrow> wake_readable (cl_wake c')"
    using cl_handle_advances(1) advances_signals(3) by blast
  show "wait_inv n h d k c \<Longrightarrow> wait_inv n h d k (cl_drain c)"
    using cl_drain_inv [of n c] hist_ok_cong [of "cl_drain c" c]
    by (simp add: wait_inv_def cl_drain_def live_def)
  show "wait_inv n h d k c \<Longrightarrow> cl_enabled t c \<Longrightarrow> \<exists>c'. cl_handle t c = Inr c' \<and> wait_inv n h d k c'"
    by (rule wait_inv_handle)
  show "cl_handle t c = Inr c' \<Longrightarrow> cl_extends c c'"
    using cl_handle_advances(1) [of t c c'] by (auto simp: cl_extends_def advances_def)
qed (auto simp: cl_extends_def cl_drain_def)

text \<open>The locked section of a poll keeps the set of live calls and the ids.\<close>

lemma cl_taken_frame:
  "cl_taken ev c = Inr c' \<Longrightarrow> cl_calls c' = cl_calls c \<and> cl_streams c' = cl_streams c \<and> cl_next_id c' = cl_next_id c"
  by (auto simp: cl_taken_def rbind_Inr_iff Let_def cl_store_def s_post_read_locked_def cl_post_def
      split: if_splits option.splits)

lemma cl_batch_loop_frame:
  "cl_batch_loop only_id maxn batch pre it c = Inr (b, c') \<Longrightarrow>
   cl_calls c' = cl_calls c \<and> cl_streams c' = cl_streams c \<and> cl_next_id c' = cl_next_id c"
proof (induction it arbitrary: batch pre c)
  case Nil
  then show ?case by simp
next
  case (Cons ev it)
  then show ?case
    by (fastforce simp: rbind_Inr_iff dest: cl_taken_frame split: if_splits)
qed

lemma cl_poll_locked_frame:
  "cl_poll_locked only_id maxn c = Inr (b, c') \<Longrightarrow> live j c' = live j c \<and> cl_next_id c' = cl_next_id c"
  by (auto simp: cl_poll_locked_def Let_def rbind_Inr_iff cl_drain_def cl_signal_def live_def
      dest!: cl_batch_loop_frame split: if_splits)

lemma hist_ok_poll:
  assumes inv: "cl_inv n c" and hist: "hist_ok h d c" and p: "cl_poll_locked only_id maxn c = Inr (b, c')"
  shows "hist_ok h (d @ b) c'"
proof -
  let ?t = "take_matching (matches ev_id only_id) (nat maxn) (cl_ready c)"
  from cl_poll_locked_ok [OF inv, of only_id maxn] p have bt: "b = fst ?t" "cl_ready c' = snd ?t" by auto
  have "of_id i (fst ?t) @ of_id i (snd ?t) = of_id i (cl_ready c)" for i
    unfolding of_id_def by (rule take_matching_order)
  with hist show ?thesis by (simp add: hist_ok_def bt cl_poll_locked_frame [OF p])
qed

section \<open>The invariant holds in every reachable state\<close>

definition world_ok :: "cl_world \<Rightarrow> bool" where
  "world_ok w \<longleftrightarrow> cl_inv (w_calls w) (w_client w) \<and> armed (w_client w) \<and>
     hist_ok (w_queued w) (w_taken w) (w_client w)"

lemma armed_advances: "advances c c' \<Longrightarrow> wake_ok (cl_wake c) \<Longrightarrow> armed c \<Longrightarrow> armed c'"
  using advances_signals(2,3) [of c c'] by (fastforce simp: armed_def advances_def)

lemma armed_quiet: "quiet c c' \<Longrightarrow> armed c' = armed c"
  by (simp add: armed_def quiet_def)

lemma exec_open: "cl_exec op (Some c) = Inr r \<Longrightarrow> \<not> cl_closed c"
  by (cases op) (auto simp: cl_exec_def grpc_r_call_start_def grpc_r_stream_start_def grpc_r_call_cancel_def
      grpc_r_stream_send_def grpc_r_stream_writes_done_def get_client_def split: if_splits)

lemma cl_inv_Suc: "cl_inv n c \<Longrightarrow> cl_inv (Suc n) c"
  by (rule cl_inv_mono [of n c "Suc n"]) simp_all

lemma exec_ok:
  assumes "cl_inv n c" and "\<not> cl_closed c" and "n < 2 ^ 64 - 2"
  shows "\<exists>v c'. cl_exec op (Some c) = Inr (v, c') \<and> cl_inv (Suc n) c' \<and> quiet c c'"
proof (cases op)
  case (Call_start now args req)
  with call_start_inv [OF assms, of now args req] show ?thesis by (simp add: cl_exec_def)
next
  case (Stream_start now args rcap wcap)
  with stream_start_inv [OF assms, of now args rcap wcap] show ?thesis by (simp add: cl_exec_def)
next
  case (Call_cancel cid)
  with call_cancel_inv [OF assms(1,2), of cid] show ?thesis
    by (auto simp: cl_exec_def intro: cl_inv_Suc)
next
  case (Stream_send cid bytes)
  with stream_send_inv [OF assms(1,2), of cid bytes] show ?thesis
    by (auto simp: cl_exec_def intro: cl_inv_Suc)
next
  case (Stream_writes_done cid)
  with writes_done_inv [OF assms(1,2), of cid] show ?thesis
    by (auto simp: cl_exec_def intro: cl_inv_Suc)
qed

lemma cl_wait_ok:
  assumes "cl_inv n c" and "hist_ok h d c" and "turns_ok cl_enabled cl_drain cl_handle turns c"
  shows "cl_wait timeout want turns c = None \<or>
    (\<exists>c1. cl_wait timeout want turns c = Some (Inr c1) \<and> cl_inv n c1 \<and>
       hist_ok (h @ drop (length (cl_ready c)) (cl_ready c1)) d c1 \<and> cl_extends c c1)"
proof -
  have "wait_inv n h d (length (cl_ready c)) c" using assms by (simp add: wait_inv_def)
  from clq.wait_safe [OF this assms(3), of want timeout] assms show ?thesis
    by (auto simp: cl_wait_def wait_inv_def cl_extends_def)
qed

lemma create_fields:
  assumes "grpc_r_client_create (Some (r, wr, cap)) o' = Inr c" and "r \<ge> 0" and "wr \<ge> 0" and "0 < cap"
  shows "cl_calls c = []" "cl_streams c = []" "cl_ready c = []" "cl_next_id c = 1" "\<not> cl_closed c"
    "\<not> cl_shutting c" "cl_call_heap c = Map.empty" "cl_stream_heap c = Map.empty" "cl_cq c = []"
    "\<not> cl_cq_shut c" "cl_log c = []" "wake_ok (cl_wake c)" "\<not> wake_readable (cl_wake c)"
  using assms
  by (auto simp: grpc_r_client_create_def Let_def wake_open_def wake_handle_init_def wake_ok_def wake_readable_def)

lemma created_ok:
  assumes "cl_created w"
  shows "world_ok w"
proof -
  from assms obtain r wr cap o' where "grpc_r_client_create (Some (r, wr, cap)) o' = Inr (w_client w)"
    "r \<ge> 0" "wr \<ge> 0" "0 < cap" by (auto simp: cl_created_def)
  note f = create_fields [OF this]
  from assms show ?thesis
    by (auto simp: cl_created_def world_ok_def cl_inv_def heap_ok_def ids_ok_def log_ok_def armed_def
        hist_ok_def live_def cnt_def w_taken_def f)
qed

lemma world_step:
  assumes ok: "world_ok w" and st: "cl_step w w'" and n: "w_calls w' < 2 ^ 64 - 1"
  shows "world_ok w'"
proof -
  from ok have inv: "cl_inv (w_calls w) (w_client w)" and arm: "armed (w_client w)"
    and hist: "hist_ok (w_queued w) (w_taken w) (w_client w)" by (simp_all add: world_ok_def)
  from st show ?thesis
  proof cases
    case (called op v c')
    then have n': "w_calls w < 2 ^ 64 - 2" using n by simp
    from exec_ok [OF inv exec_open [OF called(2)] n', of op] called(2)
    have "cl_inv (Suc (w_calls w)) c'" "quiet (w_client w) c'" by auto
    with hist_ok_exec [OF hist inv n' called(2)] arm armed_quiet called(1) show ?thesis
      by (simp add: world_ok_def w_taken_def)
  next
    case (completed tc c')
    from cl_handle_inv [OF inv, of tc] completed have "cl_inv (w_calls w) c'" "advances (w_client w) c'"
      by (auto simp: cl_enabled_def)
    with hist_ok_handle [OF hist inv completed(2,3)] armed_advances [OF _ cl_invD(4) [OF inv] arm] completed(1)
    show ?thesis by (simp add: world_ok_def w_taken_def)
  next
    case (polled turns timeout want c1 reads maxn batch c' mk)
    from cl_wait_ok [OF inv hist polled(3), of timeout want] polled(4) have inv1: "cl_inv (w_calls w) c1"
      and h1: "hist_ok (w_queued w @ drop (length (cl_ready (w_client w))) (cl_ready c1)) (w_taken w) c1"
      by (auto simp: cl_wait_reads_wait)
    from cl_poll_locked_ok [OF inv1, of want maxn] polled(5) have "cl_inv (w_calls w) c'" "armed c'" by auto
    with hist_ok_poll [OF inv1 h1 polled(5)] polled(1) show ?thesis by (simp add: world_ok_def w_taken_def)
  next
    case (closing c')
    from client_shutdown_begin_ok [OF inv] closing(3) have c: "cl_inv (w_calls w) c'"
      "Client_Shutdown.closing (w_client w) c'" by auto
    then have "armed c'" using arm by (simp add: armed_def closing_def)
    moreover have "hist_ok (w_queued w) (w_taken w) c'"
      using hist hist_ok_cong [of c' "w_client w"] c(2) by (simp add: closing_def live_def)
    ultimately show ?thesis using c(1) closing(1) by (simp add: world_ok_def w_taken_def)
  qed
qed

interpretation clw: bounded_system cl_created cl_step w_calls "2 ^ 64 - 1" world_ok
proof unfold_locales
  fix w w'
  show "cl_step w w' \<Longrightarrow> w_calls w \<le> w_calls w'" by (auto elim: cl_step.cases)
  show "cl_created w \<Longrightarrow> world_ok w" by (rule created_ok)
  show "world_ok w \<Longrightarrow> cl_step w w' \<Longrightarrow> w_calls w' < 2 ^ 64 - 1 \<Longrightarrow> world_ok w'" by (rule world_step)
qed

end
