(* ===== verification/Client_Correct.thy ===== *)
theory Client_Correct
  imports Client_System
begin

text \<open>
  The properties of the client in every reachable state of the system of \<^verbatim>\<open>Client_System\<close>, each
  with a concrete run to which it applies.
\<close>

section \<open>Concrete runs\<close>

text \<open>The steps of the system as functions; a step that is not possible changes nothing.\<close>

definition do_call :: "cl_call \<Rightarrow> cl_world \<Rightarrow> cl_world" where
  "do_call op w =
     (case cl_exec op (Some (w_client w)) of
        Inl e \<Rightarrow> w
      | Inr (v, c') \<Rightarrow> w\<lparr>w_client := c', w_calls := w_calls w + 1,
                         w_sent := w_sent w @ accepted op v (w_client w)\<rparr>)"

definition do_complete :: "ctag \<Rightarrow> completion \<Rightarrow> cl_world \<Rightarrow> cl_world" where
  "do_complete t cp w =
     (if t \<in> set (cl_cq (w_client w))
      then case cl_handle (t, cp) (w_client w) of
             Inl e \<Rightarrow> w
           | Inr c' \<Rightarrow> w\<lparr>w_client := c',
                         w_queued := w_queued w @ drop (length (cl_ready (w_client w))) (cl_ready c'),
                         w_reads := w_reads w @ cl_filled (t, cp) (w_client w)\<rparr>
      else w)"

text \<open>An \<^verbatim>\<open>Rf_mkCharLen\<close> that raises on an embedded NUL.\<close>

definition mk_char_nul :: mk_char_len where
  "mk_char_nul s n = (if CHR 0x00 \<in> set s then Inl (Rf_error ''embedded nul in string'') else Inr s)"

definition do_poll :: "u64 option \<Rightarrow> int \<Rightarrow> cl_world \<Rightarrow> cl_world" where
  "do_poll want maxn w =
     (if cl_closed (w_client w) then w
      else case cl_poll_locked want maxn (w_client w) of
             Inl e \<Rightarrow> w
           | Inr (batch, c') \<Rightarrow> w\<lparr>w_client := c', w_queued := w_queued w @ [],
                                 w_polls := w_polls w @ [(batch, cl_poll_result mk_char_nul batch)],
                                 w_reads := w_reads w @ []\<rparr>)"

lemma reach_do_call:
  assumes "cl_reach w"
  shows "cl_reach (do_call op w)"
proof (cases "cl_exec op (Some (w_client w))")
  case (Inl e)
  with assms show ?thesis by (simp add: do_call_def)
next
  case (Inr p)
  then have "cl_exec op (Some (w_client w)) = Inr (fst p, snd p)" by simp
  from reachable.step [OF assms cl_step.called [OF this]] Inr show ?thesis
    by (simp add: do_call_def split_beta)
qed

lemma reach_do_complete:
  assumes "cl_reach w"
  shows "cl_reach (do_complete t cp w)"
proof (cases "cl_handle (t, cp) (w_client w)")
  case (Inl e)
  with assms show ?thesis by (simp add: do_complete_def)
next
  case (Inr c')
  have "cl_enabled (t, cp) (w_client w)" if "t \<in> set (cl_cq (w_client w))" using that by (simp add: cl_enabled_def)
  from reachable.step [OF assms cl_step.completed [OF this Inr]] Inr assms show ?thesis
    by (simp add: do_complete_def)
qed

lemma reach_do_poll:
  assumes "cl_reach w"
  shows "cl_reach (do_poll want maxn w)"
proof (cases "\<exists>batch c'. cl_poll_locked want maxn (w_client w) = Inr (batch, c') \<and> \<not> cl_closed (w_client w)")
  case True
  then obtain batch c' where b: "cl_poll_locked want maxn (w_client w) = Inr (batch, c')"
    and op: "\<not> cl_closed (w_client w)" by blast
  from cl_step.polled [OF op _ _ b, of "[]" 0 "[]" mk_char_nul] have "cl_step w (do_poll want maxn w)"
    using b op by (simp add: cl_wait_reads_def do_poll_def)
  with assms show ?thesis by (rule reachable.step)
next
  case False
  with assms show ?thesis by (auto simp: do_poll_def split: sum.split)
qed

definition demo_opts :: client_opts where
  "demo_opts = \<lparr>co_target = ''localhost:1'', co_tls = False, co_ca = None, co_cert = None, co_key = None,
     co_override = None, co_keepalive_ms = None, co_keepalive_timeout_ms = None\<rparr>"

definition demo_args :: call_args where
  "demo_args = \<lparr>ca_method = ''/s/m'', ca_deadline_ms = None, ca_metadata = None, ca_wait_for_ready = False\<rparr>"

definition demo_completion :: "bool \<Rightarrow> string \<Rightarrow> completion" where
  "demo_completion ok bytes = \<lparr>cp_ok = ok, cp_dump = Some [bytes], cp_code = 0, cp_message = [],
     cp_initial_md = [], cp_trailing_md = []\<rparr>"

definition demo_world :: cl_world where
  "demo_world =
     \<lparr>w_client = \<lparr>cl_channel = \<lparr>cc_target = ''localhost:1'', cc_creds = Insecure, cc_override = None, cc_args = []\<rparr>,
        cl_wake = \<lparr>wh_r = 3, wh_w = 4, wh_buffered = 0, wh_capacity = 64\<rparr>, cl_calls = [], cl_streams = [],
        cl_ready = [], cl_next_id = 1, cl_closed = False, cl_shutting = False, cl_call_heap = Map.empty,
        cl_stream_heap = Map.empty, cl_next_addr = 0, cl_cq = [], cl_cq_shut = False, cl_log = []\<rparr>,
      w_calls = 0, w_queued = [], w_polls = [], w_sent = [], w_reads = []\<rparr>"

lemma reach_demo_world: "cl_reach demo_world"
proof (rule reachable.init)
  have "grpc_r_client_create (Some (3, 4, 64)) demo_opts = Inr (w_client demo_world)"
    by (simp add: grpc_r_client_create_def demo_world_def demo_opts_def wake_open_def wake_handle_init_def
        client_channel_args_def chr_or_empty_def c_str_def)
  moreover have "(3::int) \<ge> 0 \<and> (4::int) \<ge> 0 \<and> (0::nat) < 64" by simp
  ultimately have "\<exists>r wr cap o'. r \<ge> 0 \<and> wr \<ge> 0 \<and> 0 < cap \<and>
      grpc_r_client_create (Some (r, wr, cap)) o' = Inr (w_client demo_world)" by blast
  then show "cl_created demo_world" by (simp add: cl_created_def demo_world_def)
qed

text \<open>
  A stream with room for one unread message and two queued sends: it is started, R sends two
  messages, and a first message arrives.
\<close>

definition demo_stream :: cl_world where
  "demo_stream =
     do_complete (Ctag 0 T_READ) (demo_completion True ''m1'')
       (do_call (Stream_send 1 ''b'')
         (do_call (Stream_send 1 ''a'')
           (do_complete (Ctag 0 T_START) (demo_completion True [])
             (do_call (Stream_start 0 demo_args 1 2) demo_world))))"

lemmas demo_reach = reach_do_call reach_do_complete reach_do_poll reach_demo_world

lemma reach_demo_stream: "cl_reach demo_stream"
  unfolding demo_stream_def by (intro demo_reach)

lemmas demo_defs = demo_world_def do_call_def do_complete_def do_poll_def demo_args_def demo_completion_def
  cl_exec_def accepted_def grpc_r_call_start_def grpc_r_stream_start_def grpc_r_stream_send_def
  grpc_r_stream_writes_done_def get_client_def stream_state_init_def cl_post_def cl_handle_def
  cl_dispatch_def run_unary_def run_start_def run_read_def run_write_def run_wdone_def run_finish_def
  s_post_read_locked_def s_pump_writes_locked_def s_try_finish_locked_def s_maybe_free_locked_def
  cl_push_back_def cl_signal_def cl_store_def m_insert_def m_find_def m_erase_def u64_of_double_def

text \<open>The same stream without sends: nothing is outstanding, the message waits for R.\<close>

definition demo_throttled :: cl_world where
  "demo_throttled =
     do_complete (Ctag 0 T_READ) (demo_completion True ''m1'')
       (do_complete (Ctag 0 T_START) (demo_completion True [])
         (do_call (Stream_start 0 demo_args 1 2) demo_world))"

lemma reach_demo_throttled: "cl_reach demo_throttled"
  unfolding demo_throttled_def by (intro demo_reach)

lemma demo_stream_calls: "w_calls demo_stream < 2 ^ 64 - 1" "w_calls demo_stream < 2 ^ 64 - 2"
  by (simp_all add: demo_stream_def demo_defs Let_def)

lemma demo_throttled_calls: "w_calls demo_throttled < 2 ^ 64 - 1"
  by (simp add: demo_throttled_def demo_defs Let_def)

lemma demo_stream_object:
  "\<exists>s. cl_stream_heap (w_client demo_stream) 0 = Some s \<and> st_read_cap s = 1 \<and> st_write_cap s = 2 \<and> st_unread s = 1"
  by (simp add: demo_stream_def demo_defs Let_def)

lemma demo_throttled_object:
  "\<exists>s. cl_stream_heap (w_client demo_throttled) 0 = Some s \<and> st_read_cap s = 1"
  by (simp add: demo_throttled_def demo_defs Let_def)

text \<open>One unary call.\<close>

definition demo_unary :: cl_world where
  "demo_unary = do_call (Call_start 0 demo_args ''req'') demo_world"

lemma reach_demo_unary: "cl_reach demo_unary"
  unfolding demo_unary_def by (intro demo_reach)

lemma reach_inv:
  assumes "cl_reach w" and "w_calls w < 2 ^ 64 - 1"
  shows "cl_inv (w_calls w) (w_client w)" and "armed (w_client w)"
    and "hist_ok (w_queued w) (w_taken w) (w_client w)"
  using clw.reachable_inv [OF assms] by (simp_all add: world_ok_def)

text \<open>The tags of one object, whatever it is.\<close>

lemma object_tags:
  assumes inv: "cl_inv n c"
  shows "cnt c a k \<le> 1"
    and "0 < cnt c a k \<Longrightarrow> 0 < cnt c a k' \<Longrightarrow> k \<in> {T_START, T_FINISH, T_UNARY} \<Longrightarrow> k' = k"
    and "\<not> (0 < cnt c a T_WRITE \<and> 0 < cnt c a T_WDONE)"
proof -
  note hp = cl_invD(1) [OF inv]
  consider (call) cs where "cl_call_heap c a = Some cs" | (stream) s where "cl_stream_heap c a = Some s"
    | (free) "cl_call_heap c a = None" "cl_stream_heap c a = None" by (metis not_None_eq)
  then have "(\<forall>k. cnt c a k \<le> 1) \<and>
    (\<forall>k k'. 0 < cnt c a k \<longrightarrow> 0 < cnt c a k' \<longrightarrow> k \<in> {T_START, T_FINISH, T_UNARY} \<longrightarrow> k' = k) \<and>
    \<not> (0 < cnt c a T_WRITE \<and> 0 < cnt c a T_WDONE)"
  proof cases
    case call
    with heap_okD(6) [OF hp call] show ?thesis by simp
  next
    case (stream s)
    have "stream_wf s" "stream_tags (cnt c a) s"
      using heap_okD(8) [OF hp stream] by (simp_all add: stream_ok_def stream_core_def)
    then have "cnt c a k \<le> 1" "0 < cnt c a k \<Longrightarrow> 0 < cnt c a k' \<Longrightarrow> k \<in> {T_START, T_FINISH, T_UNARY} \<Longrightarrow> k' = k"
      "\<not> (0 < cnt c a T_WRITE \<and> 0 < cnt c a T_WDONE)" for k k'
      by (cases k; cases k'; clarsimp simp: stream_tags_def stream_wf_def)+
    then show ?thesis by blast
  next
    case free
    then show ?thesis by (simp add: heap_okD(9) [OF hp])
  qed
  then show "cnt c a k \<le> 1"
    and "0 < cnt c a k \<Longrightarrow> 0 < cnt c a k' \<Longrightarrow> k \<in> {T_START, T_FINISH, T_UNARY} \<Longrightarrow> k' = k"
    and "\<not> (0 < cnt c a T_WRITE \<and> 0 < cnt c a T_WDONE)" by blast+
qed

text \<open>A stream that waits for no completion is full of messages R has not taken.\<close>

lemma idle_stream_full:
  assumes "stream_ok a (c, s)" and "\<not> cl_shutting c" and "\<And>k. cnt c a k = 0"
  shows "st_read_cap s \<le> int (smsgs c (st_id s))"
  using assms
  by (clarsimp simp: stream_ok_def stream_core_def stream_tags_def stream_live_def reads_flow_def
      finish_flow_def stream_wf_def)

section \<open>Memory safety under every interleaving\<close>

text \<open>
  C1: Whatever R and the library have done so far, no next section of the client dereferences a
  deleted object or pops an empty deque: every outstanding completion is handled, every entry
  point of an open client returns to R (and one of a closed client raises exactly the documented
  error), a poll ends well or goes on waiting whatever completions arrive meanwhile, and the
  shutdown can begin.  The bound on the number of calls is the range of the 64-bit ids.
\<close>

theorem client_never_faults:
  assumes "cl_reach w" and "w_calls w < 2 ^ 64 - 2" and "c = w_client w"
  shows "(\<forall>tc. fst tc \<in> set (cl_cq c) \<longrightarrow> (\<exists>c'. cl_handle tc c = Inr c')) \<and>
    (\<forall>op. if cl_closed c then cl_exec op (Some c) = Inl (Rf_error ''grpc client is closed'')
          else \<exists>v c'. cl_exec op (Some c) = Inr (v, c')) \<and>
    (\<forall>maxn timeout only_id turns. \<not> cl_closed c \<longrightarrow> turns_ok cl_enabled cl_drain cl_handle turns c \<longrightarrow>
       client_poll (Some c) maxn timeout only_id turns = None \<or>
       (\<exists>batch c'. client_poll (Some c) maxn timeout only_id turns = Some (Inr (batch, c')))) \<and>
    (\<exists>c'. client_shutdown_begin c = Inr c')"
proof (intro conjI allI impI)
  from assms have n: "w_calls w < 2 ^ 64 - 1" by simp
  note inv = reach_inv [OF assms(1) n, folded assms(3)]
  show "\<exists>c'. cl_handle tc c = Inr c'" if "fst tc \<in> set (cl_cq c)" for tc
    using cl_handle_inv [OF inv(1) that] by blast
  show "if cl_closed c then cl_exec op (Some c) = Inl (Rf_error ''grpc client is closed'')
      else \<exists>v c'. cl_exec op (Some c) = Inr (v, c')" for op
  proof (cases "cl_closed c")
    case True
    then show ?thesis
      by (cases op) (simp_all add: cl_exec_def grpc_r_call_start_def grpc_r_stream_start_def
          grpc_r_call_cancel_def grpc_r_stream_send_def grpc_r_stream_writes_done_def get_client_def)
  next
    case False
    with exec_ok [OF inv(1) False assms(2), of op] show ?thesis by auto
  qed
  show "client_poll (Some c) maxn timeout only_id turns = None \<or>
      (\<exists>batch c'. client_poll (Some c) maxn timeout only_id turns = Some (Inr (batch, c')))"
    if "\<not> cl_closed c" and t: "turns_ok cl_enabled cl_drain cl_handle turns c" for maxn timeout only_id turns
  proof -
    let ?w = "map_option u64_of_double only_id"
    from cl_wait_ok [OF inv(1,3) t, of timeout ?w] show ?thesis
    proof (elim disjE exE conjE)
      fix c1 assume "cl_wait timeout ?w turns c = Some (Inr c1)" "cl_inv (w_calls w) c1"
      with cl_poll_locked_ok [of _ c1 ?w maxn] that(1) show ?thesis by (fastforce simp: client_poll_eq)
    qed (simp add: client_poll_eq that(1))
  qed
  show "\<exists>c'. client_shutdown_begin c = Inr c'" using client_shutdown_begin_ok [OF inv(1)] by blast
qed

theorem client_never_faults_witness:
  "\<exists>c'. cl_handle (Ctag 0 T_WRITE, demo_completion False []) (w_client demo_stream) = Inr c'"
proof -
  have "fst (Ctag 0 T_WRITE, demo_completion False []) \<in> set (cl_cq (w_client demo_stream))"
    by (simp add: demo_stream_def demo_defs Let_def)
  with conjunct1 [OF client_never_faults [OF reach_demo_stream demo_stream_calls(2) refl]] show ?thesis
    by blast
qed

section \<open>Operations on the library\<close>

text \<open>
  C3: The rules of the asynchronous API are kept: at most one operation of each kind is outstanding
  per stream or call, nothing is outstanding beside a Finish or before the call has started, a
  Write and a WritesDone are never outstanding together, every outstanding tag belongs to an
  object that is still allocated, and no operation was ever started after the completion queue had
  been shut down.
\<close>

theorem client_operation_discipline:
  assumes "cl_reach w" and "w_calls w < 2 ^ 64 - 1" and "c = w_client w"
  shows "(\<forall>a k. count_list (cl_cq c) (Ctag a k) \<le> 1) \<and>
    (\<forall>a k k'. Ctag a k \<in> set (cl_cq c) \<and> Ctag a k' \<in> set (cl_cq c) \<and> k \<in> {T_START, T_FINISH, T_UNARY} \<longrightarrow> k' = k) \<and>
    (\<forall>a. \<not> (Ctag a T_WRITE \<in> set (cl_cq c) \<and> Ctag a T_WDONE \<in> set (cl_cq c))) \<and>
    (\<forall>t \<in> set (cl_cq c). cl_call_heap c (tag_obj t) \<noteq> None \<or> cl_stream_heap c (tag_obj t) \<noteq> None) \<and>
    (\<forall>(a, op, shut) \<in> set (cl_log c). \<not> shut)"
proof (intro conjI allI impI ballI)
  note inv = reach_inv(1) [OF assms(1,2), folded assms(3)]
  note tags = object_tags [OF inv]
  show "count_list (cl_cq c) (Ctag a k) \<le> 1" for a k using tags(1) by (simp add: cnt_def)
  show "k' = k" if "Ctag a k \<in> set (cl_cq c) \<and> Ctag a k' \<in> set (cl_cq c) \<and> k \<in> {T_START, T_FINISH, T_UNARY}"
    for a k k'
    using that tags(2) [of a k k'] by (simp add: cnt_def count_list_pos_iff)
  show "\<not> (Ctag a T_WRITE \<in> set (cl_cq c) \<and> Ctag a T_WDONE \<in> set (cl_cq c))" for a
    using tags(3) [of a] by (simp add: cnt_def count_list_pos_iff)
  show "cl_call_heap c (tag_obj t) \<noteq> None \<or> cl_stream_heap c (tag_obj t) \<noteq> None" if "t \<in> set (cl_cq c)" for t
    using heap_okD(9) [OF cl_invD(1) [OF inv], of "tag_obj t" "tag_kind t"] that
    by (auto simp: cnt_def count_list_0_iff)
  show "case x of (a, op, shut) \<Rightarrow> \<not> shut" if "x \<in> set (cl_log c)" for x
    using cl_invD(3) [OF inv] that by (auto simp: log_ok_def log_flags_def rev_image_eqI)
qed

theorem client_operation_discipline_witness:
  "Ctag 0 T_WRITE \<in> set (cl_cq (w_client demo_stream)) \<and> Ctag 0 T_WDONE \<notin> set (cl_cq (w_client demo_stream))"
proof -
  have "Ctag 0 T_WRITE \<in> set (cl_cq (w_client demo_stream))"
    by (simp add: demo_stream_def demo_defs Let_def)
  with client_operation_discipline [OF reach_demo_stream demo_stream_calls(1) refl] show ?thesis by blast
qed

section \<open>Buffers\<close>

text \<open>
  C17: A stream that was opened with a read buffer of at least one buffers at most \<open>read_cap\<close> unread
  messages: the counter is never negative, equals the number of its messages in the deque, and
  stays within the bound also while a read is outstanding; at most \<open>write_cap\<close> messages wait to be
  sent.  (A read buffer of zero or less is not rejected; it holds one message all the same, and the
  stream then asks for no other: \<^verbatim>\<open>Client_Streams\<close>.)
\<close>

theorem client_buffers_bounded:
  assumes "cl_reach w" and "w_calls w < 2 ^ 64 - 1" and "cl_stream_heap (w_client w) a = Some s"
    and "1 \<le> st_read_cap s"
  shows "0 \<le> st_unread s \<and> st_unread s \<le> st_read_cap s \<and>
    st_unread s = int (length (filter (is_smsg (st_id s)) (cl_ready (w_client w)))) \<and>
    (st_read_inflight s \<longrightarrow> st_unread s < st_read_cap s) \<and>
    length (st_write_queue s) \<le> unat (st_write_cap s)"
proof -
  have "stream_core a (w_client w, s)"
    using heap_okD(8) [OF cl_invD(1) [OF reach_inv(1) [OF assms(1,2)]] assms(3)]
    by (simp add: stream_ok_def)
  with assms(4) show ?thesis
    by (auto simp: stream_core_def stream_wf_def stream_bounded_def smsgs_def)
qed

theorem client_buffers_bounded_witness:
  "\<exists>s. cl_stream_heap (w_client demo_stream) 0 = Some s \<and> st_unread s \<le> 1 \<and> st_unread s = 1 \<and> length (st_write_queue s) \<le> 2"
proof -
  from demo_stream_object obtain s where s: "cl_stream_heap (w_client demo_stream) 0 = Some s"
    "st_read_cap s = 1" "st_write_cap s = 2" "st_unread s = 1" by blast
  with client_buffers_bounded [OF reach_demo_stream demo_stream_calls(1) s(1)] show ?thesis by auto
qed

section \<open>Progress\<close>

text \<open>
  C15: No stream that was opened with a read buffer of at least one is forgotten: while the client
  is not shutting down, such a stream, if it is not over, has an operation outstanding with the
  library, or a message of its is queued for R and the wake handle is readable, so that R is told
  to take it (which posts the next read).  With a read buffer of zero or less this is not so.
\<close>

theorem client_stream_never_forgotten:
  assumes "cl_reach w" and "w_calls w < 2 ^ 64 - 1" and "c = w_client w" and "\<not> cl_shutting c"
    and "m_find (cl_streams c) i = Some a" and "cl_stream_heap c a = Some s" and "1 \<le> st_read_cap s"
  shows "(\<exists>k. Ctag a k \<in> set (cl_cq c)) \<or>
    (\<exists>e \<in> set (cl_ready c). ev_kind e = EV_SMSG \<and> ev_id e = i) \<and> wake_readable (cl_wake c)"
proof (cases "\<exists>k. Ctag a k \<in> set (cl_cq c)")
  case False
  note inv = reach_inv [OF assms(1,2), folded assms(3)]
  from False have z: "cnt c a k = 0" for k by (simp add: cnt_def count_list_0_iff)
  from assms(5,6) have i: "st_id s = i" by (simp add: heap_okD(4) [OF cl_invD(1) [OF inv(1)]])
  have "stream_ok a (c, s)" by (rule heap_okD(8) [OF cl_invD(1) [OF inv(1)] assms(6)])
  with idle_stream_full [OF this assms(4) z] assms(7) have "0 < smsgs c i" by (simp add: i)
  then have "filter (is_smsg i) (cl_ready c) \<noteq> []" by (simp add: smsgs_def)
  then obtain e where "e \<in> set (cl_ready c)" "is_smsg i e" by (auto simp: filter_empty_conv)
  with inv(2) show ?thesis by (auto simp: is_smsg_def armed_def)
qed simp

theorem client_stream_never_forgotten_witness:
  "wake_readable (cl_wake (w_client demo_throttled))"
proof -
  from demo_throttled_object obtain s where s: "cl_stream_heap (w_client demo_throttled) 0 = Some s"
    "st_read_cap s = 1" by blast
  have q: "cl_cq (w_client demo_throttled) = []" "\<not> cl_shutting (w_client demo_throttled)"
    "m_find (cl_streams (w_client demo_throttled)) 1 = Some 0"
    by (simp_all add: demo_throttled_def demo_defs Let_def)
  from client_stream_never_forgotten [OF reach_demo_throttled demo_throttled_calls refl q(2,3) s(1)] s(2) q(1)
  show ?thesis by simp
qed

section \<open>Delivery\<close>

lemma mset_of_ids: "(\<And>i. of_id i xs = of_id i ys @ of_id i zs) \<Longrightarrow> mset xs = mset ys + mset zs"
proof (rule multiset_eqI)
  fix e
  assume "\<And>i. of_id i xs = of_id i ys @ of_id i zs"
  moreover have "count (mset us) e = count (mset (of_id (ev_id e) us)) e" for us
    by (simp add: of_id_def)
  ultimately show "count (mset xs) e = count (mset ys + mset zs) e"
    by (metis count_union mset_append)
qed

text \<open>The conversion of a batch: every event in order, or the first one that R refuses.\<close>

lemma md_refused_append: "md_refused mk (md @ md') err \<longleftrightarrow> md_refused mk md err \<or> md_refused mk md' err"
  by (auto simp: md_refused_def)

lemma cl_event_refused:
  "cl_event_to_r mk e = Inl err \<Longrightarrow> terminal e \<and> md_refused mk (ev_initial_md e @ ev_trailing_md e) err"
  unfolding md_refused_append
  by (auto simp: cl_event_to_r_def terminal_def md_pairs_or_null_def rbind_Inl_iff
      dest!: grpc_pairs_to_r_refused split: if_splits)

lemma cl_events_converted:
  "cl_events_to_r mk b = Inr es \<Longrightarrow> list_all2 (\<lambda>e x. cl_event_to_r mk e = Inr x) b es"
  "cl_events_to_r mk b = Inl err \<Longrightarrow> \<exists>e \<in> set b. cl_event_to_r mk e = Inl err"
  by (induction b arbitrary: es) (auto simp: rbind_Inr_iff rbind_Inl_iff)

definition poll_explained :: "cl_event list \<times> sexp res \<Rightarrow> bool" where
  "poll_explained p \<longleftrightarrow> (\<exists>mk.
     (\<exists>es. snd p = Inr (R_List es None) \<and> list_all2 (\<lambda>e x. cl_event_to_r mk e = Inr x) (fst p) es) \<or>
     (\<exists>err. snd p = Inl err \<and> (\<exists>e \<in> set (fst p). terminal e \<and> md_refused mk (ev_initial_md e @ ev_trailing_md e) err)))"

lemma poll_result_explained: "poll_explained (b, cl_poll_result mk b)"
proof (cases "cl_events_to_r mk b")
  case (Inl err)
  with cl_events_converted(2) [OF this] show ?thesis
    unfolding poll_explained_def cl_poll_result_def by (fastforce dest: cl_event_refused)
next
  case (Inr es)
  with cl_events_converted(1) [OF this] show ?thesis
    unfolding poll_explained_def cl_poll_result_def by fastforce
qed

lemma polls_explained: "cl_reach w \<Longrightarrow> \<forall>p \<in> set (w_polls w). poll_explained p"
proof (induction rule: reachable.induct)
  case (init w)
  then show ?case by (simp add: cl_created_def)
next
  case (step w w')
  then show ?case by (auto elim!: cl_step.cases simp: poll_result_explained)
qed

text \<open>
  C5: No event is lost on the way to a poll, none is taken twice, and the order of a call's events
  is kept whatever filters R uses: per call, the events taken by R's polls so far followed by the
  events in the deque are the events ever queued.  Of the events taken, those of a poll that returned
  to R are in the list it returned, one element each and in order; the others were in the batch of a
  poll that raised an R error, which happens only when R refuses a string in the metadata of a
  terminal event (the unary completion, the stream status) of that batch.  A call's terminal event
  comes once and after all its other events.  A call that was started is in the client's table of
  calls or streams exactly as long as no terminal event of it has been queued.
\<close>

theorem client_delivery:
  assumes "cl_reach w" and "w_calls w < 2 ^ 64 - 1" and "c = w_client w"
  shows "(\<forall>i. filter (\<lambda>e. ev_id e = i) (w_queued w) =
       filter (\<lambda>e. ev_id e = i) (w_taken w) @ filter (\<lambda>e. ev_id e = i) (cl_ready c)) \<and>
    mset (w_queued w) = mset (w_received w) + mset (w_lost w) + mset (cl_ready c) \<and>
    subseq (w_received w) (w_taken w) \<and>
    (\<forall>(b, r) \<in> set (w_polls w). \<exists>mk.
       (\<exists>es. r = Inr (R_List es None) \<and> list_all2 (\<lambda>e x. cl_event_to_r mk e = Inr x) b es) \<or>
       (\<exists>err. r = Inl err \<and> (\<exists>e \<in> set b. terminal e \<and> md_refused mk (ev_initial_md e @ ev_trailing_md e) err))) \<and>
    (\<forall>pre e post. w_queued w = pre @ e # post \<and> terminal e \<longrightarrow> (\<forall>e' \<in> set post. ev_id e' \<noteq> ev_id e)) \<and>
    (\<forall>i. 0 < unat i \<and> unat i < unat (cl_next_id c) \<longrightarrow>
       ((m_find (cl_calls c) i = None \<and> m_find (cl_streams c) i = None) \<longleftrightarrow>
        (\<exists>e \<in> set (w_queued w). ev_id e = i \<and> terminal e)))"
proof (intro conjI allI impI ballI)
  note hist = reach_inv(3) [OF assms(1,2), folded assms(3)]
  show "filter (\<lambda>e. ev_id e = i) (w_queued w) =
      filter (\<lambda>e. ev_id e = i) (w_taken w) @ filter (\<lambda>e. ev_id e = i) (cl_ready c)" for i
    using hist_okD(1) [OF hist, of i] by (simp add: of_id_def)
  have "mset (w_queued w) = mset (w_taken w) + mset (cl_ready c)"
    by (rule mset_of_ids) (rule hist_okD(1) [OF hist])
  then show "mset (w_queued w) = mset (w_received w) + mset (w_lost w) + mset (cl_ready c)"
    by (simp add: w_taken_def w_received_def w_lost_def mset_batches)
  show "subseq (w_received w) (w_taken w)" by (simp add: w_taken_def w_received_def subseq_returned)
  show "case p of (b, r) \<Rightarrow> \<exists>mk.
       (\<exists>es. r = Inr (R_List es None) \<and> list_all2 (\<lambda>e x. cl_event_to_r mk e = Inr x) b es) \<or>
       (\<exists>err. r = Inl err \<and> (\<exists>e \<in> set b. terminal e \<and> md_refused mk (ev_initial_md e @ ev_trailing_md e) err))"
    if "p \<in> set (w_polls w)" for p
    using polls_explained [OF assms(1)] that by (fastforce simp: poll_explained_def)
  show "ev_id e' \<noteq> ev_id e" if "w_queued w = pre @ e # post \<and> terminal e" "e' \<in> set post" for pre e post e'
    using hist_okD(4) [OF hist, of pre e post e'] that by blast
  fix i :: u64 assume i: "0 < unat i \<and> unat i < unat (cl_next_id c)"
  show "(m_find (cl_calls c) i = None \<and> m_find (cl_streams c) i = None) \<longleftrightarrow>
      (\<exists>e \<in> set (w_queued w). ev_id e = i \<and> terminal e)"
  proof
    assume "m_find (cl_calls c) i = None \<and> m_find (cl_streams c) i = None"
    with i show "\<exists>e \<in> set (w_queued w). ev_id e = i \<and> terminal e"
      by (intro hist_okD(5) [OF hist]) (simp_all add: live_def)
  next
    assume "\<exists>e \<in> set (w_queued w). ev_id e = i \<and> terminal e"
    then obtain e pre post where "w_queued w = pre @ e # post" "ev_id e = i" "terminal e"
      by (metis in_set_conv_decomp)
    with hist_okD(3) [OF hist, of pre e post] show "m_find (cl_calls c) i = None \<and> m_find (cl_streams c) i = None"
      by (simp add: live_def)
  qed
qed

text \<open>
  Two unary calls complete, the second with a NUL in its trailing metadata; a first poll takes the
  first event, a second one raises on the other.
\<close>

definition demo_nul :: cl_world where
  "demo_nul =
     do_complete (Ctag 1 T_UNARY) ((demo_completion True ''r'')\<lparr>cp_trailing_md := [(''k-bin'', [CHR 0x00])]\<rparr>)
       (do_complete (Ctag 0 T_UNARY) (demo_completion True ''r'')
         (do_call (Call_start 0 demo_args ''req'') (do_call (Call_start 0 demo_args ''req'') demo_world)))"

lemma reach_demo_nul: "cl_reach demo_nul"
  unfolding demo_nul_def by (intro demo_reach)

definition demo_polled :: cl_world where
  "demo_polled = do_poll None 1 (do_poll None 1 demo_nul)"

lemma reach_demo_polled: "cl_reach demo_polled"
  unfolding demo_polled_def by (intro demo_reach reach_demo_nul)

theorem client_delivery_witness:
  "mset (w_queued demo_polled) =
     mset (w_received demo_polled) + mset (w_lost demo_polled) + mset (cl_ready (w_client demo_polled)) \<and>
   map ev_id (w_received demo_polled) = [1] \<and> map ev_id (w_lost demo_polled) = [2]"
proof -
  have "w_calls demo_polled < 2 ^ 64 - 1" "map ev_id (w_received demo_polled) = [1]" "map ev_id (w_lost demo_polled) = [2]"
    by (simp_all add: demo_polled_def demo_nul_def demo_defs Let_def cl_poll_locked_def cl_drain_def cl_taken_def
        matches_def unary_event_def w_received_def w_lost_def returned_batches_def lost_batches_def cl_poll_result_def
        cl_event_to_r_def mk_char_nul_def md_pairs_or_null_def grpc_pairs_to_r_def copy_md_eq cl_event_init_def split_beta)
  with client_delivery [OF reach_demo_polled this(1) refl] show ?thesis by blast
qed

text \<open>
  C13: A poll of an open client that does not wait returns the first \<open>maxn\<close> queued events that
  match the filter, in arrival order; the others stay queued in their order, and afterwards the
  wake handle is readable exactly if events are left.
\<close>

theorem client_poll_takes_batch:
  assumes "cl_reach w" and "w_calls w < 2 ^ 64 - 1" and "c = w_client w" and "\<not> cl_closed c"
    and "P = matches ev_id (map_option u64_of_double only_id)"
  shows "\<exists>c'. client_poll (Some c) maxn 0 only_id turns = Some (Inr (take (nat maxn) (filter P (cl_ready c)), c')) \<and>
    filter P (cl_ready c') = drop (nat maxn) (filter P (cl_ready c)) \<and>
    filter (\<lambda>e. \<not> P e) (cl_ready c') = filter (\<lambda>e. \<not> P e) (cl_ready c) \<and>
    mset (take (nat maxn) (filter P (cl_ready c))) + mset (cl_ready c') = mset (cl_ready c) \<and>
    (wake_readable (cl_wake c') \<longleftrightarrow> cl_ready c' \<noteq> [])"
proof -
  note inv = reach_inv(1) [OF assms(1,2), folded assms(3)]
  let ?want = "map_option u64_of_double only_id"
  from cl_poll_locked_ok [OF inv, of ?want maxn, folded assms(5)] obtain c' where
    p: "cl_poll_locked ?want maxn c = Inr (fst (take_matching P (nat maxn) (cl_ready c)), c')"
      "cl_ready c' = snd (take_matching P (nat maxn) (cl_ready c))" "armed c'" by blast
  with assms(4) mset_take_matching [of P "nat maxn" "cl_ready c"] show ?thesis
    by (intro exI [of _ c']) (simp add: client_poll_eq cl_wait_def fst_take_matching filter_snd_take_matching
        filter_not_snd_take_matching armed_def)
qed

theorem client_poll_takes_batch_witness:
  "\<exists>c'. client_poll (Some (w_client demo_stream)) 5 0 None [] = Some (Inr (cl_ready (w_client demo_stream), c')) \<and>
    cl_ready c' = [] \<and> (wake_readable (cl_wake c') \<longleftrightarrow> cl_ready c' \<noteq> [])"
proof -
  have op: "\<not> cl_closed (w_client demo_stream)" and len: "length (cl_ready (w_client demo_stream)) = 1"
    by (simp_all add: demo_stream_def demo_defs Let_def)
  have P: "(\<lambda>e. True) = matches ev_id (map_option u64_of_double None)"
    by (simp add: matches_def fun_eq_iff)
  from client_poll_takes_batch [OF reach_demo_stream demo_stream_calls(1) refl op P, of 5 "[]"] len
  show ?thesis by simp
qed

section \<open>Waiting\<close>

text \<open>
  C12: A poll that waits loses no wake-up: if a matching event is queued while it waits, even
  between its last look at the deque and the call of \<^verbatim>\<open>poll()\<close>, it returns that event, also when
  it waits without a timeout and nothing else ever happens.
\<close>

theorem client_no_lost_wakeup:
  assumes "cl_reach w" and "w_calls w < 2 ^ 64 - 1" and "c = w_client w" and "\<not> cl_closed c"
    and "\<not> cl_found (map_option u64_of_double only_id) c"
    and "deliverable cl_enabled cl_handle tcs (cl_drain c)"
    and "rfold cl_handle tcs (cl_drain c) = Inr c1" and "cl_found (map_option u64_of_double only_id) c1"
    and "timeout < 0" and "1 \<le> maxn"
  shows "\<exists>batch c'. client_poll (Some c) maxn timeout only_id
      (\<lparr>wt_left = 0, wt_completions = tcs, wt_outcome = None, wt_late = []\<rparr> # turns) = Some (Inr (batch, c')) \<and>
    batch \<noteq> [] \<and> (\<forall>e \<in> set batch. matches ev_id (map_option u64_of_double only_id) e)"
proof -
  let ?want = "map_option u64_of_double only_id"
  note inv = reach_inv [OF assms(1,2), folded assms(3)]
  let ?w = "\<lparr>wt_left = 0, wt_completions = tcs, wt_outcome = None, wt_late = []\<rparr>"
  have wait: "wait_loop (cl_found ?want) cl_drain cl_handle cl_wake timeout (?w # turns) c = Some (Inr c1)"
    using clq.arrival_ends_wait [of c ?want timeout ?w c1 c1 turns] cl_invD(4) [OF inv(1)] assms by simp
  have "wait_inv (w_calls w) (w_queued w) (w_taken w) (length (cl_ready c)) c"
    using inv by (simp add: wait_inv_def)
  from clq.completions_safe [OF clq.inv_drain [OF this] assms(6)] assms(7)
  have "cl_inv (w_calls w) c1" by (simp add: wait_inv_def)
  from cl_poll_locked_ok [OF this, of ?want maxn] obtain c' where
    p: "cl_poll_locked ?want maxn c1 = Inr (take (nat maxn) (filter (matches ev_id ?want) (cl_ready c1)), c')"
    by (auto simp: fst_take_matching)
  have "filter (matches ev_id ?want) (cl_ready c1) \<noteq> []"
    using assms(8) by (auto simp: cl_found_def have_match_def list_ex_iff filter_empty_conv)
  with p wait assms(4,9,10) show ?thesis
    by (auto simp: client_poll_eq cl_wait_def dest: in_set_takeD)
qed

theorem client_no_lost_wakeup_witness:
  "\<exists>batch c'. client_poll (Some (w_client demo_unary)) 1 (-1) (Some 1)
      [\<lparr>wt_left = 0, wt_completions = [(Ctag 0 T_UNARY, demo_completion True [])], wt_outcome = None, wt_late = []\<rparr>] =
      Some (Inr (batch, c')) \<and> batch \<noteq> []"
proof -
  let ?tcs = "[(Ctag 0 T_UNARY, demo_completion True [])]"
  have nf: "\<not> cl_found (map_option u64_of_double (Some 1)) (w_client demo_unary)" "\<not> cl_closed (w_client demo_unary)"
    by (simp_all add: demo_unary_def demo_defs Let_def cl_found_def have_match_def)
  have d: "deliverable cl_enabled cl_handle ?tcs (cl_drain (w_client demo_unary))"
    by (simp add: demo_unary_def demo_defs Let_def cl_enabled_def cl_drain_def)
  obtain c1 where c1: "rfold cl_handle ?tcs (cl_drain (w_client demo_unary)) = Inr c1"
      "cl_found (map_option u64_of_double (Some 1)) c1"
    by (simp add: demo_unary_def demo_defs Let_def cl_drain_def cl_found_def have_match_def matches_def)
  have "w_calls demo_unary < 2 ^ 64 - 1" by (simp add: demo_unary_def demo_defs Let_def)
  from client_no_lost_wakeup [OF reach_demo_unary this refl nf(2,1) d c1, of "-1" 1 "[]"]
  show ?thesis by auto
qed

text \<open>
  C23: A poll with a positive timeout (an R integer of milliseconds) comes back with a batch, possibly
  an empty one, whatever completions arrive meanwhile: every \<^verbatim>\<open>poll()\<close> it makes is given the time
  that is left until its deadline, so that it returns by then even if nothing wakes it, and once the
  clock has reached the deadline the wait is given up.
\<close>

theorem client_poll_times_out:
  assumes "cl_reach w" and "w_calls w < 2 ^ 64 - 1" and "c = w_client w" and "\<not> cl_closed c"
    and "turns_ok cl_enabled cl_drain cl_handle turns c"
    and "0 < timeout" and "turns \<noteq> []" and "wt_left (last turns) \<le> 0"
    and "timeout < 2 ^ 31" and "\<forall>t \<in> set turns. wt_left t \<le> timeout"
  shows "\<exists>batch c'. client_poll (Some c) maxn timeout only_id turns = Some (Inr (batch, c')) \<and>
    (wake_readable (cl_wake c') \<longleftrightarrow> cl_ready c' \<noteq> [])"
proof -
  let ?want = "map_option u64_of_double only_id"
  note inv = reach_inv [OF assms(1,2), folded assms(3)]
  have "cl_wait timeout ?want turns c \<noteq> None"
    using wait_loop_returns [OF assms(6-10), of "cl_found ?want" cl_drain cl_handle cl_wake c] assms(6)
    by (simp add: cl_wait_def)
  with cl_wait_ok [OF inv(1,3) assms(5), of timeout ?want] obtain c1
    where c1: "cl_wait timeout ?want turns c = Some (Inr c1)" "cl_inv (w_calls w) c1" by blast
  from cl_poll_locked_ok [OF c1(2), of ?want maxn] c1(1) assms(4) show ?thesis
    by (auto simp: client_poll_eq armed_def)
qed

theorem client_poll_times_out_witness:
  "\<exists>batch c'. client_poll (Some (w_client demo_unary)) 1 50 None
      [\<lparr>wt_left = 50, wt_completions = [], wt_outcome = None, wt_late = []\<rparr>,
       \<lparr>wt_left = 0, wt_completions = [], wt_outcome = None, wt_late = []\<rparr>] = Some (Inr (batch, c'))"
proof -
  have "\<not> cl_closed (w_client demo_unary)" "w_calls demo_unary < 2 ^ 64 - 1"
    by (simp_all add: demo_unary_def demo_defs Let_def)
  from client_poll_times_out [OF reach_demo_unary this(2) refl this(1), of
      "[\<lparr>wt_left = 50, wt_completions = [], wt_outcome = None, wt_late = []\<rparr>,
        \<lparr>wt_left = 0, wt_completions = [], wt_outcome = None, wt_late = []\<rparr>]" 50 1 None]
  show ?thesis by auto
qed

section \<open>Closing\<close>

text \<open>
  C7: Closing an open client ends, in whatever order the library returns what is outstanding: the
  completion thread stops, every call and stream object is deleted exactly once (nothing is
  leaked, nothing deleted twice), no operation is started on the way, exactly the two descriptors of
  the wake handle are closed, once each, and the external pointer is cleared; every later entry point raises, and a
  second close does nothing.
\<close>

theorem client_close_complete:
  assumes "cl_reach w" and "w_calls w < 2 ^ 64 - 1" and "c = w_client w" and "\<not> cl_closed c"
    and "mset (map fst tcs) = mset (cl_cq c)"
  shows "(\<exists>c'. client_shutdown tcs c = Some (Inr (c', [wh_r (cl_wake c), wh_w (cl_wake c)])) \<and> cl_call_heap c' = Map.empty \<and>
       cl_stream_heap c' = Map.empty \<and> cl_cq c' = [] \<and> cl_ready c' = [] \<and> cl_log c' = cl_log c \<and>
       wh_r (cl_wake c') = -1 \<and> wh_w (cl_wake c') = -1) \<and>
    grpc_r_client_close tcs (Some c) = Some (Inr (R_NilValue, None)) \<and>
    (\<forall>op. cl_exec op None = Inl (Rf_error ''grpc client is closed'')) \<and>
    (\<forall>tcs'. grpc_r_client_close tcs' None = Some (Inr (R_NilValue, None)))"
proof -
  from client_shutdown_ok [OF reach_inv(1) [OF assms(1,2), folded assms(3)] assms(4,5)]
  obtain c' where c': "client_shutdown tcs c = Some (Inr (c', [wh_r (cl_wake c), wh_w (cl_wake c)]))" "cl_call_heap c' = Map.empty"
    "cl_stream_heap c' = Map.empty" "cl_cq c' = []" "cl_ready c' = []" "cl_log c' = cl_log c"
    "wh_r (cl_wake c') = -1" "wh_w (cl_wake c') = -1" by blast
  moreover have "cl_exec op None = Inl (Rf_error ''grpc client is closed'')" for op
    by (cases op) (simp_all add: cl_exec_def grpc_r_call_start_def grpc_r_stream_start_def
        grpc_r_call_cancel_def grpc_r_stream_send_def grpc_r_stream_writes_done_def get_client_def)
  ultimately show ?thesis by (simp add: grpc_r_client_close_def client_finalizer_def)
qed

theorem client_close_complete_witness:
  "grpc_r_client_close [(Ctag 0 T_WRITE, demo_completion False [])] (Some (w_client demo_stream)) =
     Some (Inr (R_NilValue, None))"
proof -
  have "\<not> cl_closed (w_client demo_stream)"
    "mset (map fst [(Ctag 0 T_WRITE, demo_completion False [])]) = mset (cl_cq (w_client demo_stream))"
    by (simp_all add: demo_stream_def demo_defs Let_def)
  from client_close_complete [OF reach_demo_stream demo_stream_calls(1) refl this] show ?thesis by blast
qed

end
