(* ===== verification/Client_Fifo.thy ===== *)
theory Client_Fifo
  imports Client_Correct "HOL-Library.Sublist"
begin

text \<open>
  The messages of a stream reach the library in the order in which R's sends were accepted, each
  exactly once: the writes started so far are a prefix of the accepted sends, and as long as the
  stream is not broken the rest of them is what waits in its queue.
\<close>

section \<open>What was written\<close>

definition written :: "addr \<Rightarrow> (addr \<times> cl_op \<times> bool) list \<Rightarrow> string list" where
  "written a l = concat (map (\<lambda>(b, op, _). case op of Op_Write m \<Rightarrow> if b = a then [m] else [] | _ \<Rightarrow> []) l)"

lemma written_simps [simp]:
  "written a [] = []" "written a (l @ l') = written a l @ written a l'"
  "written a [(b, op, z)] = (case op of Op_Write m \<Rightarrow> if b = a then [m] else [] | _ \<Rightarrow> [])"
  by (simp_all add: written_def)

text \<open>The message being written stays at the front of the queue until its completion arrives.\<close>

definition waiting :: "stream_state \<Rightarrow> string list" where
  "waiting s = (if st_write_inflight s then tl (st_write_queue s) else st_write_queue s)"

definition fifo :: "addr \<Rightarrow> string list \<Rightarrow> client \<times> stream_state \<Rightarrow> bool" where
  "fifo a sent = (\<lambda>(c, s). prefix (written a (cl_log c)) sent \<and>
     (\<not> st_broken s \<longrightarrow> written a (cl_log c) @ waiting s = sent))"

text \<open>A helper writes at most the message whose turn it is, and only to its own stream.\<close>

definition flows :: "addr \<Rightarrow> client \<times> stream_state \<Rightarrow> client \<times> stream_state \<Rightarrow> bool" where
  "flows a p p' \<longleftrightarrow> st_broken (snd p') = st_broken (snd p) \<and>
     (\<forall>b. b \<noteq> a \<longrightarrow> written b (cl_log (fst p')) = written b (cl_log (fst p))) \<and>
     (st_broken (snd p) \<longrightarrow> written a (cl_log (fst p')) = written a (cl_log (fst p))) \<and>
     written a (cl_log (fst p')) @ waiting (snd p') = written a (cl_log (fst p)) @ waiting (snd p)"

lemma flows_trans: "flows a p1 p2 \<Longrightarrow> flows a p2 p3 \<Longrightarrow> flows a p1 p3"
  by (simp add: flows_def)

lemma flows_fifo: "flows a p p' \<Longrightarrow> fifo a sent p \<Longrightarrow> fifo a sent p'"
  by (cases p; cases p'; cases "st_broken (snd p)") (auto simp: flows_def fifo_def, metis prefixI)

lemma flows_post_read: "flows a p (s_post_read_locked a p)"
  by (cases p) (simp add: flows_def s_post_read_locked_def cl_post_def waiting_def)

lemma flows_pump: "flows a p (s_pump_writes_locked a p)"
  by (cases p) (auto simp: flows_def s_pump_writes_locked_def cl_post_def waiting_def)

lemma flows_try_finish: "flows a p (s_try_finish_locked a p)"
  by (cases p) (simp add: flows_def s_try_finish_locked_def cl_post_def waiting_def)

lemma flows_start: "flows a (c, s) (s_try_finish_locked a (s_pump_writes_locked a (s_post_read_locked a (c, s\<lparr>st_started := True\<rparr>))))"
proof -
  have "flows a (c, s) (c, s\<lparr>st_started := True\<rparr>)" by (simp add: flows_def waiting_def)
  from flows_trans [OF flows_trans [OF flows_trans [OF this flows_post_read] flows_pump] flows_try_finish]
  show ?thesis .
qed

section \<open>One completion\<close>

text \<open>A section that breaks the stream writes nothing.\<close>

lemma fifo_broken:
  assumes "fifo a sent (c, s)" and "cl_log c' = cl_log c" and "st_broken s'"
  shows "fifo a sent (s_try_finish_locked a (c', s'))"
  using assms by (intro flows_fifo [OF flows_try_finish]) (simp add: fifo_def)

lemma fifo_same:
  assumes "fifo a sent (c, s)" and "cl_log c' = cl_log c" and "st_broken s' = st_broken s" and "waiting s' = waiting s"
  shows "fifo a sent (c', s')"
  using assms by (simp add: fifo_def)

lemma events_log [simp]: "cl_log (cl_signal c) = cl_log c" "cl_log (cl_push_back e c) = cl_log c"
  by (simp_all add: cl_signal_def cl_push_back_def)

lemma fifo_read: "fifo a sent (c, s) \<Longrightarrow> fifo a sent (run_read a cp (c, s))"
  unfolding run_read_def Let_def
  by (auto intro!: flows_fifo [OF flows_try_finish] flows_fifo [OF flows_post_read] elim!: fifo_same simp: waiting_def)

lemma fifo_write:
  assumes f: "fifo a sent (c, s)" and w: "st_write_inflight s" and p: "run_write a cp (c, s) = Inr p"
  shows "fifo a sent p"
proof (cases "cp_ok cp \<and> \<not> st_broken s")
  case True
  with p obtain m q where q: "st_write_queue s = m # q"
    and p': "p = s_try_finish_locked a (s_pump_writes_locked a
      (if q = [] then cl_signal (cl_push_back (writable_event (st_id s)) c) else c,
       s\<lparr>st_write_inflight := False, st_write_queue := q\<rparr>))"
    by (auto simp: run_write_def Let_def split: list.splits)
  show ?thesis
    unfolding p' by (intro flows_fifo [OF flows_try_finish] flows_fifo [OF flows_pump] fifo_same [OF f])
      (use w q in \<open>simp_all add: waiting_def\<close>)
next
  case False
  with p have "p = s_try_finish_locked a (c, s\<lparr>st_write_inflight := False, st_broken := True, st_want_finish := True\<rparr>)"
    by (auto simp: run_write_def Let_def)
  then show ?thesis using f by (auto intro: fifo_broken)
qed

lemma fifo_dispatch:
  assumes f: "fifo a sent (c, s)" and p: "cl_dispatch a k cp (c, s) = Inr p" and w: "k = T_WRITE \<Longrightarrow> st_write_inflight s"
  shows "fifo a sent p"
proof (cases k)
  case T_START
  with p show ?thesis
    by (auto simp: cl_dispatch_def run_start_def Let_def intro!: flows_fifo [OF flows_start f] fifo_broken [OF f])
next
  case T_READ
  with p f show ?thesis by (auto simp: cl_dispatch_def fifo_read)
next
  case T_WRITE
  with p fifo_write [OF f w, of cp p] show ?thesis by (simp add: cl_dispatch_def)
next
  case T_WDONE
  with p show ?thesis
    by (cases "cp_ok cp") (auto simp: cl_dispatch_def run_wdone_def Let_def waiting_def
        intro: fifo_broken [OF f] flows_fifo [OF flows_try_finish fifo_same [OF f]])
next
  case T_FINISH
  with p f show ?thesis by (auto simp: cl_dispatch_def run_finish_def Let_def waiting_def elim!: fifo_same)
qed (use p f in \<open>simp add: cl_dispatch_def\<close>)

text \<open>Nothing is written to another stream.\<close>

lemma others_helpers [simp]:
  "b \<noteq> a \<Longrightarrow> written b (cl_log (fst (s_post_read_locked a p))) = written b (cl_log (fst p))"
  "b \<noteq> a \<Longrightarrow> written b (cl_log (fst (s_pump_writes_locked a p))) = written b (cl_log (fst p))"
  "b \<noteq> a \<Longrightarrow> written b (cl_log (fst (s_try_finish_locked a p))) = written b (cl_log (fst p))"
  using flows_post_read [of a p] flows_pump [of a p] flows_try_finish [of a p] by (simp_all add: flows_def)

lemma others_dispatch:
  assumes "cl_dispatch a k cp (c, s) = Inr p" and "b \<noteq> a"
  shows "written b (cl_log (fst p)) = written b (cl_log c)"
  using assms
  by (cases k) (auto simp: cl_dispatch_def run_start_def run_read_def run_write_def run_wdone_def run_finish_def Let_def
      split: if_splits list.splits)

section \<open>The whole client\<close>

definition cfifo :: "(addr \<times> string) list \<Rightarrow> client \<Rightarrow> bool" where
  "cfifo sent c \<longleftrightarrow>
     (\<forall>a. prefix (written a (cl_log c)) (sent_to a sent)) \<and>
     (\<forall>a s. cl_stream_heap c a = Some s \<longrightarrow> fifo a (sent_to a sent) (c, s)) \<and>
     (\<forall>a. cl_next_addr c \<le> a \<longrightarrow> sent_to a sent = [])"

lemma cfifoD:
  assumes "cfifo sent c"
  shows "prefix (written a (cl_log c)) (sent_to a sent)" and "cl_stream_heap c a = Some s \<Longrightarrow> fifo a (sent_to a sent) (c, s)"
    and "cl_next_addr c \<le> a \<Longrightarrow> sent_to a sent = []"
  using assms unfolding cfifo_def by blast+

lemma cfifo_cong:
  assumes "cl_log c' = cl_log c" and "cl_stream_heap c' = cl_stream_heap c" and "cl_next_addr c' = cl_next_addr c"
  shows "cfifo sent c' = cfifo sent c"
  by (simp add: cfifo_def fifo_def assms)

text \<open>One stream moves on, perhaps with one extra accepted message; it is stored back or deleted.\<close>

lemma cfifo_store:
  assumes cf: "cfifo sent c" and a: "a < cl_next_addr c" and f: "fifo a (sent_to a (sent @ extra)) (c1, s1)"
    and o1: "\<And>b. b \<noteq> a \<Longrightarrow> written b (cl_log c1) = written b (cl_log c)"
    and m: "fst ` set extra \<subseteq> {a}"
    and c': "cl_log c' = cl_log c1" "cl_next_addr c' = cl_next_addr c"
      "cl_stream_heap c' = (cl_stream_heap c)(a \<mapsto> s1) \<or> cl_stream_heap c' = (cl_stream_heap c)(a := None)"
  shows "cfifo (sent @ extra) c'"
proof -
  have m': "sent_to b extra = []" if "b \<noteq> a" for b
    using m that by (auto simp: sent_to_def filter_empty_conv)
  have "prefix (written b (cl_log c1)) (sent_to b (sent @ extra))" for b
    using f cfifoD(1) [OF cf, of b] o1 [of b] m' [of b] by (cases "b = a") (simp_all add: fifo_def)
  moreover have "fifo b (sent_to b (sent @ extra)) (c', s)" if "cl_stream_heap c' b = Some s" for b s
  proof (cases "b = a")
    case True
    with that c' f show ?thesis by (auto simp: fifo_def)
  next
    case False
    with that c'(3) have "cl_stream_heap c b = Some s" by auto
    from cfifoD(2) [OF cf this] o1 [OF False] m' [OF False] c'(1) show ?thesis by (simp add: fifo_def)
  qed
  moreover have "sent_to b (sent @ extra) = []" if "cl_next_addr c' \<le> b" for b
  proof -
    have "b \<noteq> a" using that a c'(2) by auto
    with cfifoD(3) [OF cf, of b] that m' c'(2) show ?thesis by simp
  qed
  ultimately show ?thesis unfolding cfifo_def c'(1) by blast
qed

lemma cfifo_handle:
  assumes cf: "cfifo sent c" and inv: "cl_inv n c" and en: "cl_enabled tc c" and h: "cl_handle tc c = Inr c'"
  shows "cfifo sent c'"
proof -
  note hp = cl_invD(1) [OF inv]
  obtain a k cp where tc: "tc = (Ctag a k, cp)" by (metis prod.collapse ctag.collapse)
  show ?thesis
  proof (cases "k = T_UNARY")
    case True
    with h tc have "cl_log c' = cl_log c \<and> cl_stream_heap c' = cl_stream_heap c \<and> cl_next_addr c' = cl_next_addr c"
      by (auto simp: cl_handle_def run_unary_def rbind_Inr_iff Let_def cl_signal_def cl_push_back_def)
    with cf cfifo_cong [of c' c] show ?thesis by simp
  next
    case False
    with h tc obtain s p where s: "cl_stream_heap c a = Some s"
      and p: "cl_dispatch a k cp (next_tag a k c, popped s) = Inr p" and c': "c' = s_maybe_free_locked a p"
      by (auto simp: cl_handle_def rbind_Inr_iff deref_Inr_iff Let_def)
    have "0 < cnt c a k" using en tc by (simp add: cl_enabled_def cnt_def count_list_pos_iff)
    with heap_okD(8) [OF hp s] have w: "k = T_WRITE \<Longrightarrow> st_write_inflight (popped s)"
      by (auto simp: stream_ok_def stream_core_def stream_tags_def split: if_splits)
    have "fifo a (sent_to a sent) (next_tag a k c, popped s)"
      using fifo_same [OF cfifoD(2) [OF cf s]] by (simp add: waiting_def)
    from fifo_dispatch [OF this p w] have f: "fifo a (sent_to a (sent @ [])) (fst p, snd p)" by simp
    have o1: "written b (cl_log (fst p)) = written b (cl_log c)" if "b \<noteq> a" for b
      using others_dispatch [OF p that] by simp
    from dispatch_frame [OF p] have t: "touches a (st_id s) (next_tag a k c) (fst p)" by simp
    have fr: "cl_next_addr (fst p) = cl_next_addr c" "cl_stream_heap (fst p) = cl_stream_heap c"
      using t by (auto simp: touches_def)
    have "cfifo (sent @ []) c'"
      by (rule cfifo_store [OF cf heap_okD(7) [OF hp s] f o1])
        (auto simp: c' s_maybe_free_locked_def split_beta fr)
    then show ?thesis by simp
  qed
qed

text \<open>The entry points.\<close>

lemma cfifo_new:
  assumes cf: "cfifo sent c" and c': "cl_next_addr c' = cl_next_addr c + 1"
    and w: "\<And>b. written b (cl_log c') = written b (cl_log c)"
    and h: "cl_stream_heap c' = cl_stream_heap c \<or>
      (\<exists>s. cl_stream_heap c' = (cl_stream_heap c)(cl_next_addr c \<mapsto> s) \<and> waiting s = [])"
  shows "cfifo sent c'"
proof -
  have new: "fifo (cl_next_addr c) (sent_to (cl_next_addr c) sent) (c', s)" if "waiting s = []" for s
    using cfifoD(1,3) [OF cf, of "cl_next_addr c"] that w by (simp add: fifo_def)
  have old: "fifo a (sent_to a sent) (c', s)" if "cl_stream_heap c a = Some s" for a s
    using cfifoD(2) [OF cf that] w by (simp add: fifo_def)
  have "fifo a (sent_to a sent) (c', s)" if "cl_stream_heap c' a = Some s" for a s
    using that h new old by (auto split: if_splits)
  with cfifoD(1,3) [OF cf] c' w show ?thesis by (simp add: cfifo_def)
qed

lemma pump_frame [simp]:
  "cl_next_addr (fst (s_pump_writes_locked a (c, s))) = cl_next_addr c"
  "cl_stream_heap (fst (s_pump_writes_locked a (c, s))) = cl_stream_heap c"
  by (auto simp: s_pump_writes_locked_def cl_post_def)

lemma cfifo_send:
  assumes cf: "cfifo sent c" and inv: "cl_inv n c" and op: "\<not> cl_closed c"
    and ex: "grpc_r_stream_send (Some c) cid bytes = Inr (v, c')"
  shows "cfifo (sent @ accepted (Stream_send cid bytes) v c) c'"
proof (cases "v = R_Logical True \<and> m_find (cl_streams c) (u64_of_double cid) \<noteq> None")
  case False
  with ex op have "c' = c \<and> accepted (Stream_send cid bytes) v c = []"
    by (auto simp: grpc_r_stream_send_def get_client_def Let_def rbind_Inr_iff accepted_def split: option.splits if_splits)
  with cf show ?thesis by simp
next
  case True
  note hp = cl_invD(1) [OF inv]
  from True obtain a where a: "m_find (cl_streams c) (u64_of_double cid) = Some a" by blast
  with True ex op obtain s where s: "cl_stream_heap c a = Some s" "\<not> st_broken s"
    and c': "c' = cl_store a (s_pump_writes_locked a (c, s\<lparr>st_write_queue := st_write_queue s @ [bytes]\<rparr>))"
    by (auto simp: grpc_r_stream_send_def get_client_def Let_def rbind_Inr_iff deref_Inr_iff split: if_splits)
  let ?s = "s\<lparr>st_write_queue := st_write_queue s @ [bytes]\<rparr>" and ?p = "s_pump_writes_locked a (c, s\<lparr>st_write_queue := st_write_queue s @ [bytes]\<rparr>)"
  have acc: "accepted (Stream_send cid bytes) v c = [(a, bytes)]" using True a by (simp add: accepted_def)
  have "st_write_inflight s \<Longrightarrow> st_write_queue s \<noteq> []"
    using heap_okD(8) [OF hp s(1)] by (auto simp: stream_ok_def stream_core_def stream_wf_def)
  then have "waiting ?s = waiting s @ [bytes]" by (auto simp: waiting_def)
  with cfifoD(2) [OF cf s(1)] s(2) have "fifo a (sent_to a (sent @ [(a, bytes)])) (c, ?s)"
    by (auto simp: fifo_def)
  from flows_fifo [OF flows_pump this] have f: "fifo a (sent_to a (sent @ [(a, bytes)])) (fst ?p, snd ?p)" by simp
  show ?thesis unfolding acc
    by (rule cfifo_store [OF cf heap_okD(7) [OF hp s(1)] f]) (auto simp: c' cl_store_def split_beta)
qed

lemma cfifo_store_same:
  assumes cf: "cfifo sent c" and inv: "cl_inv n c" and s: "cl_stream_heap c a = Some s"
    and fl: "flows a (c, s) p" and fr: "cl_next_addr (fst p) = cl_next_addr c" "cl_stream_heap (fst p) = cl_stream_heap c"
  shows "cfifo sent (cl_store a p)"
proof -
  from flows_fifo [OF fl cfifoD(2) [OF cf s]] have f: "fifo a (sent_to a (sent @ [])) (fst p, snd p)" by simp
  have "cfifo (sent @ []) (cl_store a p)"
    by (rule cfifo_store [OF cf heap_okD(7) [OF cl_invD(1) [OF inv] s] f])
      (use fl in \<open>auto simp: cl_store_def split_beta fr flows_def\<close>)
  then show ?thesis by simp
qed

lemma cfifo_writes_done:
  assumes cf: "cfifo sent c" and inv: "cl_inv n c" and op: "\<not> cl_closed c"
    and ex: "grpc_r_stream_writes_done (Some c) cid = Inr (v, c')"
  shows "cfifo sent c'"
proof -
  have unchanged: "cfifo sent c'" if "c' = c" using cf that by simp
  show ?thesis
  proof (cases "m_find (cl_streams c) (u64_of_double cid)")
    case None
    with ex op unchanged show ?thesis by (simp add: grpc_r_stream_writes_done_def get_client_def)
  next
    case (Some a)
    with ex op obtain s where s: "cl_stream_heap c a = Some s" and
      c': "c' = (if st_wdone_requested s then c else cl_store a (s_pump_writes_locked a (c, s\<lparr>st_wdone_requested := True\<rparr>)))"
      by (auto simp: grpc_r_stream_writes_done_def get_client_def Let_def rbind_Inr_iff deref_Inr_iff split: if_splits)
    have "flows a (c, s) (c, s\<lparr>st_wdone_requested := True\<rparr>)" by (simp add: flows_def waiting_def)
    from cfifo_store_same [OF cf inv s flows_trans [OF this flows_pump] pump_frame] c' unchanged show ?thesis
      by (cases "st_wdone_requested s") simp_all
  qed
qed

lemma cfifo_context:
  assumes cf: "cfifo sent c" and s: "cl_stream_heap c a = Some s"
  shows "cfifo sent (c\<lparr>cl_stream_heap := (cl_stream_heap c)(a \<mapsto> s\<lparr>st_context := x\<rparr>)\<rparr>)"
proof -
  have "waiting (s\<lparr>st_context := x\<rparr>) = waiting s" by (simp add: waiting_def)
  with cf s show ?thesis unfolding cfifo_def fifo_def by auto
qed

lemma cfifo_cancel_call: "cfifo sent c \<Longrightarrow> cancel_call a c = Inr c' \<Longrightarrow> cfifo sent c'"
  using cfifo_cong [of c' c] by (auto simp: cancel_call_def rbind_Inr_iff)

lemma cfifo_cancel_stream: "cfifo sent c \<Longrightarrow> cancel_stream a c = Inr c' \<Longrightarrow> cfifo sent c'"
  by (auto simp: cancel_stream_def rbind_Inr_iff deref_Inr_iff cfifo_context)

lemma cfifo_exec:
  assumes cf: "cfifo sent c" and inv: "cl_inv n c" and ex: "cl_exec op (Some c) = Inr (v, c')"
  shows "cfifo (sent @ accepted op v c) c'"
proof (cases op)
  case (Call_start now args req)
  with ex exec_open [OF ex] show ?thesis
    by (auto simp: cl_exec_def grpc_r_call_start_def get_client_def Let_def cl_post_def accepted_def
        intro!: cfifo_new [OF cf])
next
  case (Stream_start now args rcap wcap)
  with ex exec_open [OF ex] show ?thesis
    by (auto simp: cl_exec_def grpc_r_stream_start_def get_client_def Let_def cl_post_def accepted_def
        stream_state_init_def waiting_def intro!: cfifo_new [OF cf])
next
  case (Call_cancel cid)
  with ex exec_open [OF ex] obtain c1 where
    c1: "(case m_find (cl_calls c) (u64_of_double cid) of None \<Rightarrow> Inr c | Some a \<Rightarrow> cancel_call a c) = Inr c1"
      "(case m_find (cl_streams c1) (u64_of_double cid) of None \<Rightarrow> Inr c1 | Some a \<Rightarrow> cancel_stream a c1) = Inr c'"
    by (auto simp: cl_exec_def grpc_r_call_cancel_def get_client_def Let_def rbind_Inr_iff)
  from c1(1) cf have "cfifo sent c1" by (auto split: option.splits dest: cfifo_cancel_call)
  with c1(2) have "cfifo sent c'" by (auto split: option.splits dest: cfifo_cancel_stream)
  with Call_cancel show ?thesis by (simp add: accepted_def)
next
  case (Stream_send cid bytes)
  with ex cfifo_send [OF cf inv exec_open [OF ex]] show ?thesis by (simp add: cl_exec_def)
next
  case (Stream_writes_done cid)
  with ex cfifo_writes_done [OF cf inv exec_open [OF ex]] show ?thesis by (simp add: cl_exec_def accepted_def)
qed

text \<open>Polling and closing.\<close>

lemma cfifo_taken:
  assumes cf: "cfifo sent c" and hp: "\<And>a s. cl_stream_heap c a = Some s \<Longrightarrow> a < cl_next_addr c"
    and t: "cl_taken ev c = Inr c'"
  shows "cfifo sent c' \<and> (\<forall>a s. cl_stream_heap c' a = Some s \<longrightarrow> a < cl_next_addr c')"
proof -
  consider "c' = c" | a s p where "cl_stream_heap c a = Some s" "c' = cl_store a p"
      "p = (c, s\<lparr>st_unread := st_unread s - 1\<rparr>) \<or> p = s_post_read_locked a (c, s\<lparr>st_unread := st_unread s - 1\<rparr>)"
  proof (cases "ev_kind ev = EV_SMSG \<and> m_find (cl_streams c) (ev_id ev) \<noteq> None")
    case True
    with t obtain a s where "cl_stream_heap c a = Some s"
      "c' = cl_store a (if st_unread s - 1 < st_read_cap s
         then s_post_read_locked a (c, s\<lparr>st_unread := st_unread s - 1\<rparr>) else (c, s\<lparr>st_unread := st_unread s - 1\<rparr>))"
      by (auto simp: cl_taken_def rbind_Inr_iff deref_Inr_iff Let_def)
    with that(2) show ?thesis by presburger
  next
    case False
    with t that(1) show ?thesis by (auto simp: cl_taken_def split: if_splits)
  qed
  then show ?thesis
  proof cases
    case 1
    with cf hp show ?thesis by simp
  next
    case (2 a s p)
    have "flows a (c, s) (c, s\<lparr>st_unread := st_unread s - 1\<rparr>)" by (simp add: flows_def waiting_def)
    with 2(3) flows_trans [OF this flows_post_read] have fl: "flows a (c, s) p" by auto
    have fr: "cl_next_addr (fst p) = cl_next_addr c" "cl_stream_heap (fst p) = cl_stream_heap c"
      using 2(3) by (auto simp: s_post_read_locked_def cl_post_def)
    from flows_fifo [OF fl cfifoD(2) [OF cf 2(1)]] have f: "fifo a (sent_to a (sent @ [])) (fst p, snd p)" by simp
    have "cfifo (sent @ []) (cl_store a p)"
      by (rule cfifo_store [OF cf hp [OF 2(1)] f]) (use fl in \<open>auto simp: cl_store_def split_beta fr flows_def\<close>)
    with 2 hp fr show ?thesis by (auto simp: cl_store_def split_beta split: if_splits)
  qed
qed

lemma cfifo_batch_loop:
  assumes "cfifo sent c" and "\<And>a s. cl_stream_heap c a = Some s \<Longrightarrow> a < cl_next_addr c"
    and "cl_batch_loop only_id maxn batch pre it c = Inr (b, c')"
  shows "cfifo sent c'"
  using assms
proof (induction it arbitrary: batch pre c)
  case Nil
  then show ?case by simp
next
  case (Cons ev it)
  show ?case
  proof (cases "int (length batch) < maxn \<and> matches ev_id only_id ev")
    case True
    with Cons.prems(3) obtain c1 where c1: "cl_taken ev (c\<lparr>cl_ready := pre @ it\<rparr>) = Inr c1"
      "cl_batch_loop only_id maxn (batch @ [ev]) pre it c1 = Inr (b, c')" by (auto simp: rbind_Inr_iff)
    have "cfifo sent (c\<lparr>cl_ready := pre @ it\<rparr>)" using Cons.prems(1) cfifo_cong [of "c\<lparr>cl_ready := pre @ it\<rparr>" c] by simp
    from cfifo_taken [OF this _ c1(1)] Cons.prems(2) have "cfifo sent c1" "\<And>a s. cl_stream_heap c1 a = Some s \<Longrightarrow> a < cl_next_addr c1"
      by auto
    from Cons.IH [OF this c1(2)] show ?thesis .
  next
    case False
    with Cons.prems(3) Cons.IH [OF Cons.prems(1,2)] Cons.prems(1) show ?thesis by (auto split: if_splits)
  qed
qed

lemma cfifo_poll:
  assumes cf: "cfifo sent c" and inv: "cl_inv n c" and p: "cl_poll_locked only_id maxn c = Inr (b, c')"
  shows "cfifo sent c'"
proof -
  from p obtain c1 where c1: "cl_batch_loop only_id maxn [] [] (cl_ready (cl_drain c)) (cl_drain c) = Inr (b, c1)"
    and c': "c' = (if cl_ready c1 \<noteq> [] then cl_signal c1 else c1)"
    by (auto simp: cl_poll_locked_def Let_def rbind_Inr_iff)
  have "cfifo sent c1"
    by (rule cfifo_batch_loop [OF _ _ c1])
      (use cf cfifo_cong [of "cl_drain c" c] heap_okD(7) [OF cl_invD(1) [OF inv]] in \<open>auto simp: cl_drain_def\<close>)
  with cfifo_cong [of "cl_signal c1" c1] show ?thesis by (simp add: c' cl_signal_def)
qed

lemma cfifo_rfold:
  "rfold f xs c = Inr c' \<Longrightarrow> cfifo sent c \<Longrightarrow> (\<And>x c c'. cfifo sent c \<Longrightarrow> f x c = Inr c' \<Longrightarrow> cfifo sent c') \<Longrightarrow> cfifo sent c'"
proof (induction xs arbitrary: c)
  case (Cons x xs)
  from Cons.prems(1) obtain c1 where "f x c = Inr c1" "rfold f xs c1 = Inr c'" by (auto simp: rbind_Inr_iff)
  with Cons.IH [OF this(2) Cons.prems(3) [OF Cons.prems(2) this(1)]] Cons.prems(3) show ?case by blast
qed simp

lemma cfifo_shutdown_begin:
  assumes cf: "cfifo sent c" and b: "client_shutdown_begin c = Inr c'"
  shows "cfifo sent c'"
proof -
  let ?c = "c\<lparr>cl_closed := True, cl_shutting := True\<rparr>"
  from b obtain c1 c2 where c1: "rfold (\<lambda>kv. cancel_call (snd kv)) (cl_calls ?c) ?c = Inr c1"
    and c2: "rfold (\<lambda>kv. cancel_stream (snd kv)) (cl_streams c1) c1 = Inr c2" and c': "c' = c2\<lparr>cl_cq_shut := True\<rparr>"
    by (auto simp: client_shutdown_begin_def Let_def rbind_Inr_iff)
  have "cfifo sent ?c" using cf cfifo_cong [of ?c c] by simp
  from cfifo_rfold [OF c2 cfifo_rfold [OF c1 this]] have "cfifo sent c2"
    using cfifo_cancel_call cfifo_cancel_stream by blast
  with c' cfifo_cong [of c' c2] show ?thesis by simp
qed

section \<open>Every reachable state\<close>

interpretation clf: safe_queue "cl_found want" cl_drain cl_handle cl_wake "\<lambda>c. wake_ok (cl_wake c)"
  cl_enabled "\<lambda>c. cl_inv n c \<and> cfifo sent c" cl_extends for want n sent
proof unfold_locales
  fix c c' t
  show "cl_inv n c \<and> cfifo sent c \<Longrightarrow> cl_inv n (cl_drain c) \<and> cfifo sent (cl_drain c)"
    using cl_drain_inv cfifo_cong [of "cl_drain c" c] by (simp add: cl_drain_def)
  show "cl_inv n c \<and> cfifo sent c \<Longrightarrow> cl_enabled t c \<Longrightarrow> \<exists>c'. cl_handle t c = Inr c' \<and> cl_inv n c' \<and> cfifo sent c'"
    using cl_handle_inv [of n c t] cfifo_handle [of sent c n t] by (auto simp: cl_enabled_def)
  show "cl_handle t c = Inr c' \<Longrightarrow> cl_extends c c'" by (rule clq.extends_handle)
  show "cl_extends c (cl_drain c)" by (rule clq.extends_drain)
qed (auto simp: cl_extends_def)

definition fifo_world :: "cl_world \<Rightarrow> bool" where
  "fifo_world w \<longleftrightarrow> world_ok w \<and> cfifo (w_sent w) (w_client w)"

lemma fifo_world_step:
  assumes ok: "fifo_world w" and st: "cl_step w w'" and n: "w_calls w' < 2 ^ 64 - 1"
  shows "fifo_world w'"
proof -
  from ok have inv: "cl_inv (w_calls w) (w_client w)" and cf: "cfifo (w_sent w) (w_client w)" and wk: "world_ok w"
    by (simp_all add: fifo_world_def world_ok_def)
  from st have "cfifo (w_sent w') (w_client w')"
  proof cases
    case (called op v c')
    with cfifo_exec [OF cf inv called(2)] show ?thesis by simp
  next
    case (completed tc c')
    with cfifo_handle [OF cf inv completed(2,3)] show ?thesis by simp
  next
    case (polled turns timeout want c1 reads maxn batch c' mk)
    from polled(4) have "cl_wait timeout want turns (w_client w) = Some (Inr c1)" by (simp add: cl_wait_reads_wait)
    then have "cl_inv (w_calls w) c1 \<and> cfifo (w_sent w) c1"
      using clf.wait_safe [OF conjI [OF inv cf] polled(3), of want timeout] inv cf
      by (auto simp: cl_wait_def split: if_splits)
    with cfifo_poll [of "w_sent w" c1 "w_calls w" want maxn batch c'] polled(1,5) show ?thesis by simp
  next
    case (closing c')
    with cfifo_shutdown_begin [OF cf closing(3)] show ?thesis by simp
  qed
  with world_step [OF wk st n] show ?thesis by (simp add: fifo_world_def)
qed

interpretation clwf: bounded_system cl_created cl_step w_calls "2 ^ 64 - 1" fifo_world
proof unfold_locales
  fix w w'
  show "cl_step w w' \<Longrightarrow> w_calls w \<le> w_calls w'" by (auto elim: cl_step.cases)
  show "cl_created w \<Longrightarrow> fifo_world w"
    using created_ok [of w] create_fields(8,11) by (fastforce simp: fifo_world_def cl_created_def cfifo_def)
  show "fifo_world w \<Longrightarrow> cl_step w w' \<Longrightarrow> w_calls w' < 2 ^ 64 - 1 \<Longrightarrow> fifo_world w'" by (rule fifo_world_step)
qed

text \<open>
  C9: Messages are written in the order in which R's sends were accepted, each exactly once: for
  every stream that ever existed the writes started on the library are a prefix of the accepted
  sends, and for a stream that is open and not broken the sends that are not written yet are
  exactly what waits in its queue behind the write that is outstanding.
\<close>

theorem client_writes_in_order:
  assumes "cl_reach w" and "w_calls w < 2 ^ 64 - 1" and "c = w_client w"
  shows "(\<forall>a. prefix (written a (cl_log c)) (sent_to a (w_sent w))) \<and>
    (\<forall>a s. cl_stream_heap c a = Some s \<and> \<not> st_broken s \<longrightarrow>
       sent_to a (w_sent w) = written a (cl_log c) @
         (if Ctag a T_WRITE \<in> set (cl_cq c) then tl (st_write_queue s) else st_write_queue s))"
proof -
  from clwf.reachable_inv [OF assms(1,2)] have cf: "cfifo (w_sent w) c" and inv: "cl_inv (w_calls w) c"
    by (simp_all add: fifo_world_def world_ok_def assms(3))
  have "sent_to a (w_sent w) = written a (cl_log c) @
      (if Ctag a T_WRITE \<in> set (cl_cq c) then tl (st_write_queue s) else st_write_queue s)"
    if s: "cl_stream_heap c a = Some s \<and> \<not> st_broken s" for a s
  proof -
    from s heap_okD(8) [OF cl_invD(1) [OF inv], of a s] have "st_write_inflight s \<longleftrightarrow> 0 < cnt c a T_WRITE"
      by (auto simp: stream_ok_def stream_core_def stream_tags_def)
    with s cfifoD(2) [OF cf, of a s] show ?thesis
      by (simp add: fifo_def waiting_def cnt_def count_list_pos_iff)
  qed
  with cfifoD(1) [OF cf] show ?thesis by blast
qed

theorem client_writes_in_order_witness:
  "sent_to 0 (w_sent demo_stream) = [''a'', ''b''] \<and>
   prefix (written 0 (cl_log (w_client demo_stream))) [''a'', ''b'']"
proof -
  have "sent_to 0 (w_sent demo_stream) = [''a'', ''b'']"
    by (simp add: demo_stream_def demo_defs Let_def sent_to_def)
  with client_writes_in_order [OF reach_demo_stream demo_stream_calls(1) refl] show ?thesis by metis
qed

end
