(* ===== verification/Client_Streams.thy ===== *)
theory Client_Streams
  imports Client_Fifo
begin

text \<open>
  What happens to one stream over a whole run: a half-close is for good, a stream without a read
  buffer asks for one message only, and the messages that the library hands over with completed
  reads are queued for R one by one, unchanged and in that order.
\<close>

section \<open>What a section keeps of every stream\<close>

definition stays :: "stream_state \<Rightarrow> stream_state \<Rightarrow> bool" where
  "stays s s' \<longleftrightarrow> st_id s' = st_id s \<and> st_read_cap s' = st_read_cap s \<and> (st_broken s \<longrightarrow> st_broken s') \<and>
     (st_started s \<longrightarrow> st_started s') \<and> (st_wdone_requested s \<longrightarrow> st_wdone_requested s')"

definition alike :: "stream_state \<Rightarrow> stream_state \<Rightarrow> bool" where
  "alike s s' \<longleftrightarrow> st_id s' = st_id s \<and> st_read_cap s' = st_read_cap s \<and> st_broken s' = st_broken s \<and>
     st_started s' = st_started s \<and> (st_wdone_requested s \<longrightarrow> st_wdone_requested s')"

definition keeps :: "(stream_state \<Rightarrow> stream_state \<Rightarrow> bool) \<Rightarrow> client \<Rightarrow> client \<Rightarrow> bool" where
  "keeps R c c' \<longleftrightarrow> (\<forall>a s'. cl_stream_heap c' a = Some s' \<longrightarrow> (\<exists>s. cl_stream_heap c a = Some s \<and> R s s'))"

lemma alike_stays: "alike s s' \<Longrightarrow> stays s s'"
  by (simp add: alike_def stays_def)

lemma alike_refl [simp]: "alike s s" and stays_refl [simp]: "stays s s"
  by (simp_all add: alike_def stays_def)

lemma keeps_alike: "keeps alike c c' \<Longrightarrow> keeps stays c c'"
  unfolding keeps_def using alike_stays by blast

lemma keeps_trans: "(\<And>x y z. R x y \<Longrightarrow> R y z \<Longrightarrow> R x z) \<Longrightarrow> keeps R c1 c2 \<Longrightarrow> keeps R c2 c3 \<Longrightarrow> keeps R c1 c3"
  unfolding keeps_def by meson

lemma alike_trans: "alike x y \<Longrightarrow> alike y z \<Longrightarrow> alike x z"
  by (simp add: alike_def)

lemma stays_trans: "stays x y \<Longrightarrow> stays y z \<Longrightarrow> stays x z"
  by (simp add: stays_def)

lemma keeps_alike_trans: "keeps alike c1 c2 \<Longrightarrow> keeps alike c2 c3 \<Longrightarrow> keeps alike c1 c3"
  by (rule keeps_trans [of alike, OF alike_trans])

lemma keeps_stays_trans: "keeps stays c1 c2 \<Longrightarrow> keeps stays c2 c3 \<Longrightarrow> keeps stays c1 c3"
  by (rule keeps_trans [of stays, OF stays_trans])

lemma keeps_same: "cl_stream_heap c' = cl_stream_heap c \<Longrightarrow> (\<And>s. R s s) \<Longrightarrow> keeps R c c'"
  by (simp add: keeps_def)

lemma keeps_store:
  "cl_stream_heap c a = Some s \<Longrightarrow> R s s' \<Longrightarrow> (\<And>s. R s s) \<Longrightarrow>
   cl_stream_heap c' = (cl_stream_heap c)(a \<mapsto> s') \<or> cl_stream_heap c' = (cl_stream_heap c)(a := None) \<Longrightarrow> keeps R c c'"
  by (auto simp: keeps_def split: if_splits)

lemma post_read_keeps_fields [simp]:
  "st_id (snd (s_post_read_locked a p)) = st_id (snd p)"
  "st_read_cap (snd (s_post_read_locked a p)) = st_read_cap (snd p)"
  "st_broken (snd (s_post_read_locked a p)) = st_broken (snd p)"
  "st_started (snd (s_post_read_locked a p)) = st_started (snd p)"
  "st_wdone_requested (snd (s_post_read_locked a p)) = st_wdone_requested (snd p)"
  by (simp_all add: s_post_read_locked_def split_beta)

lemma pump_keeps_fields [simp]:
  "st_id (snd (s_pump_writes_locked a p)) = st_id (snd p)"
  "st_read_cap (snd (s_pump_writes_locked a p)) = st_read_cap (snd p)"
  "st_broken (snd (s_pump_writes_locked a p)) = st_broken (snd p)"
  "st_started (snd (s_pump_writes_locked a p)) = st_started (snd p)"
  "st_wdone_requested (snd (s_pump_writes_locked a p)) = st_wdone_requested (snd p)"
  by (simp_all add: s_pump_writes_locked_def split_beta)

lemma try_finish_keeps_fields [simp]:
  "st_id (snd (s_try_finish_locked a p)) = st_id (snd p)"
  "st_read_cap (snd (s_try_finish_locked a p)) = st_read_cap (snd p)"
  "st_broken (snd (s_try_finish_locked a p)) = st_broken (snd p)"
  "st_started (snd (s_try_finish_locked a p)) = st_started (snd p)"
  "st_wdone_requested (snd (s_try_finish_locked a p)) = st_wdone_requested (snd p)"
  by (simp_all add: s_try_finish_locked_def split_beta)

lemma dispatch_stays:
  assumes "cl_dispatch a k cp (c, s) = Inr p"
  shows "stays s (snd p)"
  using assms
  by (cases k) (auto simp: cl_dispatch_def run_start_def run_read_def run_write_def run_wdone_def run_finish_def Let_def
      stays_def split: if_splits list.splits)

lemma handle_stream:
  assumes "cl_handle tc c = Inr c'" and "tag_kind (fst tc) \<noteq> T_UNARY"
  obtains s p where "cl_stream_heap c (tag_obj (fst tc)) = Some s"
    and "cl_dispatch (tag_obj (fst tc)) (tag_kind (fst tc)) (snd tc)
      (next_tag (tag_obj (fst tc)) (tag_kind (fst tc)) c, popped s) = Inr p"
    and "c' = s_maybe_free_locked (tag_obj (fst tc)) p"
proof -
  obtain a k cp where "tc = (Ctag a k, cp)" by (metis prod.collapse ctag.collapse)
  with assms that show ?thesis
    by (auto simp: cl_handle_def rbind_Inr_iff deref_Inr_iff Let_def)
qed

lemma handle_unary:
  assumes "cl_handle tc c = Inr c'" and "tag_kind (fst tc) = T_UNARY"
  shows "cl_stream_heap c' = cl_stream_heap c" "cl_log c' = cl_log c" "cl_next_addr c' = cl_next_addr c"
    "\<exists>i. cl_ready c' = cl_ready c @ [unary_event i (snd tc)]"
proof -
  obtain a k cp where "tc = (Ctag a k, cp)" by (metis prod.collapse ctag.collapse)
  with assms show "cl_stream_heap c' = cl_stream_heap c" "cl_log c' = cl_log c" "cl_next_addr c' = cl_next_addr c"
    "\<exists>i. cl_ready c' = cl_ready c @ [unary_event i (snd tc)]"
    by (auto simp: cl_handle_def run_unary_def rbind_Inr_iff Let_def cl_signal_def cl_push_back_def)
qed

lemma handle_keeps:
  assumes h: "cl_handle tc c = Inr c'"
  shows "keeps stays c c'"
proof (cases "tag_kind (fst tc) = T_UNARY")
  case True
  with handle_unary(1) [OF h] show ?thesis by (intro keeps_same) simp_all
next
  case False
  from handle_stream [OF h False] obtain s p where s: "cl_stream_heap c (tag_obj (fst tc)) = Some s"
    and p: "cl_dispatch (tag_obj (fst tc)) (tag_kind (fst tc)) (snd tc)
      (next_tag (tag_obj (fst tc)) (tag_kind (fst tc)) c, popped s) = Inr p"
    and c': "c' = s_maybe_free_locked (tag_obj (fst tc)) p" .
  have "stays s (snd p)" using dispatch_stays [OF p] by (simp add: stays_def)
  moreover have "cl_stream_heap (fst p) = cl_stream_heap c" using dispatch_frame [OF p] by (auto simp: touches_def)
  ultimately show ?thesis
    by (intro keeps_store [OF s]) (auto simp: c' s_maybe_free_locked_def split_beta)
qed

text \<open>The entry points keep every stream, and may add a fresh one.\<close>

definition adds_stream :: "client \<Rightarrow> client \<Rightarrow> bool" where
  "adds_stream c c' \<longleftrightarrow> (\<exists>s. cl_stream_heap c' = (cl_stream_heap c)(cl_next_addr c \<mapsto> s) \<and> st_id s = cl_next_id c \<and>
     \<not> st_broken s \<and> \<not> st_started s) \<and> cl_next_id c' = cl_next_id c + 1"

lemma cancel_stream_keeps: "cancel_stream a c = Inr c' \<Longrightarrow> keeps alike c c'"
  by (auto simp: cancel_stream_def rbind_Inr_iff deref_Inr_iff keeps_def alike_def split: if_splits)

lemma cancel_call_keeps: "cancel_call a c = Inr c' \<Longrightarrow> keeps alike c c'"
  by (auto simp: cancel_call_def rbind_Inr_iff intro!: keeps_same)

lemma store_keeps:
  "cl_stream_heap c a = Some s \<Longrightarrow> alike s (snd p) \<Longrightarrow> cl_stream_heap (fst p) = cl_stream_heap c \<Longrightarrow> keeps alike c (cl_store a p)"
  by (rule keeps_store) (auto simp: cl_store_def split_beta)

lemma exec_keeps:
  assumes ex: "cl_exec op (Some c) = Inr (v, c')"
  shows "keeps alike c c' \<or> adds_stream c c'"
proof (cases op)
  case (Call_start now args req)
  with ex exec_open [OF ex] have "cl_stream_heap c' = cl_stream_heap c"
    by (auto simp: cl_exec_def grpc_r_call_start_def get_client_def Let_def cl_post_def)
  then show ?thesis by (simp add: keeps_same)
next
  case (Stream_start now args rcap wcap)
  with ex exec_open [OF ex] show ?thesis
    by (auto simp: cl_exec_def grpc_r_stream_start_def get_client_def Let_def cl_post_def adds_stream_def stream_state_init_def)
next
  case (Call_cancel cid)
  with ex exec_open [OF ex] obtain c1 where
    c1: "(case m_find (cl_calls c) (u64_of_double cid) of None \<Rightarrow> Inr c | Some a \<Rightarrow> cancel_call a c) = Inr c1"
      "(case m_find (cl_streams c1) (u64_of_double cid) of None \<Rightarrow> Inr c1 | Some a \<Rightarrow> cancel_stream a c1) = Inr c'"
    by (auto simp: cl_exec_def grpc_r_call_cancel_def get_client_def Let_def rbind_Inr_iff)
  from c1(1) have "keeps alike c c1" by (auto simp: keeps_same split: option.splits dest: cancel_call_keeps)
  moreover from c1(2) have "keeps alike c1 c'" by (auto simp: keeps_same split: option.splits dest: cancel_stream_keeps)
  ultimately show ?thesis using keeps_alike_trans by blast
next
  case (Stream_send cid bytes)
  with ex exec_open [OF ex] show ?thesis
    by (auto simp: cl_exec_def grpc_r_stream_send_def get_client_def Let_def rbind_Inr_iff deref_Inr_iff keeps_same alike_def
        split: option.splits if_splits intro!: store_keeps)
next
  case (Stream_writes_done cid)
  with ex exec_open [OF ex] show ?thesis
    by (auto simp: cl_exec_def grpc_r_stream_writes_done_def get_client_def Let_def rbind_Inr_iff deref_Inr_iff keeps_same
        alike_def split: option.splits if_splits intro!: store_keeps)
qed

lemma taken_keeps: "cl_taken ev c = Inr c' \<Longrightarrow> keeps alike c c'"
  by (auto simp: cl_taken_def rbind_Inr_iff deref_Inr_iff Let_def keeps_same alike_def s_post_read_locked_def cl_post_def
      split: option.splits if_splits intro!: store_keeps)

lemma batch_loop_keeps: "cl_batch_loop only_id maxn batch pre it c = Inr (b, c') \<Longrightarrow> keeps alike c c'"
proof (induction it arbitrary: batch pre c)
  case (Cons ev it)
  show ?case
  proof (cases "int (length batch) < maxn \<and> matches ev_id only_id ev")
    case True
    with Cons.prems obtain c1 where c1: "cl_taken ev (c\<lparr>cl_ready := pre @ it\<rparr>) = Inr c1"
      "cl_batch_loop only_id maxn (batch @ [ev]) pre it c1 = Inr (b, c')" by (auto simp: rbind_Inr_iff)
    have "keeps alike c (c\<lparr>cl_ready := pre @ it\<rparr>)" by (simp add: keeps_same)
    from keeps_alike_trans [OF keeps_alike_trans [OF this taken_keeps [OF c1(1)]] Cons.IH [OF c1(2)]] show ?thesis .
  next
    case False
    with Cons show ?thesis by (auto simp: keeps_same split: if_splits)
  qed
qed (simp add: keeps_same)

lemma poll_keeps:
  assumes "cl_poll_locked only_id maxn c = Inr (b, c')"
  shows "keeps alike c c'"
proof -
  from assms obtain c1 where c1: "cl_batch_loop only_id maxn [] [] (cl_ready (cl_drain c)) (cl_drain c) = Inr (b, c1)"
    and c': "c' = (if cl_ready c1 \<noteq> [] then cl_signal c1 else c1)"
    by (auto simp: cl_poll_locked_def Let_def rbind_Inr_iff)
  have "keeps alike c (cl_drain c)" "keeps alike c1 c'" by (simp_all add: keeps_same cl_drain_def cl_signal_def c')
  from keeps_alike_trans [OF keeps_alike_trans [OF this(1) batch_loop_keeps [OF c1]] this(2)] show ?thesis .
qed

lemma rfold_keeps: "rfold f xs c = Inr c' \<Longrightarrow> (\<And>x c c'. f x c = Inr c' \<Longrightarrow> keeps alike c c') \<Longrightarrow> keeps alike c c'"
proof (induction xs arbitrary: c)
  case (Cons x xs)
  from Cons.prems(1) obtain c1 where "f x c = Inr c1" "rfold f xs c1 = Inr c'" by (auto simp: rbind_Inr_iff)
  with Cons.IH [OF this(2)] Cons.prems(2) keeps_alike_trans show ?case by blast
qed (simp add: keeps_same)

lemma shutdown_begin_keeps:
  assumes b: "client_shutdown_begin c = Inr c'"
  shows "keeps alike c c'"
proof -
  let ?c = "c\<lparr>cl_closed := True, cl_shutting := True\<rparr>"
  from b obtain c1 c2 where c1: "rfold (\<lambda>kv. cancel_call (snd kv)) (cl_calls ?c) ?c = Inr c1"
    and c2: "rfold (\<lambda>kv. cancel_stream (snd kv)) (cl_streams c1) c1 = Inr c2" and c': "c' = c2\<lparr>cl_cq_shut := True\<rparr>"
    by (auto simp: client_shutdown_begin_def Let_def rbind_Inr_iff)
  have "keeps alike c ?c" "keeps alike c2 c'" by (simp_all add: keeps_same c')
  moreover from c1 have "keeps alike ?c c1" by (rule rfold_keeps) (rule cancel_call_keeps)
  moreover from c2 have "keeps alike c1 c2" by (rule rfold_keeps) (rule cancel_stream_keeps)
  ultimately show ?thesis using keeps_alike_trans by blast
qed

lemma rfold_next_addr:
  "rfold f xs c = Inr c' \<Longrightarrow> (\<And>x c c'. f x c = Inr c' \<Longrightarrow> cl_next_addr c' = cl_next_addr c) \<Longrightarrow> cl_next_addr c' = cl_next_addr c"
proof (induction xs arbitrary: c)
  case (Cons x xs)
  from Cons.prems(1) obtain c1 where "f x c = Inr c1" "rfold f xs c1 = Inr c'" by (auto simp: rbind_Inr_iff)
  with Cons.IH [OF this(2)] Cons.prems(2) [of x c c1] Cons.prems(2) show ?case by simp
qed simp

lemma shutdown_begin_next_addr: "client_shutdown_begin c = Inr c' \<Longrightarrow> cl_next_addr c' = cl_next_addr c"
  by (auto simp: client_shutdown_begin_def Let_def rbind_Inr_iff cancel_call_def cancel_stream_def dest!: rfold_next_addr)

section \<open>A half-close is for good\<close>

definition half_closed :: "u64 \<Rightarrow> client \<Rightarrow> bool" where
  "half_closed i c \<longleftrightarrow> unat i < unat (cl_next_id c) \<and>
     (\<forall>a s. cl_stream_heap c a = Some s \<longrightarrow> st_id s = i \<longrightarrow> st_wdone_requested s)"

definition follows :: "client \<Rightarrow> client \<Rightarrow> bool" where
  "follows c c' \<longleftrightarrow> keeps stays c c' \<and> cl_next_id c' = cl_next_id c"

lemma half_closed_keeps:
  assumes hc: "half_closed i c" and k: "keeps stays c c'" and n: "unat (cl_next_id c) \<le> unat (cl_next_id c')"
  shows "half_closed i c'"
  unfolding half_closed_def
proof (intro conjI allI impI)
  show "unat i < unat (cl_next_id c')" using hc n by (simp add: half_closed_def)
  fix a s' assume "cl_stream_heap c' a = Some s'" "st_id s' = i"
  with k obtain s where "cl_stream_heap c a = Some s" "stays s s'" by (auto simp: keeps_def)
  with hc \<open>st_id s' = i\<close> show "st_wdone_requested s'" by (auto simp: half_closed_def stays_def)
qed

lemma follows_half_closed: "half_closed i c \<Longrightarrow> follows c c' \<Longrightarrow> half_closed i c'"
  using half_closed_keeps [of i c c'] by (simp add: follows_def)

interpretation cls: safe_queue "cl_found want" cl_drain cl_handle cl_wake "\<lambda>c. wake_ok (cl_wake c)"
  cl_enabled "wait_inv n h d k" follows for want n h d k
proof unfold_locales
  fix c c' t
  show "follows c (cl_drain c)" "follows c c" by (simp_all add: follows_def keeps_same cl_drain_def)
  show "cl_handle t c = Inr c' \<Longrightarrow> follows c c'"
    using handle_keeps [of t c c'] cl_handle_advances(1) [of t c c'] by (simp add: follows_def advances_def)
  show "follows c1 c2 \<Longrightarrow> follows c2 c3 \<Longrightarrow> follows c1 c3" for c1 c2 c3
    using keeps_stays_trans by (auto simp: follows_def)
  show "wait_inv n h d k c \<Longrightarrow> wait_inv n h d k (cl_drain c)" by (rule clq.inv_drain)
  show "wait_inv n h d k c \<Longrightarrow> cl_enabled t c \<Longrightarrow> \<exists>c'. cl_handle t c = Inr c' \<and> wait_inv n h d k c'"
    by (rule clq.handle_safe)
qed

lemma wait_follows:
  assumes ok: "world_ok w" and t: "turns_ok cl_enabled cl_drain cl_handle turns (w_client w)"
    and c1: "cl_wait timeout want turns (w_client w) = Some (Inr c1)"
  shows "follows (w_client w) c1"
proof -
  from ok have "wait_inv (w_calls w) (w_queued w) (w_taken w) (length (cl_ready (w_client w))) (w_client w)"
    by (simp add: world_ok_def wait_inv_def)
  from cls.wait_safe [OF this t, of want timeout] c1 show ?thesis
    by (auto simp: cl_wait_def follows_def keeps_same split: if_splits)
qed

lemma half_closed_step:
  assumes hc: "half_closed i (w_client w)" and ok: "world_ok w" and st: "cl_step w w'" and n: "w_calls w' < 2 ^ 64 - 1"
  shows "half_closed i (w_client w')"
  using st
proof cases
  case (called op v c')
  from exec_live [OF called(2)] have id: "cl_next_id c' = cl_next_id (w_client w) \<or> cl_next_id c' = cl_next_id (w_client w) + 1" by blast
  from ok have inv: "cl_inv (w_calls w) (w_client w)" by (simp add: world_ok_def)
  have up: "unat (cl_next_id (w_client w) + 1) = unat (cl_next_id (w_client w)) + 1"
    using called(1) n by (intro next_id_step [OF cl_invD(2) [OF inv]]) simp
  show ?thesis
  proof (cases "adds_stream (w_client w) c'")
    case True
    with hc up called(1) show ?thesis by (auto simp: half_closed_def adds_stream_def split: if_splits)
  next
    case False
    with exec_keeps [OF called(2)] have "keeps stays (w_client w) c'" using keeps_alike by blast
    with half_closed_keeps [OF hc this] id up called(1) show ?thesis by auto
  qed
next
  case (completed tc c')
  from follows_half_closed [OF hc cls.extends_handle [OF completed(3)]] completed(1) show ?thesis by simp
next
  case (polled turns timeout want c1 reads maxn batch c' mk)
  from polled(4) have "cl_wait timeout want turns (w_client w) = Some (Inr c1)" by (simp add: cl_wait_reads_wait)
  from follows_half_closed [OF hc wait_follows [OF ok polled(3) this]] have "half_closed i c1" .
  moreover have "follows c1 c'"
    using keeps_alike [OF poll_keeps [OF polled(5)]] cl_poll_locked_frame [OF polled(5)] by (simp add: follows_def)
  ultimately show ?thesis using polled(1) follows_half_closed by simp
next
  case (closing c')
  from client_shutdown_begin_ok [of "w_calls w" "w_client w"] ok closing(3) have "cl_next_id c' = cl_next_id (w_client w)"
    by (auto simp: world_ok_def closing_def)
  with follows_half_closed [OF hc, of c'] keeps_alike [OF shutdown_begin_keeps [OF closing(3)]] closing(1) show ?thesis
    by (simp add: follows_def)
qed

lemma half_closed_for_good:
  assumes "cl_step\<^sup>*\<^sup>* w w'" and "cl_reach w" and "half_closed i (w_client w)" and "w_calls w' < 2 ^ 64 - 1"
  shows "cl_reach w' \<and> half_closed i (w_client w')"
  using assms
proof (induction rule: rtranclp_induct)
  case (step w1 w2)
  have "w_calls w1 \<le> w_calls w2" using step.hyps(2) by (auto elim: cl_step.cases)
  with step have r: "cl_reach w1" "half_closed i (w_client w1)" and n: "w_calls w1 < 2 ^ 64 - 1" by auto
  from half_closed_step [OF r(2) clw.reachable_inv [OF r(1) n] step.hyps(2) step.prems(3)]
    reachable.step [OF r(1) step.hyps(2)] show ?case by simp
qed simp

lemma half_closed_refuses:
  assumes inv: "cl_inv n c" and "\<not> cl_closed c" and hc: "half_closed (u64_of_double cid) c"
  shows "grpc_r_stream_writes_done (Some c) cid = Inr (R_Logical False, c)"
    and "grpc_r_stream_send (Some c) cid bytes = Inr (R_Logical False, c)"
proof -
  have "grpc_r_stream_writes_done (Some c) cid = Inr (R_Logical False, c) \<and>
    grpc_r_stream_send (Some c) cid bytes = Inr (R_Logical False, c)"
  proof (cases "m_find (cl_streams c) (u64_of_double cid)")
    case (Some a)
    with heap_okD(4) [OF cl_invD(1) [OF inv]] obtain s where "cl_stream_heap c a = Some s" "st_id s = u64_of_double cid" by blast
    with hc Some assms(2) show ?thesis
      by (simp add: half_closed_def grpc_r_stream_writes_done_def grpc_r_stream_send_def get_client_def Let_def)
  qed (use assms(2) in \<open>simp add: grpc_r_stream_writes_done_def grpc_r_stream_send_def get_client_def\<close>)
  then show "grpc_r_stream_writes_done (Some c) cid = Inr (R_Logical False, c)"
    and "grpc_r_stream_send (Some c) cid bytes = Inr (R_Logical False, c)" by simp_all
qed

section \<open>A stream without a read buffer\<close>

definition nreads :: "addr \<Rightarrow> (addr \<times> cl_op \<times> bool) list \<Rightarrow> nat" where
  "nreads a l = length (filter (\<lambda>(b, op, _). b = a \<and> op = Op_Read) l)"

lemma nreads_simps [simp]:
  "nreads a [] = 0" "nreads a (l @ l') = nreads a l + nreads a l'"
  "nreads a [(b, op, z)] = (if b = a \<and> op = Op_Read then 1 else 0)"
  by (simp_all add: nreads_def)

definition one_read :: "client \<Rightarrow> bool" where
  "one_read c \<longleftrightarrow>
     (\<forall>a s. cl_stream_heap c a = Some s \<longrightarrow> st_read_cap s \<le> 0 \<longrightarrow> nreads a (cl_log c) \<le> of_bool (st_started s)) \<and>
     (\<forall>a. cl_next_addr c \<le> a \<longrightarrow> nreads a (cl_log c) = 0)"

lemma one_readD:
  assumes "one_read c"
  shows "cl_stream_heap c a = Some s \<Longrightarrow> st_read_cap s \<le> 0 \<Longrightarrow> nreads a (cl_log c) \<le> of_bool (st_started s)"
    and "cl_next_addr c \<le> a \<Longrightarrow> nreads a (cl_log c) = 0"
  using assms unfolding one_read_def by blast+

lemma helpers_nreads [simp]:
  "nreads b (cl_log (fst (s_pump_writes_locked a p))) = nreads b (cl_log (fst p))"
  "nreads b (cl_log (fst (s_try_finish_locked a p))) = nreads b (cl_log (fst p))"
  by (auto simp: s_pump_writes_locked_def s_try_finish_locked_def cl_post_def split_beta)

lemma post_read_nreads:
  "nreads b (cl_log (fst (s_post_read_locked a p))) \<le> nreads b (cl_log (fst p)) + of_bool (b = a)"
  by (auto simp: s_post_read_locked_def cl_post_def split_beta)

lemma touches_nreads: "touches a i c c' \<Longrightarrow> b \<noteq> a \<Longrightarrow> nreads b (cl_log c') = nreads b (cl_log c)"
  by (fastforce simp: touches_def nreads_def filter_empty_conv image_subset_iff)

text \<open>Only the start of the call posts a read when the buffer has no room for a message.\<close>

lemma dispatch_nreads:
  assumes p: "cl_dispatch a k cp (c, s) = Inr p" and cap: "st_read_cap s \<le> 0" and u: "0 \<le> st_unread s"
    and k: "k = T_START \<Longrightarrow> \<not> st_started s"
    and n: "nreads a (cl_log c) \<le> of_bool (st_started s)"
  shows "nreads a (cl_log (fst p)) \<le> of_bool (st_started (snd p))"
proof (cases k)
  case T_START
  with k n have "nreads a (cl_log c) = 0" by simp
  with post_read_nreads [of a a "(c, s\<lparr>st_started := True\<rparr>)"] T_START p show ?thesis
    by (auto simp: cl_dispatch_def run_start_def Let_def)
qed (use p n cap u in \<open>auto simp: cl_dispatch_def run_read_def run_write_def run_wdone_def run_finish_def Let_def
    split: if_splits list.splits\<close>)

lemma one_read_store:
  assumes o1: "one_read c" and s: "a < cl_next_addr c"
    and t: "\<And>b. b \<noteq> a \<Longrightarrow> nreads b (cl_log c') = nreads b (cl_log c)"
    and n: "st_read_cap s' \<le> 0 \<Longrightarrow> nreads a (cl_log c') \<le> of_bool (st_started s')"
    and c': "cl_next_addr c' = cl_next_addr c"
      "cl_stream_heap c' = (cl_stream_heap c)(a \<mapsto> s') \<or> cl_stream_heap c' = (cl_stream_heap c)(a := None)"
  shows "one_read c'"
  unfolding one_read_def
proof (intro conjI allI impI)
  fix b s1 assume b: "cl_stream_heap c' b = Some s1" "st_read_cap s1 \<le> 0"
  show "nreads b (cl_log c') \<le> of_bool (st_started s1)"
  proof (cases "b = a")
    case True
    with b c'(2) n show ?thesis by auto
  next
    case False
    with b c'(2) have "cl_stream_heap c b = Some s1" by auto
    with one_readD(1) [OF o1 this b(2)] t [OF False] show ?thesis by simp
  qed
next
  fix b assume "cl_next_addr c' \<le> b"
  with s c'(1) one_readD(2) [OF o1, of b] t [of b] show "nreads b (cl_log c') = 0" by (cases "b = a") auto
qed

lemma one_read_cong:
  assumes "one_read c" and "\<And>b. nreads b (cl_log c') = nreads b (cl_log c)" and "cl_next_addr c' = cl_next_addr c" and "keeps alike c c'"
  shows "one_read c'"
  unfolding one_read_def
proof (intro conjI allI impI)
  fix b s' assume "cl_stream_heap c' b = Some s'" "st_read_cap s' \<le> 0"
  moreover from this assms(4) obtain s where "cl_stream_heap c b = Some s" "alike s s'" by (auto simp: keeps_def)
  ultimately show "nreads b (cl_log c') \<le> of_bool (st_started s')"
    using one_readD(1) [OF assms(1), of b s] assms(2) by (simp add: alike_def)
qed (use one_readD(2) [OF assms(1)] assms(2,3) in simp)

lemma one_read_handle:
  assumes o1: "one_read c" and inv: "cl_inv n c" and en: "cl_enabled tc c" and h: "cl_handle tc c = Inr c'"
  shows "one_read c'"
proof (cases "tag_kind (fst tc) = T_UNARY")
  case True
  note u = handle_unary [OF h True]
  show ?thesis by (rule one_read_cong [OF o1]) (use u in \<open>simp_all add: keeps_same\<close>)
next
  case False
  let ?a = "tag_obj (fst tc)" and ?k = "tag_kind (fst tc)"
  note hp = cl_invD(1) [OF inv]
  from handle_stream [OF h False] obtain s p where s: "cl_stream_heap c ?a = Some s"
    and p: "cl_dispatch ?a ?k (snd tc) (next_tag ?a ?k c, popped s) = Inr p" and c': "c' = s_maybe_free_locked ?a p" .
  from heap_okD(8) [OF hp s] have core: "stream_core ?a (c, s)" by (simp add: stream_ok_def)
  have "0 < cnt c ?a ?k" using en by (simp add: cl_enabled_def cnt_def count_list_pos_iff)
  with core have k: "?k = T_START \<Longrightarrow> \<not> st_started (popped s)" and u: "0 \<le> st_unread (popped s)"
    by (auto simp: stream_core_def stream_tags_def split: if_splits)
  from dispatch_frame [OF p] have t: "touches ?a (st_id s) (next_tag ?a ?k c) (fst p)" by simp
  have fr: "cl_next_addr (fst p) = cl_next_addr c" "cl_stream_heap (fst p) = cl_stream_heap c" using t by (auto simp: touches_def)
  have "st_read_cap (snd p) = st_read_cap s" using dispatch_stays [OF p] by (simp add: stays_def)
  with dispatch_nreads [OF p _ u k] one_readD(1) [OF o1 s]
  have "st_read_cap (snd p) \<le> 0 \<Longrightarrow> nreads ?a (cl_log (fst p)) \<le> of_bool (st_started (snd p))" by simp
  then show ?thesis
    by (intro one_read_store [OF o1 heap_okD(7) [OF hp s], of c' "snd p"])
      (use touches_nreads [OF t] in \<open>auto simp: c' s_maybe_free_locked_def split_beta fr\<close>)
qed

lemma one_read_exec:
  assumes o1: "one_read c" and ex: "cl_exec op (Some c) = Inr (v, c')"
  shows "one_read c'"
proof -
  have op: "\<not> cl_closed c" by (rule exec_open [OF ex])
  have n: "nreads b (cl_log c') = nreads b (cl_log c)" for b
    using ex op by (cases op)
      (auto simp: cl_exec_def grpc_r_call_start_def grpc_r_stream_start_def grpc_r_call_cancel_def grpc_r_stream_send_def
        grpc_r_stream_writes_done_def get_client_def Let_def cl_post_def rbind_Inr_iff cancel_call_def cancel_stream_def
        cl_store_def split_beta split: option.splits if_splits)
  have na: "cl_next_addr c' = cl_next_addr c \<or> cl_next_addr c' = cl_next_addr c + 1"
    using ex op by (cases op)
      (auto simp: cl_exec_def grpc_r_call_start_def grpc_r_stream_start_def grpc_r_call_cancel_def grpc_r_stream_send_def
        grpc_r_stream_writes_done_def get_client_def Let_def cl_post_def rbind_Inr_iff cancel_call_def cancel_stream_def
        cl_store_def split_beta split: option.splits if_splits)
  have new: "nreads a (cl_log c') = 0" if "cl_next_addr c' \<le> a" for a using that na one_readD(2) [OF o1, of a] n by auto
  from exec_keeps [OF ex] show ?thesis
  proof
    assume k: "keeps alike c c'"
    have "nreads a (cl_log c') \<le> of_bool (st_started s')" if a: "cl_stream_heap c' a = Some s'" "st_read_cap s' \<le> 0" for a s'
    proof -
      from k a(1) obtain s where "cl_stream_heap c a = Some s" "alike s s'" by (auto simp: keeps_def)
      with one_readD(1) [OF o1, of a s] a(2) n show ?thesis by (simp add: alike_def)
    qed
    with new show ?thesis by (simp add: one_read_def)
  next
    assume "adds_stream c c'"
    then obtain s0 where h: "cl_stream_heap c' = (cl_stream_heap c)(cl_next_addr c \<mapsto> s0)" by (auto simp: adds_stream_def)
    have "nreads a (cl_log c') \<le> of_bool (st_started s)" if a: "cl_stream_heap c' a = Some s" "st_read_cap s \<le> 0" for a s
      using a h n one_readD(1) [OF o1, of a s] one_readD(2) [OF o1, of a] by (cases "a = cl_next_addr c") simp_all
    with new show ?thesis by (simp add: one_read_def)
  qed
qed

lemma one_read_batch_loop:
  assumes "one_read c" and "cl_inv n c" and "cl_ready c = pre @ it" and "cl_batch_loop only_id maxn batch pre it c = Inr (b, c')"
  shows "one_read c'"
  using assms
proof (induction it arbitrary: batch pre c)
  case (Cons ev it)
  show ?case
  proof (cases "int (length batch) < maxn \<and> matches ev_id only_id ev")
    case True
    let ?c0 = "c\<lparr>cl_ready := pre @ it\<rparr>"
    note hp = cl_invD(1) [OF Cons.prems(2)]
    from True Cons.prems(4) obtain c1 where c1: "cl_taken ev ?c0 = Inr c1"
      "cl_batch_loop only_id maxn (batch @ [ev]) pre it c1 = Inr (b, c')" by (auto simp: rbind_Inr_iff)
    from cl_taken_inv [OF Cons.prems(2,3)] c1(1) have inv1: "cl_inv n c1" and q: "quiet ?c0 c1" by auto
    have "one_read c1"
    proof (cases "ev_kind ev = EV_SMSG \<and> m_find (cl_streams c) (ev_id ev) \<noteq> None")
      case False
      with c1(1) have "c1 = ?c0" by (auto simp: cl_taken_def split: if_splits)
      with one_read_cong [OF Cons.prems(1), of c1] show ?thesis by (simp add: keeps_same)
    next
      case smsg: True
      then obtain a where a: "m_find (cl_streams c) (ev_id ev) = Some a" by blast
      with heap_okD(4) [OF hp] obtain s where s: "cl_stream_heap c a = Some s" "st_id s = ev_id ev" by blast
      let ?s = "s\<lparr>st_unread := st_unread s - 1\<rparr>"
      let ?p = "if st_unread ?s < st_read_cap ?s then s_post_read_locked a (?c0, ?s) else (?c0, ?s)"
      have c1': "c1 = cl_store a ?p" using c1(1) smsg a s by (simp add: cl_taken_def Let_def)
      have "1 \<le> smsgs c (ev_id ev)" using smsg Cons.prems(3) by (simp add: smsgs_def is_smsg_def)
      with heap_okD(8) [OF hp s(1)] s(2) have "0 \<le> st_unread ?s" by (simp add: stream_ok_def stream_core_def)
      then have "st_read_cap (snd ?p) \<le> 0 \<Longrightarrow> ?p = (?c0, ?s)" by (simp split: if_splits)
      moreover have "nreads b (cl_log (fst ?p)) = nreads b (cl_log c)" if "b \<noteq> a" for b
        using that by (simp add: s_post_read_locked_def cl_post_def)
      moreover have "cl_next_addr (fst ?p) = cl_next_addr c" "cl_stream_heap (fst ?p) = cl_stream_heap c"
        by (simp_all add: s_post_read_locked_def cl_post_def)
      ultimately show ?thesis
        using one_readD(1) [OF Cons.prems(1) s(1)]
        by (intro one_read_store [OF Cons.prems(1) heap_okD(7) [OF hp s(1)], of c1 "snd ?p"])
          (auto simp: c1' cl_store_def split_beta)
    qed
    moreover from q have "cl_ready c1 = pre @ it" by (simp add: quiet_def)
    ultimately show ?thesis using Cons.IH [OF _ inv1 _ c1(2)] by blast
  next
    case False
    show ?thesis
    proof (cases "int (length batch) < maxn")
      case True
      with False Cons.prems Cons.IH [of c "pre @ [ev]" batch] show ?thesis by simp
    next
      case full: False
      with Cons.prems show ?thesis by simp
    qed
  qed
qed simp

lemma one_read_poll:
  assumes "one_read c" and "cl_inv n c" and p: "cl_poll_locked only_id maxn c = Inr (b, c')"
  shows "one_read c'"
proof -
  from p obtain c1 where c1: "cl_batch_loop only_id maxn [] [] (cl_ready (cl_drain c)) (cl_drain c) = Inr (b, c1)"
    and c': "c' = (if cl_ready c1 \<noteq> [] then cl_signal c1 else c1)"
    by (auto simp: cl_poll_locked_def Let_def rbind_Inr_iff)
  have "one_read (cl_drain c)" by (rule one_read_cong [OF assms(1)]) (simp_all add: cl_drain_def keeps_same)
  from one_read_batch_loop [OF this cl_drain_inv [OF assms(2)] _ c1] have "one_read c1" by simp
  then show ?thesis by (rule one_read_cong) (simp_all add: c' cl_signal_def keeps_same)
qed

section \<open>What is read is what is queued\<close>

text \<open>The messages of a stream among the events.\<close>

definition messages_of :: "u64 \<Rightarrow> cl_event list \<Rightarrow> string list" where
  "messages_of i evs = map ev_bytes (filter (\<lambda>e. ev_kind e = EV_SMSG) (filter (\<lambda>e. ev_id e = i) evs))"

lemma messages_of_simps [simp]: "messages_of i [] = []" "messages_of i (xs @ ys) = messages_of i xs @ messages_of i ys"
  by (simp_all add: messages_of_def)

definition creads :: "cl_event list \<Rightarrow> (u64 \<times> string list option) list \<Rightarrow> client \<Rightarrow> bool" where
  "creads h g c \<longleftrightarrow>
     (\<forall>i. prefix (messages_of i h) (map message_text (reads_of i g))) \<and>
     (\<forall>a s. cl_stream_heap c a = Some s \<longrightarrow> \<not> st_broken s \<longrightarrow>
        messages_of (st_id s) h = map message_text (reads_of (st_id s) g)) \<and>
     (\<forall>x \<in> set g. unat (fst x) < unat (cl_next_id c))"

lemma creadsD:
  assumes "creads h g c"
  shows "prefix (messages_of i h) (map message_text (reads_of i g))"
    and "cl_stream_heap c a = Some s \<Longrightarrow> \<not> st_broken s \<Longrightarrow> messages_of (st_id s) h = map message_text (reads_of (st_id s) g)"
    and "x \<in> set g \<Longrightarrow> unat (fst x) < unat (cl_next_id c)"
  using assms unfolding creads_def by blast+

text \<open>What one completion adds to either.\<close>

definition read_now :: "ctag \<times> completion \<Rightarrow> stream_state \<Rightarrow> bool" where
  "read_now tc s \<longleftrightarrow> tag_kind (fst tc) = T_READ \<and> cp_ok (snd tc) \<and> \<not> st_broken s"

lemma dispatch_messages:
  assumes "cl_dispatch a k cp (c, s) = Inr p" and "k \<noteq> T_UNARY"
  shows "\<exists>evs. cl_ready (fst p) = cl_ready c @ evs \<and>
    messages_of i evs = (if k = T_READ \<and> cp_ok cp \<and> \<not> st_broken s \<and> i = st_id s then [message_text (cp_dump cp)] else [])"
proof (cases k)
  case T_READ
  show ?thesis
  proof (cases "cp_ok cp \<and> \<not> st_broken s")
    case True
    with assms T_READ show ?thesis
      by (intro exI [of _ "[msg_event (st_id s) cp]"])
        (auto simp: cl_dispatch_def run_read_def Let_def cl_signal_def cl_push_back_def messages_of_def msg_event_def
          message_text_def split_beta cl_event_init_def)
  next
    case False
    with assms T_READ show ?thesis by (auto simp: cl_dispatch_def run_read_def Let_def)
  qed
next
  case T_WRITE
  show ?thesis
  proof (cases "cp_ok cp \<and> \<not> st_broken s \<and> tl (st_write_queue s) = []")
    case True
    with assms T_WRITE show ?thesis
      by (intro exI [of _ "[writable_event (st_id s)]"])
        (auto simp: cl_dispatch_def run_write_def Let_def cl_signal_def cl_push_back_def messages_of_def writable_event_def
          cl_event_init_def split: list.splits)
  next
    case False
    with assms T_WRITE show ?thesis
      by (intro exI [of _ "[]"])
        (auto simp: cl_dispatch_def run_write_def Let_def split: if_splits list.splits)
  qed
next
  case T_FINISH
  with assms show ?thesis
    by (auto simp: cl_dispatch_def run_finish_def Let_def cl_signal_def cl_push_back_def messages_of_def status_event_def
        cl_event_init_def)
next
  case T_START
  with assms show ?thesis by (auto simp: cl_dispatch_def run_start_def Let_def)
next
  case T_WDONE
  with assms show ?thesis by (auto simp: cl_dispatch_def run_wdone_def Let_def)
qed (use assms in simp)

lemma creads_handle:
  assumes cr: "creads h g c" and inv: "cl_inv n c" and h: "cl_handle tc c = Inr c'"
  shows "creads (h @ drop (length (cl_ready c)) (cl_ready c')) (g @ cl_filled tc c) c'"
proof (cases "tag_kind (fst tc) = T_UNARY")
  case True
  note u = handle_unary [OF h True]
  from u(4) obtain i where "cl_ready c' = cl_ready c @ [unary_event i (snd tc)]" by blast
  moreover have "messages_of j [unary_event i (snd tc)] = []" for j
    by (simp add: messages_of_def unary_event_def cl_event_init_def Let_def split_beta)
  moreover have "cl_next_id c' = cl_next_id c" using cl_handle_advances(1) [OF h] by (simp add: advances_def)
  ultimately show ?thesis using cr True u(1) by (simp add: creads_def cl_filled_def)
next
  case False
  let ?a = "tag_obj (fst tc)" and ?k = "tag_kind (fst tc)" and ?d = "cp_dump (snd tc)"
  let ?evs = "drop (length (cl_ready c)) (cl_ready c')"
  from handle_stream [OF h False] obtain s p where s: "cl_stream_heap c ?a = Some s"
    and p: "cl_dispatch ?a ?k (snd tc) (next_tag ?a ?k c, popped s) = Inr p" and c': "c' = s_maybe_free_locked ?a p" .
  have ms: "messages_of i ?evs = (if read_now tc s \<and> i = st_id s then [message_text ?d] else [])" for i
    using dispatch_messages [OF p False, of i] by (auto simp: c' s_maybe_free_locked_def split_beta read_now_def)
  have fl: "reads_of i (cl_filled tc c) = (if ?k = T_READ \<and> cp_ok (snd tc) \<and> i = st_id s then [?d] else [])" for i
    by (auto simp: cl_filled_def s)
  have nid: "cl_next_id c' = cl_next_id c" using cl_handle_advances(1) [OF h] by (simp add: advances_def)
  have eq: "messages_of (st_id s) h = map message_text (reads_of (st_id s) g)" if "\<not> st_broken s" by (rule creadsD(2) [OF cr s that])
  show ?thesis
    unfolding creads_def nid
  proof (intro conjI allI impI ballI)
    fix i show "prefix (messages_of i (h @ ?evs)) (map message_text (reads_of i (g @ cl_filled tc c)))"
      using creadsD(1) [OF cr, of i] eq by (auto simp: ms fl read_now_def)
  next
    fix b s' assume b: "cl_stream_heap c' b = Some s'" "\<not> st_broken s'"
    from handle_keeps [OF h] b(1) obtain s0 where s0: "cl_stream_heap c b = Some s0" "stays s0 s'" by (auto simp: keeps_def)
    have "\<not> st_broken s" if "st_id s' = st_id s"
    proof -
      from that s0 have "b = ?a" using live_stream [OF cl_invD(1) [OF inv] s0(1)] live_stream [OF cl_invD(1) [OF inv] s]
        by (simp add: stays_def)
      with s0 s b(2) show ?thesis by (auto simp: stays_def)
    qed
    with creadsD(2) [OF cr s0(1)] s0(2) b(2) show "messages_of (st_id s') (h @ ?evs) = map message_text (reads_of (st_id s') (g @ cl_filled tc c))"
      by (auto simp: ms fl read_now_def stays_def)
  next
    fix x assume x: "x \<in> set (g @ cl_filled tc c)"
    have "unat (st_id s) < unat (cl_next_id c)"
      using live_id [OF inv, of "st_id s"] live_stream [OF cl_invD(1) [OF inv] s] by (simp add: live_def)
    moreover have "cl_filled tc c = (if ?k = T_READ \<and> cp_ok (snd tc) then [(st_id s, ?d)] else [])"
      unfolding cl_filled_def s by simp
    then have "fst x = st_id s" if "x \<in> set (cl_filled tc c)" using that by auto
    ultimately show "unat (fst x) < unat (cl_next_id c)" using x creadsD(3) [OF cr, of x] by (metis UnE set_append)
  qed
qed

lemma creads_keeps:
  assumes cr: "creads h g c" and k: "keeps alike c c'" and n: "unat (cl_next_id c) \<le> unat (cl_next_id c')"
  shows "creads h g c'"
  unfolding creads_def
proof (intro conjI allI impI ballI)
  show "prefix (messages_of i h) (map message_text (reads_of i g))" for i by (rule creadsD(1) [OF cr])
  fix a s' assume "cl_stream_heap c' a = Some s'" "\<not> st_broken s'"
  moreover from this(1) k obtain s where "cl_stream_heap c a = Some s" "alike s s'" by (auto simp: keeps_def)
  ultimately show "messages_of (st_id s') h = map message_text (reads_of (st_id s') g)" using creadsD(2) [OF cr, of a s] by (simp add: alike_def)
next
  fix x assume "x \<in> set g"
  with creadsD(3) [OF cr this] n show "unat (fst x) < unat (cl_next_id c')" by simp
qed

lemma creads_exec:
  assumes cr: "creads h g c" and inv: "cl_inv n c" and n: "n < 2 ^ 64 - 2" and hist: "hist_ok h d c"
    and ex: "cl_exec op (Some c) = Inr (v, c')"
  shows "creads h g c'"
proof -
  have up: "unat (cl_next_id c + 1) = unat (cl_next_id c) + 1" by (rule next_id_step [OF cl_invD(2) [OF inv] n])
  show ?thesis
  proof (cases "keeps alike c c'")
    case True
    with creads_keeps [OF cr True] exec_live [OF ex] up show ?thesis by auto
  next
    case False
    with exec_keeps [OF ex] obtain s0 where h': "cl_stream_heap c' = (cl_stream_heap c)(cl_next_addr c \<mapsto> s0)"
      "st_id s0 = cl_next_id c" and nid: "cl_next_id c' = cl_next_id c + 1" by (auto simp: adds_stream_def)
    have new: "messages_of (cl_next_id c) h = []" "reads_of (cl_next_id c) g = []"
      using hist_okD(2) [OF hist] creadsD(3) [OF cr] by (fastforce simp: messages_of_def reads_of_def filter_empty_conv)+
    have "messages_of (st_id s) h = map message_text (reads_of (st_id s) g)" if "cl_stream_heap c' a = Some s" "\<not> st_broken s" for a s
      using that h' new creadsD(2) [OF cr, of a s] by (cases "a = cl_next_addr c") simp_all
    with creadsD(1,3) [OF cr] show ?thesis by (auto simp: creads_def nid up less_Suc_eq)
  qed
qed

section \<open>Every reachable state\<close>

definition stream_inv :: "cl_event list \<Rightarrow> (u64 \<times> string list option) list \<Rightarrow> client \<Rightarrow> bool" where
  "stream_inv h g c \<longleftrightarrow> one_read c \<and> creads h g c"

interpretation clr: observed_queue "cl_found want" cl_drain cl_handle cl_wake "\<lambda>c. wake_ok (cl_wake c)" cl_enabled cl_filled
  "\<lambda>c g. wait_inv n h d k c \<and> stream_inv (h @ drop k (cl_ready c)) (g0 @ g) c" for want n h d k g0
proof unfold_locales
  fix c g t
  let ?I = "\<lambda>c g. wait_inv n h d k c \<and> stream_inv (h @ drop k (cl_ready c)) (g0 @ g) c"
  show "?I (cl_drain c) g" if I: "?I c g"
  proof -
    have k: "keeps alike c (cl_drain c)" by (simp add: keeps_same cl_drain_def)
    from I k have "one_read (cl_drain c)" "creads (h @ drop k (cl_ready c)) (g0 @ g) (cl_drain c)"
      by (auto simp: stream_inv_def cl_drain_def intro!: one_read_cong [of c] creads_keeps [of _ _ c])
    with I clq.inv_drain [of n h d k c] show ?thesis by (simp add: stream_inv_def cl_drain_def)
  qed
  show "\<exists>c'. cl_handle t c = Inr c' \<and> ?I c' (g @ cl_filled t c)" if I: "?I c g" and en: "cl_enabled t c"
  proof -
    from clq.handle_safe [OF conjunct1 [OF I] en] obtain c' where c': "cl_handle t c = Inr c'" "wait_inv n h d k c'" by blast
    from I have inv: "cl_inv n c" and kk: "k \<le> length (cl_ready c)" by (simp_all add: wait_inv_def)
    from cl_handle_advances(1) [OF c'(1)] obtain evs where "cl_ready c' = cl_ready c @ evs" by (auto simp: advances_def)
    with creads_handle [OF _ inv c'(1), of "h @ drop k (cl_ready c)" "g0 @ g"] one_read_handle [OF _ inv en c'(1)] I kk c'
    show ?thesis by (auto simp: stream_inv_def)
  qed
qed

definition stream_world :: "cl_world \<Rightarrow> bool" where
  "stream_world w \<longleftrightarrow> world_ok w \<and> stream_inv (w_queued w) (w_reads w) (w_client w)"

lemma stream_wait:
  assumes ok: "stream_world w" and t: "turns_ok cl_enabled cl_drain cl_handle turns (w_client w)"
    and c1: "cl_wait_reads timeout want turns (w_client w) = Some (Inr (c1, reads))"
  shows "cl_inv (w_calls w) c1 \<and>
    stream_inv (w_queued w @ drop (length (cl_ready (w_client w))) (cl_ready c1)) (w_reads w @ reads) c1"
proof (cases "timeout = 0")
  case True
  with c1 ok show ?thesis by (simp add: cl_wait_reads_def stream_world_def world_ok_def)
next
  case False
  let ?k = "length (cl_ready (w_client w))"
  have "wait_inv (w_calls w) (w_queued w) (w_taken w) ?k (w_client w) \<and>
      stream_inv (w_queued w @ drop ?k (cl_ready (w_client w))) (w_reads w @ []) (w_client w)"
    using ok by (simp add: stream_world_def world_ok_def wait_inv_def)
  from clr.observed_wait_inv [OF this t, of want timeout c1 reads] c1 False show ?thesis
    by (simp add: cl_wait_reads_def wait_inv_def)
qed

lemma stream_world_step:
  assumes ok: "stream_world w" and st: "cl_step w w'" and n: "w_calls w' < 2 ^ 64 - 1"
  shows "stream_world w'"
proof -
  from ok have wk: "world_ok w" and o1: "one_read (w_client w)" and cr: "creads (w_queued w) (w_reads w) (w_client w)"
    by (simp_all add: stream_world_def stream_inv_def)
  from wk have inv: "cl_inv (w_calls w) (w_client w)" and hist: "hist_ok (w_queued w) (w_taken w) (w_client w)"
    by (simp_all add: world_ok_def)
  from st have "stream_inv (w_queued w') (w_reads w') (w_client w')"
  proof cases
    case (called op v c')
    have "w_calls w < 2 ^ 64 - 2" using called(1) n by simp
    with one_read_exec [OF o1 called(2)] creads_exec [OF cr inv _ hist called(2)] called(1) show ?thesis
      by (simp add: stream_inv_def)
  next
    case (completed tc c')
    with one_read_handle [OF o1 inv completed(2,3)] creads_handle [OF cr inv completed(3)] show ?thesis
      by (simp add: stream_inv_def)
  next
    case (polled turns timeout want c1 reads maxn batch c' mk)
    from stream_wait [OF ok polled(3,4)] have inv1: "cl_inv (w_calls w) c1" and s1: "one_read c1"
      "creads (w_queued w @ drop (length (cl_ready (w_client w))) (cl_ready c1)) (w_reads w @ reads) c1"
      by (simp_all add: stream_inv_def)
    from one_read_poll [OF s1(1) inv1 polled(5)] creads_keeps [OF s1(2) poll_keeps [OF polled(5)]]
      cl_poll_locked_frame [OF polled(5)] polled(1) show ?thesis by (simp add: stream_inv_def)
  next
    case (closing c')
    from client_shutdown_begin_ok [OF inv] closing(3) have c: "cl_next_id c' = cl_next_id (w_client w)" "cl_log c' = cl_log (w_client w)"
      by (auto simp: closing_def)
    have "cl_next_addr c' = cl_next_addr (w_client w)" by (rule shutdown_begin_next_addr [OF closing(3)])
    with c one_read_cong [OF o1, of c'] creads_keeps [OF cr, of c'] shutdown_begin_keeps [OF closing(3)] closing(1)
    show ?thesis by (simp add: stream_inv_def)
  qed
  with world_step [OF wk st n] show ?thesis by (simp add: stream_world_def)
qed

interpretation clws: bounded_system cl_created cl_step w_calls "2 ^ 64 - 1" stream_world
proof unfold_locales
  fix w w'
  show "cl_step w w' \<Longrightarrow> w_calls w \<le> w_calls w'" by (auto elim: cl_step.cases)
  show "cl_created w \<Longrightarrow> stream_world w"
    using created_ok [of w] create_fields(8,11)
    by (fastforce simp: stream_world_def cl_created_def stream_inv_def one_read_def creads_def)
  show "stream_world w \<Longrightarrow> cl_step w w' \<Longrightarrow> w_calls w' < 2 ^ 64 - 1 \<Longrightarrow> stream_world w'" by (rule stream_world_step)
qed

section \<open>Limits\<close>

text \<open>
  C32: A stream that was opened with a read buffer of zero or less asks the library for at most one
  message: in every reachable state at most one read has ever been posted for it, however many
  events R has taken out of the deque.  No value is rejected when a stream is opened, so the bound of
  at least one in the properties of the buffers is a real restriction.
\<close>

theorem client_zero_read_buffer_reads_once:
  assumes "cl_reach w" and "w_calls w < 2 ^ 64 - 1" and "c = w_client w"
    and "cl_stream_heap c a = Some s" and "st_read_cap s \<le> 0"
  shows "length (filter (\<lambda>(b, op, _). b = a \<and> op = Op_Read) (cl_log c)) \<le> 1"
proof -
  have "one_read c" using clws.reachable_inv [OF assms(1,2)] assms(3) by (simp add: stream_world_def stream_inv_def)
  from one_readD(1) [OF this assms(4,5)] show ?thesis by (simp add: nreads_def of_bool_def split: if_splits)
qed

text \<open>
  The first message has been read and R has taken it: nothing is outstanding with the library and
  nothing is queued for R, yet the stream is not over.
\<close>

definition demo_stalled :: cl_world where
  "demo_stalled = do_poll None 10
     (do_complete (Ctag 0 T_READ) (demo_completion True ''m1'')
       (do_complete (Ctag 0 T_START) (demo_completion True [])
         (do_call (Stream_start 0 demo_args 0 2) demo_world)))"

theorem client_zero_read_buffer_reads_once_witness:
  "length (filter (\<lambda>(b, op, _). b = 0 \<and> op = Op_Read) (cl_log (w_client demo_stalled))) \<le> 1 \<and>
   cl_cq (w_client demo_stalled) = [] \<and> cl_ready (w_client demo_stalled) = [] \<and>
   map ev_bytes (w_received demo_stalled) = [''m1''] \<and>
   (\<exists>s. cl_stream_heap (w_client demo_stalled) 0 = Some s \<and> \<not> st_want_finish s)"
proof -
  have r: "cl_reach demo_stalled" unfolding demo_stalled_def by (intro demo_reach)
  have f: "w_calls demo_stalled < 2 ^ 64 - 1" "cl_cq (w_client demo_stalled) = []" "cl_ready (w_client demo_stalled) = []"
    "map ev_bytes (w_received demo_stalled) = [''m1'']"
    by (simp_all add: demo_stalled_def demo_defs Let_def cl_poll_locked_def cl_drain_def cl_taken_def matches_def
        w_received_def returned_batches_def cl_poll_result_def cl_event_to_r_def msg_event_def cl_event_init_def
        grpc_byte_buffer_to_string_def)
  obtain s where s: "cl_stream_heap (w_client demo_stalled) 0 = Some s" "st_read_cap s = 0" "\<not> st_want_finish s"
    by (simp add: demo_stalled_def demo_defs Let_def cl_poll_locked_def cl_drain_def cl_taken_def matches_def)
  from client_zero_read_buffer_reads_once [OF r f(1) refl s(1)] s f show ?thesis by simp
qed

end
