(* ===== verification/Client_Calls.thy ===== *)
theory Client_Calls
  imports Client_Streams
begin

text \<open>
  What the entry points of the client do on each branch: starting and cancelling a call by the id
  that R was given, sending, half-closing, the limits that R passes in, and the conversion of a
  batch to R values.
\<close>

section \<open>Starting and cancelling\<close>

text \<open>
  C24: The id that starting a unary call returns to R leads back to that call: below \<open>2 ^ 53\<close> ids the
  conversion to a double and back is exact.  The call is started once with the method and the
  request, and cancelling by that id marks exactly this call's context as cancelled and touches no
  other call or stream.
\<close>

theorem client_start_then_cancel:
  assumes "cl_reach w" and "w_calls w < 2 ^ 64 - 1" and "c = w_client w" and "\<not> cl_closed c"
    and "unat (cl_next_id c) < 2 ^ 53" and "a = cl_next_addr c"
  shows "\<exists>c1 d cs. grpc_r_call_start now (Some c) args request = Inr (R_Real (Some d), c1) \<and>
    cl_log c1 = cl_log c @ [(a, Op_Unary (ca_method args) request, False)] \<and>
    m_find (cl_calls c1) (u64_of_double d) = Some a \<and> cl_call_heap c1 = (cl_call_heap c)(a \<mapsto> cs) \<and>
    \<not> cx_cancelled (cs_context cs) \<and>
    (\<exists>c2. grpc_r_call_cancel (Some c1) d = Inr (R_NilValue, c2) \<and> cl_stream_heap c2 = cl_stream_heap c \<and>
       cl_call_heap c2 = (cl_call_heap c)(a \<mapsto> cs\<lparr>cs_context := (cs_context cs)\<lparr>cx_cancelled := True\<rparr>\<rparr>))"
proof -
  note inv = reach_inv(1) [OF assms(1,2), folded assms(3)]
  note hp = cl_invD(1) [OF inv]
  define cs where "cs = \<lparr>cs_id = cl_next_id c, cs_context = apply_context_opts now client_context_init
      (ca_deadline_ms args) (ca_metadata args) (ca_wait_for_ready args)\<rparr>"
  define c1 where "c1 = cl_post a T_UNARY (Op_Unary (ca_method args) request)
      (c\<lparr>cl_next_addr := a + 1, cl_next_id := cl_next_id c + 1, cl_call_heap := (cl_call_heap c)(a \<mapsto> cs),
         cl_calls := m_insert (cl_next_id c) a (cl_calls c)\<rparr>)"
  have d: "u64_of_double (double_of_u64 (cl_next_id c)) = cl_next_id c" by (rule u64_double_roundtrip [OF assms(5)])
  have shut: "\<not> cl_cq_shut c" using cl_invD(3) [OF inv] assms(4) by (auto simp: log_ok_def)
  have st: "grpc_r_call_start now (Some c) args request = Inr (R_Real (Some (double_of_u64 (cl_next_id c))), c1)"
    using assms(4,6) by (simp add: grpc_r_call_start_def get_client_def Let_def c1_def cs_def)
  have foldl_cx: "cx_cancelled (foldl (\<lambda>ctx kv. ctx\<lparr>cx_metadata := cx_metadata ctx @ [kv]\<rparr>) ctx md) = cx_cancelled ctx" for ctx md
    by (induction md arbitrary: ctx) simp_all
  have nc: "\<not> cx_cancelled (cs_context cs)"
    by (simp add: cs_def apply_context_opts_def Let_def client_context_init_def foldl_cx split: option.split)
  have f1: "cl_log c1 = cl_log c @ [(a, Op_Unary (ca_method args) request, False)]" "cl_call_heap c1 = (cl_call_heap c)(a \<mapsto> cs)"
    "m_find (cl_calls c1) (cl_next_id c) = Some a" "cl_streams c1 = cl_streams c" "cl_stream_heap c1 = cl_stream_heap c" "\<not> cl_closed c1"
    using shut assms(4) by (simp_all add: c1_def cl_post_def)
  have "m_find (cl_streams c) (cl_next_id c) = None"
  proof (cases "m_find (cl_streams c) (cl_next_id c)")
    case (Some b)
    then obtain s where "cl_stream_heap c b = Some s" "st_id s = cl_next_id c" by (auto simp: heap_okD(4) [OF hp])
    with cl_invD(2) [OF inv] show ?thesis by (fastforce simp: ids_ok_def)
  qed
  with f1 have "grpc_r_call_cancel (Some c1) (double_of_u64 (cl_next_id c)) = Inr (R_NilValue,
      c1\<lparr>cl_call_heap := (cl_call_heap c1)(a \<mapsto> cs\<lparr>cs_context := (cs_context cs)\<lparr>cx_cancelled := True\<rparr>\<rparr>)\<rparr>)"
    by (simp add: grpc_r_call_cancel_def get_client_def Let_def d cancel_call_def try_cancel_def)
  with st f1 nc d show ?thesis by (intro exI conjI) (assumption | simp add: f1 d)+
qed

theorem client_start_then_cancel_witness:
  "\<exists>c1 d cs. grpc_r_call_start 0 (Some (w_client demo_stream)) demo_args ''req'' = Inr (R_Real (Some d), c1) \<and>
     m_find (cl_calls c1) (u64_of_double d) = Some 1 \<and> cl_call_heap c1 1 = Some cs \<and> \<not> cx_cancelled (cs_context cs)"
proof -
  have s: "\<not> cl_closed (w_client demo_stream)" "unat (cl_next_id (w_client demo_stream)) < 2 ^ 53"
    "1 = cl_next_addr (w_client demo_stream)" by (simp_all add: demo_stream_def demo_defs Let_def)
  from client_start_then_cancel [OF reach_demo_stream demo_stream_calls(1) refl s, of 0 demo_args "''req''"] show ?thesis
    by fastforce
qed

section \<open>Sending and half-closing\<close>

lemma stream_of_id:
  assumes "cl_reach w" and "w_calls w < 2 ^ 64 - 1" and "c = w_client w" and "\<not> cl_closed c"
    and "cl_stream_heap c a = Some s"
  shows "stream_wf s" and "writes_flow s" and "\<not> cl_shutting c" and "\<not> cl_cq_shut c"
proof -
  note inv = reach_inv(1) [OF assms(1,2), folded assms(3)]
  from cl_invD(3) [OF inv] assms(4) show sh: "\<not> cl_shutting c" "\<not> cl_cq_shut c" by (auto simp: log_ok_def)
  from heap_okD(8) [OF cl_invD(1) [OF inv] assms(5)] sh show "stream_wf s" "writes_flow s"
    by (auto simp: stream_ok_def stream_core_def stream_live_def)
qed

text \<open>
  C25: A send is accepted exactly if the stream is open for writing (not broken, not finishing, not
  half-closed) and its queue is shorter than the write buffer.  An accepted message goes to the
  end of the queue and is written at once if the stream has started and nothing else is being
  written; a refused one changes nothing.
\<close>

theorem client_send_accepts:
  assumes "cl_reach w" and "w_calls w < 2 ^ 64 - 1" and "c = w_client w" and "\<not> cl_closed c"
    and "m_find (cl_streams c) (u64_of_double cid) = Some a" and "cl_stream_heap c a = Some s"
    and "ok = (\<not> st_broken s \<and> \<not> st_finish_posted s \<and> \<not> st_wdone_requested s \<and>
      length (st_write_queue s) < unat (st_write_cap s))"
  shows "\<exists>c'. grpc_r_stream_send (Some c) cid bytes = Inr (R_Logical ok, c') \<and>
    (if \<not> ok then c' = c
     else (\<exists>s'. cl_stream_heap c' a = Some s' \<and> st_write_queue s' = st_write_queue s @ [bytes]) \<and>
       cl_log c' = cl_log c @ (if st_started s \<and> st_write_queue s = [] then [(a, Op_Write bytes, False)] else []))"
proof (cases ok)
  case False
  with assms show ?thesis by (auto simp: grpc_r_stream_send_def get_client_def Let_def)
next
  case True
  note f = stream_of_id [OF assms(1-4,6)]
  have "st_write_inflight s \<longleftrightarrow> st_write_queue s \<noteq> []" if "st_started s"
    using f(1,2) that True assms(7) by (auto simp: stream_wf_def writes_flow_def)
  with f(3,4) True assms(4-7) show ?thesis
    by (auto simp: grpc_r_stream_send_def get_client_def Let_def cl_store_def s_pump_writes_locked_def cl_post_def)
qed

theorem client_send_accepts_witness:
  "\<exists>c'. grpc_r_stream_send (Some (w_client demo_stream)) 1 ''c'' = Inr (R_Logical False, c') \<and> c' = w_client demo_stream"
proof -
  obtain s where s: "cl_stream_heap (w_client demo_stream) 0 = Some s" "length (st_write_queue s) = 2" "unat (st_write_cap s) = 2"
    by (simp add: demo_stream_def demo_defs Let_def)
  have o: "\<not> cl_closed (w_client demo_stream)" "m_find (cl_streams (w_client demo_stream)) (u64_of_double 1) = Some 0"
    by (simp_all add: demo_stream_def demo_defs Let_def)
  have "False = (\<not> st_broken s \<and> \<not> st_finish_posted s \<and> \<not> st_wdone_requested s \<and> length (st_write_queue s) < unat (st_write_cap s))"
    using s by simp
  from client_send_accepts [OF reach_demo_stream demo_stream_calls(1) refl o s(1) this, of "''c''"] show ?thesis by simp
qed

text \<open>
  C26: Half-closing a stream that is not over succeeds once.  On a stream that is not about to be
  finished and was not half-closed before it returns TRUE, and WritesDone is started at once exactly
  if the stream has started and has nothing left to write; in every state that can follow, as long
  as the client is open, a further half-close and every send on that stream return FALSE and change
  nothing.
\<close>

theorem client_half_close_once:
  assumes "cl_reach w" and "w_calls w < 2 ^ 64 - 1" and "c = w_client w" and "\<not> cl_closed c"
    and "m_find (cl_streams c) (u64_of_double cid) = Some a" and "cl_stream_heap c a = Some s"
    and "\<not> st_wdone_requested s" and "\<not> st_want_finish s"
  shows "\<exists>c'. grpc_r_stream_writes_done (Some c) cid = Inr (R_Logical True, c') \<and>
    cl_log c' = cl_log c @ (if st_started s \<and> st_write_queue s = [] then [(a, Op_WritesDone, False)] else []) \<and>
    (\<forall>w2. cl_step\<^sup>*\<^sup>* (w\<lparr>w_client := c', w_calls := w_calls w + 1\<rparr>) w2 \<and> w_calls w2 < 2 ^ 64 - 1 \<and>
       \<not> cl_closed (w_client w2) \<longrightarrow>
       grpc_r_stream_writes_done (Some (w_client w2)) cid = Inr (R_Logical False, w_client w2) \<and>
       (\<forall>bytes. grpc_r_stream_send (Some (w_client w2)) cid bytes = Inr (R_Logical False, w_client w2)))"
proof -
  note f = stream_of_id [OF assms(1-4,6)]
  let ?p = "s_pump_writes_locked a (c, s\<lparr>st_wdone_requested := True\<rparr>)"
  let ?w = "w\<lparr>w_client := cl_store a ?p, w_calls := w_calls w + 1\<rparr>"
  note inv = reach_inv(1) [OF assms(1,2), folded assms(3)]
  from f(1) assms(8) have nb: "\<not> st_broken s" "\<not> st_finish_posted s" by (auto simp: stream_wf_def)
  have wd: "\<not> st_wdone_sent s" "\<not> st_wdone_inflight s" "st_write_inflight s \<longrightarrow> st_write_queue s \<noteq> []"
    using f(1) assms(7) by (auto simp: stream_wf_def)
  have "st_started s \<Longrightarrow> st_write_queue s \<noteq> [] \<Longrightarrow> st_write_inflight s"
    using f(2) nb by (auto simp: writes_flow_def)
  with wd f(3,4) nb have "cl_log (fst ?p) = cl_log c @ (if st_started s \<and> st_write_queue s = []
      then [(a, Op_WritesDone, False)] else [])"
    by (cases "st_started s"; cases "st_write_queue s = []"; cases "st_write_inflight s")
      (simp_all add: s_pump_writes_locked_def cl_post_def)
  then have l: "cl_log (cl_store a ?p) = cl_log c @ (if st_started s \<and> st_write_queue s = []
      then [(a, Op_WritesDone, False)] else [])" by (simp add: cl_store_def split_beta)
  have posted: "grpc_r_stream_writes_done (Some c) cid = Inr (R_Logical True, cl_store a ?p)"
    using assms(4-7) by (simp add: grpc_r_stream_writes_done_def get_client_def Let_def)
  then have "cl_step w ?w"
    using cl_step.called [of "Stream_writes_done cid" w "R_Logical True" "cl_store a ?p"] assms(3)
    by (simp add: cl_exec_def accepted_def)
  with assms(1) have r: "cl_reach ?w" by (rule reachable.step)
  have hc: "half_closed (u64_of_double cid) (cl_store a ?p)"
  proof -
    note live = live_stream [OF cl_invD(1) [OF inv]]
    have "st_wdone_requested s'" if "cl_stream_heap (cl_store a ?p) b = Some s'" "st_id s' = u64_of_double cid" for b s'
      using that live [of b s'] assms(5) by (cases "b = a") (auto simp: cl_store_def split_beta)
    moreover have "unat (u64_of_double cid) < unat (cl_next_id c)"
      using live_id [OF inv, of "u64_of_double cid"] assms(5) by (simp add: live_def)
    moreover have "cl_next_id (cl_store a ?p) = cl_next_id c" by (simp add: cl_store_def s_pump_writes_locked_def cl_post_def)
    ultimately show ?thesis by (simp add: half_closed_def)
  qed
  have "grpc_r_stream_writes_done (Some (w_client w2)) cid = Inr (R_Logical False, w_client w2) \<and>
      (\<forall>bytes. grpc_r_stream_send (Some (w_client w2)) cid bytes = Inr (R_Logical False, w_client w2))"
    if w2: "cl_step\<^sup>*\<^sup>* ?w w2" "w_calls w2 < 2 ^ 64 - 1" "\<not> cl_closed (w_client w2)" for w2
  proof -
    from half_closed_for_good [OF w2(1) r _ w2(2), of "u64_of_double cid"] hc
    have "cl_reach w2" "half_closed (u64_of_double cid) (w_client w2)" by simp_all
    with half_closed_refuses [OF reach_inv(1) [OF _ w2(2)] w2(3)] show ?thesis by blast
  qed
  with posted l show ?thesis by blast
qed

theorem client_half_close_once_witness:
  "\<exists>c'. grpc_r_stream_writes_done (Some (w_client demo_throttled)) 1 = Inr (R_Logical True, c') \<and>
     cl_log c' = cl_log (w_client demo_throttled) @ [(0, Op_WritesDone, False)] \<and>
     grpc_r_stream_writes_done (Some c') 1 = Inr (R_Logical False, c')"
proof -
  obtain s where s: "cl_stream_heap (w_client demo_throttled) 0 = Some s" "\<not> st_wdone_requested s" "\<not> st_want_finish s"
    and g: "st_started s" "st_write_queue s = []"
    by (simp add: demo_throttled_def demo_defs Let_def)
  have o: "\<not> cl_closed (w_client demo_throttled)" "m_find (cl_streams (w_client demo_throttled)) (u64_of_double 1) = Some 0"
    "w_calls demo_throttled + 1 < 2 ^ 64 - 1"
    by (simp_all add: demo_throttled_def demo_defs Let_def)
  from client_half_close_once [OF reach_demo_throttled demo_throttled_calls refl o(1,2) s] obtain c' where
    c': "grpc_r_stream_writes_done (Some (w_client demo_throttled)) 1 = Inr (R_Logical True, c')"
    "cl_log c' = cl_log (w_client demo_throttled) @ (if st_started s \<and> st_write_queue s = [] then [(0, Op_WritesDone, False)] else [])"
    and later: "\<forall>w2. cl_step\<^sup>*\<^sup>* (demo_throttled\<lparr>w_client := c', w_calls := w_calls demo_throttled + 1\<rparr>) w2 \<and>
       w_calls w2 < 2 ^ 64 - 1 \<and> \<not> cl_closed (w_client w2) \<longrightarrow>
       grpc_r_stream_writes_done (Some (w_client w2)) 1 = Inr (R_Logical False, w_client w2) \<and>
       (\<forall>bytes. grpc_r_stream_send (Some (w_client w2)) 1 bytes = Inr (R_Logical False, w_client w2))" by blast
  have "\<not> cl_closed c'" using c'(1) o(1) by (auto simp: demo_throttled_def demo_defs Let_def)
  with later [rule_format, of "demo_throttled\<lparr>w_client := c', w_calls := w_calls demo_throttled + 1\<rparr>"] o(3) c' g
  show ?thesis by auto
qed

text \<open>
  A negative write buffer is not refused but becomes one of more than \<open>2 ^ 63\<close> messages: the
  conversion to \<^verbatim>\<open>size_t\<close> wraps around, so the queue of the stream is in effect unbounded.
\<close>

theorem client_negative_write_buffer:
  assumes "\<not> cl_closed c" and "write_cap < 0" and "- (2 ^ 31) \<le> write_cap"
  shows "\<exists>v c' s. grpc_r_stream_start now (Some c) args read_cap write_cap = Inr (v, c') \<and>
    cl_stream_heap c' (cl_next_addr c) = Some s \<and> int (unat (st_write_cap s)) = 2 ^ 64 + write_cap"
proof -
  have "uint (word_of_int write_cap :: u64) = write_cap mod 2 ^ 64" by (simp add: uint_word_of_int)
  also have "write_cap mod 2 ^ 64 = (write_cap + 2 ^ 64) mod 2 ^ 64" by simp
  also have "\<dots> = write_cap + 2 ^ 64" by (rule mod_pos_pos_trivial) (use assms in simp_all)
  finally have "int (unat (word_of_int write_cap :: u64)) = 2 ^ 64 + write_cap" by (simp flip: uint_nat)
  with assms(1) show ?thesis by (simp add: grpc_r_stream_start_def get_client_def Let_def cl_post_def)
qed

theorem client_negative_write_buffer_witness:
  "\<exists>v c' s. grpc_r_stream_start 0 (Some (w_client demo_world)) demo_args 16 (-1) = Inr (v, c') \<and>
     cl_stream_heap c' 0 = Some s \<and> int (unat (st_write_cap s)) = 2 ^ 64 + (-1)"
proof -
  have "\<not> cl_closed (w_client demo_world)" "cl_next_addr (w_client demo_world) = 0" by (simp_all add: demo_world_def)
  with client_negative_write_buffer [OF this(1), of "-1" 0 demo_args 16] show ?thesis by simp
qed

section \<open>Converting a batch\<close>

lemma events_to_r_fails:
  assumes "e \<in> set evs" and "\<exists>x. cl_event_to_r mkCharLen e = Inl x"
  shows "\<exists>x. cl_events_to_r mkCharLen evs = Inl x"
  using assms(1)
proof (induction evs)
  case (Cons ev evs)
  show ?case
  proof (cases "cl_event_to_r mkCharLen ev")
    case (Inr v)
    with assms(2) Cons.prems have "e \<in> set evs" by auto
    with Cons.IH Inr show ?thesis by auto
  qed simp
qed simp

text \<open>
  C30: A batch is taken out of the deque before it is converted, so an R error in the conversion
  loses it.  If the trailing metadata of one unary completion or stream status in the batch holds
  a value that R cannot represent as a string (\<^verbatim>\<open>Rf_mkCharLen\<close> raises on an embedded NUL, which a
  binary \<open>-bin\<close> header may contain), the poll raises and none of the batch's events, of whatever
  call, is ever delivered.
\<close>

theorem client_poll_error_loses_batch:
  assumes "cl_reach w" and "w_calls w < 2 ^ 64 - 1" and "c = w_client w" and "\<not> cl_closed c"
    and "e \<in> set (take (nat maxn) (cl_ready c))" and "terminal e" and "(k, v) \<in> set (ev_trailing_md e)"
    and "\<And>s n. CHR 0x00 \<in> set s \<Longrightarrow> mkCharLen s n = Inl (Rf_error ''embedded nul in string'')"
    and "CHR 0x00 \<in> set v"
  shows "\<exists>x c'. grpc_r_client_poll mkCharLen (Some c) maxn 0 None [] = Some (Inr (Inl x, c')) \<and>
    cl_ready c' = drop (nat maxn) (cl_ready c)"
proof -
  note inv = reach_inv(1) [OF assms(1,2), folded assms(3)]
  have P: "matches ev_id None = (\<lambda>e. True)" by (simp add: matches_def fun_eq_iff)
  from cl_poll_locked_ok [OF inv, of None maxn] obtain c' where
    p: "cl_poll_locked None maxn c = Inr (take (nat maxn) (cl_ready c), c')" "cl_ready c' = drop (nat maxn) (cl_ready c)"
    using fst_take_matching [of "\<lambda>e. True" "nat maxn" "cl_ready c"] filter_snd_take_matching [of "\<lambda>e. True" "nat maxn" "cl_ready c"]
    by (auto simp: P)
  from pairs_loop_fails [of mkCharLen v _ k, OF assms(8) [OF assms(9)] assms(7), of "[]" "[]"] obtain y where
    "md_pairs_or_null mkCharLen (ev_trailing_md e) = Inl y"
    by (auto simp: md_pairs_or_null_def grpc_pairs_to_r_def)
  with assms(6) have "\<exists>x. cl_event_to_r mkCharLen e = Inl x"
    by (cases "md_pairs_or_null mkCharLen (ev_initial_md e)") (auto simp: cl_event_to_r_def terminal_def)
  from events_to_r_fails [OF assms(5) this] obtain x where "cl_events_to_r mkCharLen (take (nat maxn) (cl_ready c)) = Inl x" by blast
  with p assms(4) show ?thesis by (auto simp: grpc_r_client_poll_def client_poll_eq cl_wait_def)
qed

theorem client_poll_error_loses_batch_witness:
  "\<exists>x c'. grpc_r_client_poll mk_char_nul (Some (w_client demo_nul)) 8 0 None [] = Some (Inr (Inl x, c')) \<and>
     cl_ready c' = [] \<and> length (cl_ready (w_client demo_nul)) = 2"
proof -
  have f: "w_calls demo_nul < 2 ^ 64 - 1" "\<not> cl_closed (w_client demo_nul)" and n: "length (cl_ready (w_client demo_nul)) = 2"
    and e: "terminal (cl_ready (w_client demo_nul) ! 1)" "(''k-bin'', [CHR 0x00]) \<in> set (ev_trailing_md (cl_ready (w_client demo_nul) ! 1))"
    by (simp_all add: demo_nul_def demo_defs Let_def terminal_def unary_event_def cl_event_init_def copy_md_eq split_beta)
  have m: "cl_ready (w_client demo_nul) ! 1 \<in> set (take (nat 8) (cl_ready (w_client demo_nul)))"
    using n by simp
  have k: "CHR 0x00 \<in> set s \<Longrightarrow> mk_char_nul s n = Inl (Rf_error ''embedded nul in string'')" for s n by (simp add: mk_char_nul_def)
  from client_poll_error_loses_batch [OF reach_demo_nul f(1) refl f(2) m e k] n show ?thesis by simp
qed

end
