(* ===== verification/Server.thy ===== *)
theory Server
  imports Conversions Event_Queue
begin

text \<open>
  The asynchronous server of \<^verbatim>\<open>src/server.cpp\<close>: its data, the completion thread's handler for
  every tag, and the entry points R calls.  As in the client, objects live in an explicit store,
  every dereference goes through \<^const>\<open>deref\<close>, what the server starts on the library is recorded
  in \<open>sv_cq\<close> (while outstanding) and \<open>sv_log\<close> (for good), and what the library reports with a
  completion is the argument of the handler.
\<close>

section \<open>Data\<close>

datatype svop = SV_accept | SV_read | SV_write | SV_done | SV_finish

datatype sv_tag = Sv_tag (sv_tag_call: addr) (sv_tag_kind: svop)

text \<open>The part of \<^verbatim>\<open>grpc::GenericServerContext\<close> that the server writes.\<close>

record server_context =
  sx_trailing_md :: md_pairs
  sx_cancelled :: bool

type_synonym grpc_status = "int \<times> string"

record sv_call =
  sc_id :: u64
  sc_ctx :: server_context
  sc_pending :: int
  sc_delivered :: bool
  sc_replied :: bool
  sc_dead :: bool
  sc_read_inflight :: bool
  sc_write_inflight :: bool
  sc_finish_posted :: bool
  sc_write_queue :: "string list"
  sc_write_cap :: nat
  sc_has_final_write :: bool
  sc_final_write :: string
  sc_final_status :: grpc_status

definition sv_call_init :: sv_call where
  "sv_call_init = \<lparr>sc_id = 0, sc_ctx = \<lparr>sx_trailing_md = [], sx_cancelled = False\<rparr>, sc_pending = 0,
     sc_delivered = False, sc_replied = False, sc_dead = False, sc_read_inflight = False,
     sc_write_inflight = False, sc_finish_posted = False, sc_write_queue = [], sc_write_cap = 16,
     sc_has_final_write = False, sc_final_write = [], sc_final_status = (0, [])\<rparr>"

text \<open>Types: 0 request, 1 cancelled, 2 stream_msg, 3 client_done, 4 stream_writable.\<close>

record sv_event =
  se_type :: nat
  se_id :: u64
  se_method :: string
  se_request :: string
  se_metadata :: md_pairs
  se_deadline_ms :: int
  se_peer :: string
  se_identity :: "string list"

definition sv_event_init :: sv_event where
  "sv_event_init = \<lparr>se_type = 0, se_id = 0, se_method = [], se_request = [], se_metadata = [],
     se_deadline_ms = -1, se_peer = [], se_identity = []\<rparr>"

text \<open>The operations started on the library; the terminal ones carry the trailing metadata set so far.\<close>

datatype sv_op =
    SOp_RequestCall
  | SOp_Read
  | SOp_Write string
  | SOp_WriteAndFinish string grpc_status md_pairs
  | SOp_Finish grpc_status md_pairs

datatype server_creds = Server_insecure | Server_ssl bool string string string

record server_conf =
  sf_address :: string
  sf_creds :: server_creds
  sf_args :: "(string \<times> int) list"

record rserver =
  sv_conf :: server_conf
  sv_wake :: wake_handle
  sv_port :: int
  sv_accept_window :: int
  sv_max_active :: int
  sv_active :: "(u64 \<times> addr) list"
  sv_ready :: "sv_event list"
  sv_accepts_outstanding :: int
  sv_next_id :: u64
  sv_closed :: bool
  sv_shutting :: bool
  sv_heap :: "addr \<rightharpoonup> sv_call"
  sv_next_addr :: addr
  sv_cq :: "sv_tag list"
  sv_cq_shut :: bool
  sv_log :: "(addr \<times> sv_op \<times> bool) list"

text \<open>
  What the library hands over with one completion: \<open>sp_left_ms\<close> is the deadline minus the current
  time in milliseconds, \<open>sp_identity\<close> is absent when there is no authentication context.
\<close>

record sv_completion =
  sp_ok :: bool
  sp_dump :: "string list option"
  sp_method :: string
  sp_metadata :: md_pairs
  sp_left_ms :: int
  sp_peer :: string
  sp_identity :: "string list option"

section \<open>Posting operations, queueing events\<close>

definition sv_post :: "addr \<Rightarrow> svop \<Rightarrow> sv_op \<Rightarrow> rserver \<Rightarrow> rserver" where
  "sv_post a k op s = s\<lparr>sv_cq := sv_cq s @ [Sv_tag a k], sv_log := sv_log s @ [(a, op, sv_cq_shut s)]\<rparr>"

definition sv_signal :: "rserver \<Rightarrow> rserver" where
  "sv_signal s = s\<lparr>sv_wake := wake_signal (sv_wake s)\<rparr>"

definition push_event_locked :: "sv_event \<Rightarrow> rserver \<Rightarrow> rserver" where
  "push_event_locked ev s = sv_signal (s\<lparr>sv_ready := sv_ready s @ [ev]\<rparr>)"

section \<open>Helpers\<close>

text \<open>
  One accept slot: a fresh object whose only outstanding tag is the accept (the done tag that
  \<^verbatim>\<open>AsyncNotifyWhenDone\<close> registers becomes live when the accept succeeds).
\<close>

definition post_accept :: "rserver \<Rightarrow> rserver" where
  "post_accept s =
     (let a = sv_next_addr s;
          c = sv_call_init\<lparr>sc_pending := 1\<rparr>;
          s = s\<lparr>sv_next_addr := a + 1, sv_heap := (sv_heap s)(a \<mapsto> c)\<rparr>;
          s = sv_post a SV_accept SOp_RequestCall s
      in s\<lparr>sv_accepts_outstanding := sv_accepts_outstanding s + 1\<rparr>)"

definition accepts_wanted :: "rserver \<Rightarrow> bool" where
  "accepts_wanted s \<longleftrightarrow> \<not> sv_shutting s \<and> sv_accepts_outstanding s < sv_accept_window s \<and>
     int_of_size (m_size (sv_active s)) + sv_accepts_outstanding s < sv_max_active s"

function post_accepts_locked :: "rserver \<Rightarrow> rserver" where
  "post_accepts_locked s = (if accepts_wanted s then post_accepts_locked (post_accept s) else s)"
  by pat_completeness auto

termination
  by (relation "measure (\<lambda>s. nat (sv_accept_window s - sv_accepts_outstanding s))")
    (auto simp: accepts_wanted_def post_accept_def Let_def sv_post_def)

declare post_accepts_locked.simps [simp del]

definition pump_locked :: "addr \<Rightarrow> rserver \<times> sv_call \<Rightarrow> rserver \<times> sv_call" where
  "pump_locked a = (\<lambda>(s, c).
     if sv_shutting s \<or> sc_dead c \<or> sc_finish_posted c then (s, c)
     else if sc_write_inflight c then (s, c)
     else if sc_write_queue c \<noteq> []
     then (sv_post a SV_write (SOp_Write (hd (sc_write_queue c))) s,
           c\<lparr>sc_write_inflight := True, sc_pending := sc_pending c + 1\<rparr>)
     else if sc_replied c
     then (sv_post a SV_finish
             (if sc_has_final_write c
              then SOp_WriteAndFinish (sc_final_write c) (sc_final_status c) (sx_trailing_md (sc_ctx c))
              else SOp_Finish (sc_final_status c) (sx_trailing_md (sc_ctx c))) s,
           c\<lparr>sc_finish_posted := True, sc_pending := sc_pending c + 1\<rparr>)
     else (s, c))"

definition sv_store :: "addr \<Rightarrow> rserver \<times> sv_call \<Rightarrow> rserver" where
  "sv_store a = (\<lambda>(s, c). s\<lparr>sv_heap := (sv_heap s)(a \<mapsto> c)\<rparr>)"

definition maybe_free_locked :: "addr \<Rightarrow> rserver \<times> sv_call \<Rightarrow> rserver" where
  "maybe_free_locked a = (\<lambda>(s, c).
     if sc_pending c = 0
     then let s = (if sc_id c \<noteq> 0 then s\<lparr>sv_active := m_erase (sc_id c) (sv_active s)\<rparr> else s)
          in s\<lparr>sv_heap := (sv_heap s)(a := None)\<rparr>
     else sv_store a (s, c))"

section \<open>The completion thread\<close>

definition request_deadline :: "int \<Rightarrow> int" where
  "request_deadline ms = (if ms > 0 \<and> ms < 31536000000 then ms else -1)"

definition request_event :: "u64 \<Rightarrow> sv_completion \<Rightarrow> sv_event" where
  "request_event i cp =
     sv_event_init\<lparr>se_id := i, se_request := snd (grpc_byte_buffer_to_string (sp_dump cp) []),
       se_type := 0, se_method := sp_method cp, se_metadata := copy_md (sp_metadata cp) [],
       se_deadline_ms := request_deadline (sp_left_ms cp), se_peer := sp_peer cp,
       se_identity := (case sp_identity cp of None \<Rightarrow> [] | Some ids \<Rightarrow> ids)\<rparr>"

definition stream_msg_event :: "u64 \<Rightarrow> sv_completion \<Rightarrow> sv_event" where
  "stream_msg_event i cp =
     sv_event_init\<lparr>se_id := i, se_request := snd (grpc_byte_buffer_to_string (sp_dump cp) []),
       se_type := 2\<rparr>"

definition plain_event :: "nat \<Rightarrow> u64 \<Rightarrow> sv_event" where
  "plain_event ty i = sv_event_init\<lparr>se_type := ty, se_id := i\<rparr>"

definition run_accept :: "addr \<Rightarrow> sv_completion \<Rightarrow> rserver \<times> sv_call \<Rightarrow> rserver" where
  "run_accept a cp = (\<lambda>(s, c).
     let s = s\<lparr>sv_accepts_outstanding := sv_accepts_outstanding s - 1\<rparr>
     in if sp_ok cp
        then let c = c\<lparr>sc_id := sv_next_id s\<rparr>;
                 s = s\<lparr>sv_next_id := sv_next_id s + 1\<rparr>;
                 s = s\<lparr>sv_active := m_insert (sc_id c) a (sv_active s)\<rparr>;
                 c = c\<lparr>sc_pending := sc_pending c + 1\<rparr>;
                 (s, c) = (if sv_shutting s then (s, c\<lparr>sc_dead := True\<rparr>)
                           else (sv_post a SV_read SOp_Read s,
                                 c\<lparr>sc_pending := sc_pending c + 1, sc_read_inflight := True\<rparr>))
             in post_accepts_locked (sv_store a (s, c))
        else maybe_free_locked a (s, c))"

definition run_svread :: "addr \<Rightarrow> sv_completion \<Rightarrow> rserver \<times> sv_call \<Rightarrow> rserver" where
  "run_svread a cp = (\<lambda>(s, c).
     let c = c\<lparr>sc_read_inflight := False\<rparr>
     in maybe_free_locked a
          (if sp_ok cp \<and> \<not> sc_dead c
           then if \<not> sc_delivered c
                then (push_event_locked (request_event (sc_id c) cp) s, c\<lparr>sc_delivered := True\<rparr>)
                else (push_event_locked (stream_msg_event (sc_id c) cp) s, c)
           else if sc_delivered c \<and> \<not> sc_dead c
           then (push_event_locked (plain_event 3 (sc_id c)) s, c)
           else (s, c\<lparr>sc_dead := True\<rparr>)))"

definition run_svwrite :: "addr \<Rightarrow> sv_completion \<Rightarrow> rserver \<times> sv_call \<Rightarrow> rserver res" where
  "run_svwrite a cp = (\<lambda>(s, c).
     let c = c\<lparr>sc_write_inflight := False\<rparr>
     in rbind
          (if sp_ok cp \<and> \<not> sc_dead c
           then case sc_write_queue c of
                  [] \<Rightarrow> Inl Empty_deque
                | _ # q \<Rightarrow>
                    let c = c\<lparr>sc_write_queue := q\<rparr>;
                        s = (if q = [] \<and> \<not> sc_replied c
                             then push_event_locked (plain_event 4 (sc_id c)) s else s)
                    in Inr (pump_locked a (s, c))
           else Inr (s, c\<lparr>sc_dead := True\<rparr>))
          (\<lambda>sc. Inr (maybe_free_locked a sc)))"

definition run_svdone :: "addr \<Rightarrow> rserver \<times> sv_call \<Rightarrow> rserver" where
  "run_svdone a = (\<lambda>(s, c).
     let (s, c) = (if sc_delivered c \<and> \<not> sc_replied c
                   then (push_event_locked (plain_event 1 (sc_id c)) s, c\<lparr>sc_dead := True\<rparr>)
                   else (s, c))
     in post_accepts_locked (maybe_free_locked a (s, c)))"

definition run_svfinish :: "addr \<Rightarrow> rserver \<times> sv_call \<Rightarrow> rserver" where
  "run_svfinish a sc = post_accepts_locked (maybe_free_locked a sc)"

definition sv_dispatch :: "addr \<Rightarrow> svop \<Rightarrow> sv_completion \<Rightarrow> rserver \<times> sv_call \<Rightarrow> rserver res" where
  "sv_dispatch a k cp sc =
     (case k of
        SV_accept \<Rightarrow> Inr (run_accept a cp sc)
      | SV_read \<Rightarrow> Inr (run_svread a cp sc)
      | SV_write \<Rightarrow> run_svwrite a cp sc
      | SV_done \<Rightarrow> Inr (run_svdone a sc)
      | SV_finish \<Rightarrow> Inr (run_svfinish a sc))"

text \<open>
  \<^verbatim>\<open>cq->Next\<close> takes the tag off the queue; a successful accept makes the done tag of that call
  outstanding, as \<^verbatim>\<open>AsyncNotifyWhenDone\<close> documents.
\<close>

definition sv_next :: "sv_tag \<Rightarrow> bool \<Rightarrow> rserver \<Rightarrow> rserver" where
  "sv_next t ok s =
     s\<lparr>sv_cq := remove1 t (sv_cq s) @
         (if sv_tag_kind t = SV_accept \<and> ok then [Sv_tag (sv_tag_call t) SV_done] else [])\<rparr>"

definition sv_handle :: "sv_tag \<times> sv_completion \<Rightarrow> rserver \<Rightarrow> rserver res" where
  "sv_handle = (\<lambda>(t, cp) s.
     let s = sv_next t (sp_ok cp) s;
         a = sv_tag_call t
     in rbind (deref (sv_heap s) a) (\<lambda>c.
          sv_dispatch a (sv_tag_kind t) cp (s, c\<lparr>sc_pending := sc_pending c - 1\<rparr>)))"

fun sv_run :: "(sv_tag \<times> sv_completion) list \<Rightarrow> rserver \<Rightarrow> rserver res option" where
  "sv_run [] s = (if sv_cq_shut s \<and> sv_cq s = [] then Some (Inr s) else None)"
| "sv_run (tc # tcs) s =
     (if fst tc \<notin> set (sv_cq s) then None
      else case sv_handle tc s of Inl e \<Rightarrow> Some (Inl e) | Inr s \<Rightarrow> sv_run tcs s)"

section \<open>Shutdown and the external pointer\<close>

definition rserver_shutdown_begin :: "rserver \<Rightarrow> rserver" where
  "rserver_shutdown_begin s = s\<lparr>sv_closed := True, sv_shutting := True, sv_cq_shut := True\<rparr>"

definition delete_sv_call :: "addr \<Rightarrow> rserver \<Rightarrow> rserver res" where
  "delete_sv_call a s = rbind (deref (sv_heap s) a) (\<lambda>_. Inr (s\<lparr>sv_heap := (sv_heap s)(a := None)\<rparr>))"

text \<open>The second result is the list of descriptors passed to \<^verbatim>\<open>close()\<close>.\<close>

definition rserver_shutdown_end :: "rserver \<Rightarrow> (rserver \<times> int list) res" where
  "rserver_shutdown_end s =
     rbind (rfold (\<lambda>kv. delete_sv_call (snd kv)) (sv_active s) s) (\<lambda>s.
       let (wake, fds) = wake_close (sv_wake s)
       in Inr (s\<lparr>sv_active := [], sv_wake := wake\<rparr>, fds))"

definition rserver_shutdown :: "(sv_tag \<times> sv_completion) list \<Rightarrow> rserver \<Rightarrow> (rserver \<times> int list) res option" where
  "rserver_shutdown tcs s =
     (if sv_closed s then Some (Inr (s, []))
      else case sv_run tcs (rserver_shutdown_begin s) of
             None \<Rightarrow> None
           | Some (Inl e) \<Rightarrow> Some (Inl e)
           | Some (Inr s) \<Rightarrow> Some (rserver_shutdown_end s))"

definition rserver_finalizer :: "(sv_tag \<times> sv_completion) list \<Rightarrow> rserver option \<Rightarrow> rserver option res option" where
  "rserver_finalizer tcs xp =
     (case xp of
        None \<Rightarrow> Some (Inr None)
      | Some s \<Rightarrow>
          (case rserver_shutdown tcs s of
             None \<Rightarrow> None
           | Some (Inl e) \<Rightarrow> Some (Inl e)
           | Some (Inr s) \<Rightarrow> Some (Inr None)))"

definition get_server :: "rserver option \<Rightarrow> rserver res" where
  "get_server xp =
     (case xp of
        None \<Rightarrow> Inl (Rf_error ''grpc server is closed'')
      | Some s \<Rightarrow> if sv_closed s then Inl (Rf_error ''grpc server is closed'') else Inr s)"

section \<open>Creating a server\<close>

record server_opts =
  so_address :: string
  so_accept_window :: int
  so_max_active :: int
  so_tls :: bool
  so_ca :: "string option"
  so_cert :: "string option"
  so_key :: "string option"
  so_require_client :: bool
  so_keepalive_ms :: "int option"
  so_keepalive_timeout_ms :: "int option"
  so_min_ping_interval_ms :: "int option"

definition server_channel_args :: "server_opts \<Rightarrow> (string \<times> int) list" where
  "server_channel_args o' =
     (case so_keepalive_ms o' of
        None \<Rightarrow> []
      | Some ms \<Rightarrow> [(''grpc.keepalive_time_ms'', ms),
                    (''grpc.http2.max_pings_without_data'', 0),
                    (''grpc.keepalive_permit_without_calls'', 1)]) @
     (case so_keepalive_timeout_ms o' of
        None \<Rightarrow> []
      | Some ms \<Rightarrow> [(''grpc.keepalive_timeout_ms'', ms)]) @
     (case so_min_ping_interval_ms o' of
        None \<Rightarrow> []
      | Some ms \<Rightarrow> [(''grpc.http2.min_ping_interval_without_data_ms'', ms)])"

text \<open>
  \<open>pipe_result\<close> is what \<^verbatim>\<open>pipe()\<close> does, \<open>built\<close> what \<^verbatim>\<open>BuildAndStart\<close> does: \<open>None\<close>, or the port.  The
  second result is the list of descriptors that are closed again.
\<close>

definition grpc_r_server2_create :: "(int \<times> int \<times> nat) option \<Rightarrow> int option \<Rightarrow> server_opts \<Rightarrow> rserver res \<times> int list" where
  "grpc_r_server2_create pipe_result built o' =
     (let (opened, wake) = wake_open pipe_result wake_handle_init
      in if \<not> opened then (Inl (Rf_error ''wake handle creation failed''), [])
         else
           let creds = (if so_tls o'
                        then Server_ssl (so_require_client o') (chr_or_empty (so_ca o'))
                               (chr_or_empty (so_key o')) (chr_or_empty (so_cert o'))
                        else Server_insecure)
           in case built of
                None \<Rightarrow> (Inl (Rf_error (''gRPC server failed to start on '' @ [CHR 0x27] @ so_address o' @ [CHR 0x27])),
                         snd (wake_close wake))
              | Some port \<Rightarrow>
                  (Inr (post_accepts_locked
                    \<lparr>sv_conf = \<lparr>sf_address = so_address o', sf_creds = creds, sf_args = server_channel_args o'\<rparr>,
                     sv_wake = wake, sv_port = port, sv_accept_window = so_accept_window o',
                     sv_max_active = so_max_active o', sv_active = [], sv_ready = [],
                     sv_accepts_outstanding = 0, sv_next_id = 1, sv_closed = False, sv_shutting = False,
                     sv_heap = Map.empty, sv_next_addr = 0, sv_cq = [], sv_cq_shut = False, sv_log = []\<rparr>), []))"

definition grpc_r_server2_close :: "(sv_tag \<times> sv_completion) list \<Rightarrow> rserver option \<Rightarrow> (sexp \<times> rserver option) res option" where
  "grpc_r_server2_close tcs xp =
     map_option (\<lambda>r. rbind r (\<lambda>xp. Inr (R_NilValue, xp))) (rserver_finalizer tcs xp)"

definition grpc_r_server2_fd :: "rserver option \<Rightarrow> (sexp \<times> rserver) res" where
  "grpc_r_server2_fd xp = rbind (get_server xp) (\<lambda>s. Inr (R_Integer (wake_fd (sv_wake s)), s))"

definition grpc_r_server2_port :: "rserver option \<Rightarrow> (sexp \<times> rserver) res" where
  "grpc_r_server2_port xp = rbind (get_server xp) (\<lambda>s. Inr (R_Integer (sv_port s), s))"

definition grpc_r_server2_pending :: "rserver option \<Rightarrow> (sexp \<times> rserver) res" where
  "grpc_r_server2_pending xp =
     rbind (get_server xp) (\<lambda>s. Inr (R_Integer (int_of_size (m_size (sv_active s))), s))"

section \<open>Answering a call\<close>

definition is_raw :: "sexp \<Rightarrow> bool" where
  "is_raw x = (case x of R_Raw _ \<Rightarrow> True | _ \<Rightarrow> False)"

definition raw_bytes :: "sexp \<Rightarrow> string" where
  "raw_bytes x = (case x of R_Raw b \<Rightarrow> b | _ \<Rightarrow> [])"

definition is_string :: "sexp \<Rightarrow> bool" where
  "is_string x = (case x of R_String _ _ \<Rightarrow> True | _ \<Rightarrow> False)"

text \<open>\<^verbatim>\<open>STRING_ELT(x, 0)\<close>: reading the first element of an empty vector is out of bounds.\<close>

definition string_elt0 :: "sexp \<Rightarrow> string res" where
  "string_elt0 x = (case x of R_String (m # _) _ \<Rightarrow> Inr m | _ \<Rightarrow> Inl Out_of_bounds)"

definition add_trailing_md :: "md_pairs option \<Rightarrow> server_context \<Rightarrow> server_context" where
  "add_trailing_md metadata ctx =
     (case metadata of
        None \<Rightarrow> ctx
      | Some md \<Rightarrow> foldl (\<lambda>ctx kv. ctx\<lparr>sx_trailing_md := sx_trailing_md ctx @ [kv]\<rparr>) ctx md)"

text \<open>The lookup that every entry point on one call starts with.\<close>

definition with_call :: "rserver \<Rightarrow> int \<Rightarrow> (addr \<Rightarrow> sv_call \<Rightarrow> (sexp \<times> rserver) res) \<Rightarrow> (sexp \<times> rserver) res" where
  "with_call s cid f =
     (case m_find (sv_active s) (u64_of_double cid) of
        None \<Rightarrow> Inr (R_Logical False, s)
      | Some a \<Rightarrow> rbind (deref (sv_heap s) a) (f a))"

definition grpc_r_server2_reply ::
  "rserver option \<Rightarrow> int \<Rightarrow> sexp \<Rightarrow> int \<Rightarrow> sexp \<Rightarrow> md_pairs option \<Rightarrow> (sexp \<times> rserver) res" where
  "grpc_r_server2_reply xp cid response code message metadata =
     rbind (get_server xp) (\<lambda>s.
       if code = 0 \<and> \<not> is_raw response
       then Inl (Rf_error ''response must be a raw vector when status is OK'')
       else if code \<noteq> 0 \<and> \<not> is_string message
       then Inl (Rf_error ''message must be a character string'')
       else with_call s cid (\<lambda>a c.
         if \<not> sc_delivered c \<or> sc_replied c \<or> sc_dead c then Inr (R_Logical False, s)
         else
           let c = c\<lparr>sc_replied := True\<rparr>;
               c = c\<lparr>sc_ctx := add_trailing_md metadata (sc_ctx c)\<rparr>
           in rbind (if code = 0
                     then Inr (c\<lparr>sc_final_write := raw_bytes response, sc_has_final_write := True,
                                 sc_final_status := (0, [])\<rparr>)
                     else rbind (string_elt0 message) (\<lambda>msg.
                            Inr (c\<lparr>sc_has_final_write := False, sc_final_status := (code, msg)\<rparr>)))
                (\<lambda>c. Inr (R_Logical True, sv_store a (pump_locked a (s, c))))))"

definition grpc_r_server2_read :: "rserver option \<Rightarrow> int \<Rightarrow> (sexp \<times> rserver) res" where
  "grpc_r_server2_read xp cid =
     rbind (get_server xp) (\<lambda>s. with_call s cid (\<lambda>a c.
       if \<not> sc_delivered c \<or> sc_dead c \<or> sc_read_inflight c \<or> sc_finish_posted c
       then Inr (R_Logical False, s)
       else
         let c = c\<lparr>sc_read_inflight := True, sc_pending := sc_pending c + 1\<rparr>
         in Inr (R_Logical True, sv_store a (sv_post a SV_read SOp_Read s, c))))"

definition grpc_r_server2_cancel :: "rserver option \<Rightarrow> int \<Rightarrow> (sexp \<times> rserver) res" where
  "grpc_r_server2_cancel xp cid =
     rbind (get_server xp) (\<lambda>s. with_call s cid (\<lambda>a c.
       if sc_dead c then Inr (R_Logical False, s)
       else Inr (R_Logical True, sv_store a (s, c\<lparr>sc_ctx := (sc_ctx c)\<lparr>sx_cancelled := True\<rparr>\<rparr>))))"

definition grpc_r_server2_send :: "rserver option \<Rightarrow> int \<Rightarrow> string \<Rightarrow> (sexp \<times> rserver) res" where
  "grpc_r_server2_send xp cid bytes =
     rbind (get_server xp) (\<lambda>s. with_call s cid (\<lambda>a c.
       if \<not> sc_delivered c \<or> sc_dead c \<or> sc_replied c then Inr (R_Logical False, s)
       else if sc_write_cap c \<le> length (sc_write_queue c) then Inr (R_Logical False, s)
       else
         let c = c\<lparr>sc_write_queue := sc_write_queue c @ [bytes]\<rparr>
         in Inr (R_Logical True, sv_store a (pump_locked a (s, c)))))"

text \<open>\<^verbatim>\<open>erase(begin() + 1, end())\<close> on an empty deque would be undefined.\<close>

definition discard_queue :: "sv_call \<Rightarrow> sv_call res" where
  "discard_queue c =
     (if sc_write_inflight c
      then case sc_write_queue c of
             [] \<Rightarrow> Inl Empty_deque
           | m # _ \<Rightarrow> Inr (c\<lparr>sc_write_queue := [m]\<rparr>)
      else Inr (c\<lparr>sc_write_queue := []\<rparr>))"

definition grpc_r_server2_finish ::
  "rserver option \<Rightarrow> int \<Rightarrow> int \<Rightarrow> sexp \<Rightarrow> md_pairs option \<Rightarrow> bool \<Rightarrow> (sexp \<times> rserver) res" where
  "grpc_r_server2_finish xp cid code message metadata drain =
     rbind (get_server xp) (\<lambda>s.
       if code \<noteq> 0 \<and> \<not> is_string message
       then Inl (Rf_error ''message must be a character string'')
       else with_call s cid (\<lambda>a c.
         if \<not> sc_delivered c \<or> sc_replied c \<or> sc_dead c then Inr (R_Logical False, s)
         else
           let c = c\<lparr>sc_replied := True\<rparr>
           in rbind (if \<not> drain then discard_queue c else Inr c) (\<lambda>c.
              let c = c\<lparr>sc_ctx := add_trailing_md metadata (sc_ctx c)\<rparr>;
                  c = c\<lparr>sc_has_final_write := False\<rparr>
              in rbind (if code = 0 then Inr (c\<lparr>sc_final_status := (0, [])\<rparr>)
                        else rbind (string_elt0 message) (\<lambda>msg. Inr (c\<lparr>sc_final_status := (code, msg)\<rparr>)))
                   (\<lambda>c. Inr (R_Logical True, sv_store a (pump_locked a (s, c)))))))"

section \<open>Polling\<close>

definition sv_drain :: "rserver \<Rightarrow> rserver" where
  "sv_drain s = s\<lparr>sv_wake := wake_drain (sv_wake s)\<rparr>"

definition sv_found :: "u64 option \<Rightarrow> rserver \<Rightarrow> bool" where
  "sv_found only_id s = have_match se_id only_id (sv_ready s)"

fun sv_batch_loop ::
  "u64 option \<Rightarrow> int \<Rightarrow> sv_event list \<Rightarrow> sv_event list \<Rightarrow> sv_event list \<Rightarrow> rserver \<Rightarrow> sv_event list \<times> rserver" where
  "sv_batch_loop only_id maxn batch pre [] s = (batch, s)"
| "sv_batch_loop only_id maxn batch pre (ev # it) s =
     (if \<not> int (length batch) < maxn then (batch, s)
      else if \<not> matches se_id only_id ev then sv_batch_loop only_id maxn batch (pre @ [ev]) it s
      else sv_batch_loop only_id maxn (batch @ [ev]) pre it (s\<lparr>sv_ready := pre @ it\<rparr>))"

definition sv_poll_locked :: "u64 option \<Rightarrow> int \<Rightarrow> rserver \<Rightarrow> sv_event list \<times> rserver" where
  "sv_poll_locked only_id maxn s =
     (let s = sv_drain s;
          (batch, s) = sv_batch_loop only_id maxn [] [] (sv_ready s) s
      in (batch, if sv_ready s \<noteq> [] then sv_signal s else s))"

definition server_poll ::
  "rserver option \<Rightarrow> int \<Rightarrow> int \<Rightarrow> int option \<Rightarrow> (sv_tag \<times> sv_completion) wait_turn list \<Rightarrow>
   (sv_event list \<times> rserver) res option" where
  "server_poll xp maxn timeout only_id turns =
     (case get_server xp of
        Inl e \<Rightarrow> Some (Inl e)
      | Inr s \<Rightarrow>
          let want = map_option u64_of_double only_id
          in case (if timeout \<noteq> 0
                   then wait_loop (sv_found want) sv_drain sv_handle sv_wake timeout turns s
                   else Some (Inr s)) of
               None \<Rightarrow> None
             | Some (Inl e) \<Rightarrow> Some (Inl e)
             | Some (Inr s) \<Rightarrow> Some (Inr (sv_poll_locked want maxn s)))"

definition type_names :: "string list" where
  "type_names = [''request'', ''cancelled'', ''stream_msg'', ''client_done'', ''stream_writable'']"

definition sv_event_fields :: "string list" where
  "sv_event_fields = [''type'', ''id'', ''method'', ''request'', ''metadata'', ''deadline_ms'',
     ''peer'', ''peer_identity'']"

text \<open>\<^verbatim>\<open>type_names[ev.type]\<close> past the end of the array is out of bounds.\<close>

definition sv_event_to_r :: "mk_char_len \<Rightarrow> sv_event \<Rightarrow> sexp res" where
  "sv_event_to_r mkCharLen ev =
     rbind (if se_type ev < length type_names then Inr (type_names ! se_type ev) else Inl Out_of_bounds) (\<lambda>ty.
     rbind (if se_type ev = 0
            then rbind (grpc_pairs_to_r mkCharLen (se_metadata ev)) (\<lambda>md.
                   Inr (R_String [c_str (se_method ev)] None, md,
                        R_Real (if se_deadline_ms ev < 0 then None else Some (se_deadline_ms ev)),
                        R_String [c_str (se_peer ev)] None,
                        R_String (map c_str (se_identity ev)) None))
            else Inr (R_NilValue, R_NilValue, R_NilValue, R_NilValue, R_NilValue))
       (\<lambda>(method, md, deadline, peer, identity).
          Inr (R_List [R_String [ty] None, R_Real (Some (double_of_u64 (se_id ev))), method,
                       (if se_type ev = 0 \<or> se_type ev = 2 then R_Raw (se_request ev) else R_NilValue),
                       md, deadline, peer, identity]
                 (Some sv_event_fields))))"

fun sv_events_to_r :: "mk_char_len \<Rightarrow> sv_event list \<Rightarrow> sexp list res" where
  "sv_events_to_r mkCharLen [] = Inr []"
| "sv_events_to_r mkCharLen (ev # evs) =
     rbind (sv_event_to_r mkCharLen ev) (\<lambda>e.
     rbind (sv_events_to_r mkCharLen evs) (\<lambda>es. Inr (e # es)))"

definition grpc_r_server2_poll ::
  "mk_char_len \<Rightarrow> rserver option \<Rightarrow> int \<Rightarrow> int \<Rightarrow> int option \<Rightarrow> (sv_tag \<times> sv_completion) wait_turn list \<Rightarrow>
   (sexp res \<times> rserver) res option" where
  "grpc_r_server2_poll mkCharLen xp maxn timeout only_id turns =
     map_option (\<lambda>r. rbind r (\<lambda>(batch, s).
         Inr (rbind (sv_events_to_r mkCharLen batch) (\<lambda>es. Inr (R_List es None)), s)))
       (server_poll xp maxn timeout only_id turns)"

end
