(* ===== verification/Server_Inv.thy ===== *)
theory Server_Inv
  imports Server
begin

text \<open>
  The invariant of one server call: its flags agree with the operations outstanding in the
  completion queue, its write queue stays within its bound, and a terminal status that R has
  requested is always on its way.  Every handler of \<^verbatim>\<open>src/server.cpp\<close> keeps it and touches nothing
  but its own call.
\<close>

section \<open>One call\<close>

definition scnt :: "rserver \<Rightarrow> addr \<Rightarrow> svop \<Rightarrow> nat" where
  "scnt s a k = count_list (sv_cq s) (Sv_tag a k)"

text \<open>An accept slot: nothing has happened to it yet.\<close>

definition slot_ok :: "(svop \<Rightarrow> nat) \<Rightarrow> sv_call \<Rightarrow> bool" where
  "slot_ok n c \<longleftrightarrow> c = sv_call_init\<lparr>sc_pending := 1\<rparr> \<and> (\<forall>k. n k = of_bool (k = SV_accept))"

definition call_wf :: "sv_call \<Rightarrow> bool" where
  "call_wf c \<longleftrightarrow>
     sc_id c \<noteq> 0 \<and>
     (\<not> sc_delivered c \<longrightarrow> \<not> sc_replied c \<and> sc_write_queue c = [] \<and> (sc_dead c \<or> sc_read_inflight c)) \<and>
     (sc_write_inflight c \<longrightarrow> sc_write_queue c \<noteq> []) \<and>
     (sc_finish_posted c \<longrightarrow> sc_replied c \<and> sc_write_queue c = []) \<and>
     sc_write_cap c = 16 \<and> length (sc_write_queue c) \<le> 16"

text \<open>
  The flags agree with the outstanding tags.  Once the done tag has been returned the call is over
  for R: it was never delivered, it has been answered, or it is dead.
\<close>

definition call_tags :: "(svop \<Rightarrow> nat) \<Rightarrow> sv_call \<Rightarrow> bool" where
  "call_tags n c \<longleftrightarrow>
     n SV_accept = 0 \<and> n SV_read = of_bool (sc_read_inflight c) \<and> n SV_write = of_bool (sc_write_inflight c) \<and>
     n SV_done \<le> 1 \<and> n SV_finish \<le> of_bool (sc_finish_posted c) \<and>
     sc_pending c = int (n SV_read + n SV_write + n SV_done + n SV_finish)"

definition call_over :: "(svop \<Rightarrow> nat) \<Rightarrow> sv_call \<Rightarrow> bool" where
  "call_over n c \<longleftrightarrow> (n SV_done = 0 \<longrightarrow> \<not> sc_delivered c \<or> sc_replied c \<or> sc_dead c)"

text \<open>Queued writes and a requested terminal status are being worked on.\<close>

definition call_live :: "bool \<Rightarrow> sv_call \<Rightarrow> bool" where
  "call_live shutting c \<longleftrightarrow>
     shutting \<or> sc_dead c \<or> sc_finish_posted c \<or>
     (sc_write_queue c \<noteq> [] \<or> sc_replied c \<longrightarrow> sc_write_inflight c)"

definition call_ok :: "addr \<Rightarrow> rserver \<times> sv_call \<Rightarrow> bool" where
  "call_ok a = (\<lambda>(s, c). call_wf c \<and> call_tags (scnt s a) c \<and> call_live (sv_shutting s) c)"

lemmas call_defs = call_wf_def call_tags_def call_live_def

section \<open>What a section may touch\<close>

definition slog_flags :: "(addr \<times> sv_op \<times> bool) list \<Rightarrow> bool list" where
  "slog_flags l = map (\<lambda>x. snd (snd x)) l"

lemma slog_flags_simps [simp]:
  "slog_flags [] = []" "slog_flags (x # l) = snd (snd x) # slog_flags l"
  "slog_flags (l @ l') = slog_flags l @ slog_flags l'"
  by (simp_all add: slog_flags_def)

definition sv_touches :: "addr \<Rightarrow> u64 \<Rightarrow> rserver \<Rightarrow> rserver \<Rightarrow> bool" where
  "sv_touches a i s s' \<longleftrightarrow>
     (\<exists>ks l evs. s' = s\<lparr>sv_cq := sv_cq s @ map (Sv_tag a) ks, sv_log := sv_log s @ l,
          sv_ready := sv_ready s @ evs, sv_wake := (wake_signal ^^ length evs) (sv_wake s)\<rparr> \<and>
        SV_accept \<notin> set ks \<and> (\<forall>e \<in> set evs. se_id e = i) \<and> set (slog_flags l) \<subseteq> {sv_cq_shut s} \<and>
        (sv_shutting s \<longrightarrow> ks = [] \<and> l = []))"

lemma sv_touchesI:
  assumes "s' = s\<lparr>sv_cq := sv_cq s @ map (Sv_tag a) ks, sv_log := sv_log s @ l,
      sv_ready := sv_ready s @ evs, sv_wake := (wake_signal ^^ length evs) (sv_wake s)\<rparr>"
    and "SV_accept \<notin> set ks" and "\<forall>e \<in> set evs. se_id e = i" and "set (slog_flags l) \<subseteq> {sv_cq_shut s}"
    and "sv_shutting s \<longrightarrow> ks = [] \<and> l = []"
  shows "sv_touches a i s s'"
  unfolding sv_touches_def using assms by blast

lemma sv_touches_refl [simp, intro]: "sv_touches a i s s"
  by (rule sv_touchesI [where ks = "[]" and l = "[]" and evs = "[]"]) simp_all

lemma sv_touches_trans [trans]:
  assumes "sv_touches a i s1 s2" and "sv_touches a i s2 s3"
  shows "sv_touches a i s1 s3"
proof -
  from assms(1) obtain ks l evs where 1:
    "s2 = s1\<lparr>sv_cq := sv_cq s1 @ map (Sv_tag a) ks, sv_log := sv_log s1 @ l,
       sv_ready := sv_ready s1 @ evs, sv_wake := (wake_signal ^^ length evs) (sv_wake s1)\<rparr>"
    "SV_accept \<notin> set ks" "\<forall>e \<in> set evs. se_id e = i" "set (slog_flags l) \<subseteq> {sv_cq_shut s1}"
    "sv_shutting s1 \<longrightarrow> ks = [] \<and> l = []"
    unfolding sv_touches_def by blast
  from assms(2) obtain ks' l' evs' where 2:
    "s3 = s2\<lparr>sv_cq := sv_cq s2 @ map (Sv_tag a) ks', sv_log := sv_log s2 @ l',
       sv_ready := sv_ready s2 @ evs', sv_wake := (wake_signal ^^ length evs') (sv_wake s2)\<rparr>"
    "SV_accept \<notin> set ks'" "\<forall>e \<in> set evs'. se_id e = i" "set (slog_flags l') \<subseteq> {sv_cq_shut s2}"
    "sv_shutting s2 \<longrightarrow> ks' = [] \<and> l' = []"
    unfolding sv_touches_def by blast
  show ?thesis
    by (rule sv_touchesI [where ks = "ks @ ks'" and l = "l @ l'" and evs = "evs @ evs'"])
      (use 1 2 in \<open>auto simp: funpow_add add.commute [of "length evs"]\<close>)
qed

lemma sv_touches_post:
  "\<not> sv_shutting s \<Longrightarrow> k \<noteq> SV_accept \<Longrightarrow> sv_touches a i s (sv_post a k op s)"
  by (rule sv_touchesI [where ks = "[k]" and l = "[(a, op, sv_cq_shut s)]" and evs = "[]"])
    (simp_all add: sv_post_def)

lemma sv_touches_push: "se_id ev = i \<Longrightarrow> sv_touches a i s (push_event_locked ev s)"
  by (rule sv_touchesI [where ks = "[]" and l = "[]" and evs = "[ev]"])
    (simp_all add: push_event_locked_def sv_signal_def)

lemma sv_touches_frame:
  assumes "sv_touches a i s s'"
  shows "sv_active s' = sv_active s" "sv_next_id s' = sv_next_id s" "sv_next_addr s' = sv_next_addr s"
    "sv_closed s' = sv_closed s" "sv_shutting s' = sv_shutting s" "sv_heap s' = sv_heap s"
    "sv_cq_shut s' = sv_cq_shut s" "sv_accepts_outstanding s' = sv_accepts_outstanding s"
    "sv_accept_window s' = sv_accept_window s" "sv_max_active s' = sv_max_active s"
  using assms by (auto simp: sv_touches_def)

lemma sv_touches_cnt: "sv_touches a i s s' \<Longrightarrow> b \<noteq> a \<Longrightarrow> scnt s' b k = scnt s b k"
  by (auto simp: sv_touches_def scnt_def count_list_0_iff)

section \<open>The helpers\<close>

lemma scnt_simps [simp]:
  "scnt (sv_post a k op s) b j = scnt s b j + (if b = a \<and> j = k then 1 else 0)"
  "scnt (sv_signal s) b j = scnt s b j"
  "scnt (push_event_locked ev s) b j = scnt s b j"
  by (auto simp: scnt_def sv_post_def sv_signal_def push_event_locked_def)

lemma sshutting_simps [simp]:
  "sv_shutting (sv_post a k op s) = sv_shutting s"
  "sv_shutting (push_event_locked ev s) = sv_shutting s"
  by (simp_all add: sv_post_def push_event_locked_def sv_signal_def)

lemma pump_cases:
  obtains (idle) "pump_locked a (s, c) = (s, c)"
      "sv_shutting s \<or> sc_dead c \<or> sc_finish_posted c \<or> sc_write_inflight c \<or>
       sc_write_queue c = [] \<and> \<not> sc_replied c"
  | (writing) m ms where "\<not> sv_shutting s" "\<not> sc_dead c" "\<not> sc_finish_posted c" "\<not> sc_write_inflight c"
      "sc_write_queue c = m # ms"
      "pump_locked a (s, c) = (sv_post a SV_write (SOp_Write m) s,
         c\<lparr>sc_write_inflight := True, sc_pending := sc_pending c + 1\<rparr>)"
  | (finish) op where "\<not> sv_shutting s" "\<not> sc_dead c" "\<not> sc_finish_posted c" "\<not> sc_write_inflight c"
      "sc_write_queue c = []" "sc_replied c"
      "op = (if sc_has_final_write c
         then SOp_WriteAndFinish (sc_final_write c) (sc_final_status c) (sx_trailing_md (sc_ctx c))
         else SOp_Finish (sc_final_status c) (sx_trailing_md (sc_ctx c)))"
      "pump_locked a (s, c) = (sv_post a SV_finish op s,
         c\<lparr>sc_finish_posted := True, sc_pending := sc_pending c + 1\<rparr>)"
proof (cases "sv_shutting s \<or> sc_dead c \<or> sc_finish_posted c \<or> sc_write_inflight c \<or>
    sc_write_queue c = [] \<and> \<not> sc_replied c")
  case True
  then show ?thesis by (intro idle) (auto simp: pump_locked_def)
next
  case False
  show ?thesis
  proof (cases "sc_write_queue c")
    case Nil
    with False show ?thesis by (intro finish [OF _ _ _ _ _ _ refl]) (auto simp: pump_locked_def)
  next
    case (Cons m ms)
    with False show ?thesis by (intro writing [of m ms]) (auto simp: pump_locked_def)
  qed
qed

lemma spump_ok:
  assumes "call_wf c" and "call_tags (scnt s a) c"
  shows "call_ok a (pump_locked a (s, c))"
proof (cases rule: pump_cases [of a s c])
  case idle
  with assms show ?thesis by (auto simp: call_ok_def call_live_def)
next
  case (writing m ms)
  with assms show ?thesis by (clarsimp simp: call_ok_def call_defs)
next
  case (finish op)
  with assms show ?thesis by (clarsimp simp: call_ok_def call_defs)
qed

lemma spump_frame [simp]:
  "sv_touches a i s (fst (pump_locked a (s, c)))"
  "sc_id (snd (pump_locked a (s, c))) = sc_id c"
  "sc_dead (snd (pump_locked a (s, c))) = sc_dead c"
  "sc_delivered (snd (pump_locked a (s, c))) = sc_delivered c"
  "sc_replied (snd (pump_locked a (s, c))) = sc_replied c"
      apply (cases rule: pump_cases [of a s c]; simp add: sv_touches_post)
     apply (cases rule: pump_cases [of a s c]; simp)
    apply (cases rule: pump_cases [of a s c]; simp)
   apply (cases rule: pump_cases [of a s c]; simp)
  apply (cases rule: pump_cases [of a s c]; simp)
  done

lemma pump_pending: "sc_pending c \<le> sc_pending (snd (pump_locked a (s, c)))"
  by (cases rule: pump_cases [of a s c]) simp_all

lemma pump_done: "scnt (fst (pump_locked a (s, c))) a SV_done = scnt s a SV_done"
  by (cases rule: pump_cases [of a s c]) simp_all

section \<open>The handlers, up to the possible deletion of the object\<close>

text \<open>
  The sections that the handlers of \<open>read\<close>, \<open>write\<close> and \<open>done\<close> run on the object before
  \<^const>\<open>maybe_free_locked\<close>.
\<close>

definition read_section :: "sv_completion \<Rightarrow> rserver \<times> sv_call \<Rightarrow> rserver \<times> sv_call" where
  "read_section cp = (\<lambda>(s, c).
     let c = c\<lparr>sc_read_inflight := False\<rparr>
     in if sp_ok cp \<and> \<not> sc_dead c
        then if \<not> sc_delivered c
             then (push_event_locked (request_event (sc_id c) cp) s, c\<lparr>sc_delivered := True\<rparr>)
             else (push_event_locked (stream_msg_event (sc_id c) cp) s, c)
        else if sc_delivered c \<and> \<not> sc_dead c
        then (push_event_locked (plain_event 3 (sc_id c)) s, c)
        else (s, c\<lparr>sc_dead := True\<rparr>))"

lemma run_svread_eq: "run_svread a cp sc = maybe_free_locked a (read_section cp sc)"
  by (cases sc) (simp add: run_svread_def read_section_def Let_def)

definition write_section :: "addr \<Rightarrow> sv_completion \<Rightarrow> rserver \<times> sv_call \<Rightarrow> rserver \<times> sv_call" where
  "write_section a cp = (\<lambda>(s, c).
     let c = c\<lparr>sc_write_inflight := False\<rparr>
     in if sp_ok cp \<and> \<not> sc_dead c
        then let q = tl (sc_write_queue c);
                 c = c\<lparr>sc_write_queue := q\<rparr>;
                 s = (if q = [] \<and> \<not> sc_replied c then push_event_locked (plain_event 4 (sc_id c)) s else s)
             in pump_locked a (s, c)
        else (s, c\<lparr>sc_dead := True\<rparr>))"

lemma run_svwrite_eq:
  "sc_write_queue c \<noteq> [] \<Longrightarrow> run_svwrite a cp (s, c) = Inr (maybe_free_locked a (write_section a cp (s, c)))"
  by (auto simp: run_svwrite_def write_section_def Let_def neq_Nil_conv)

definition done_section :: "rserver \<times> sv_call \<Rightarrow> rserver \<times> sv_call" where
  "done_section = (\<lambda>(s, c).
     if sc_delivered c \<and> \<not> sc_replied c
     then (push_event_locked (plain_event 1 (sc_id c)) s, c\<lparr>sc_dead := True\<rparr>)
     else (s, c))"

lemma run_svdone_eq: "run_svdone a sc = post_accepts_locked (maybe_free_locked a (done_section sc))"
  by (cases sc) (simp add: run_svdone_def done_section_def Let_def)

lemma sv_event_ids [simp]:
  "se_id (request_event i cp) = i" "se_id (stream_msg_event i cp) = i" "se_id (plain_event ty i) = i"
  "se_type (request_event i cp) = 0" "se_type (stream_msg_event i cp) = 2" "se_type (plain_event ty i) = ty"
  by (simp_all add: request_event_def stream_msg_event_def plain_event_def)

abbreviation sv_popped :: "sv_call \<Rightarrow> sv_call" where
  "sv_popped c \<equiv> c\<lparr>sc_pending := sc_pending c - 1\<rparr>"

abbreviation sv_taken_off :: "addr \<Rightarrow> svop \<Rightarrow> rserver \<Rightarrow> rserver" where
  "sv_taken_off a k s \<equiv> s\<lparr>sv_cq := remove1 (Sv_tag a k) (sv_cq s)\<rparr>"

lemma scnt_taken_off [simp]:
  "scnt (sv_taken_off a k s) b j = (if b = a \<and> j = k then scnt s b j - 1 else scnt s b j)"
  by (simp add: scnt_def)

lemma read_section_ok:
  assumes "call_ok a (s, c)" and "0 < scnt s a SV_read"
  shows "call_ok a (read_section cp (sv_taken_off a SV_read s, sv_popped c))"
  using assms
  by (clarsimp simp: call_ok_def call_defs read_section_def Let_def) auto

lemma write_section_ok:
  assumes ok: "call_ok a (s, c)" and n: "0 < scnt s a SV_write"
  shows "call_ok a (write_section a cp (sv_taken_off a SV_write s, sv_popped c))"
proof (cases "sp_ok cp \<and> \<not> sc_dead c")
  case False
  then have "write_section a cp (sv_taken_off a SV_write s, sv_popped c) =
      (sv_taken_off a SV_write s, (sv_popped c)\<lparr>sc_write_inflight := False, sc_dead := True\<rparr>)"
    by (auto simp: write_section_def Let_def)
  with assms show ?thesis by (clarsimp simp: call_ok_def call_defs)
next
  case True
  let ?q = "tl (sc_write_queue c)"
  let ?c = "(sv_popped c)\<lparr>sc_write_inflight := False, sc_write_queue := ?q\<rparr>"
  let ?t = "sv_taken_off a SV_write s"
  let ?s = "if ?q = [] \<and> \<not> sc_replied c then push_event_locked (plain_event 4 (sc_id c)) ?t else ?t"
  from assms have "call_wf ?c" "call_tags (scnt ?s a) ?c"
    by (auto simp: call_ok_def call_wf_def call_tags_def split: if_splits)
  then have "call_ok a (pump_locked a (?s, ?c))" by (rule spump_ok)
  moreover have "write_section a cp (?t, sv_popped c) = pump_locked a (?s, ?c)"
    using True by (simp add: write_section_def Let_def)
  ultimately show ?thesis by simp
qed

lemma done_section_ok:
  assumes "call_ok a (s, c)" and "0 < scnt s a SV_done"
  shows "call_ok a (done_section (sv_taken_off a SV_done s, sv_popped c))"
  using assms by (clarsimp simp: call_ok_def call_defs done_section_def)

lemma finish_section_ok:
  assumes "call_ok a (s, c)" and "0 < scnt s a SV_finish"
  shows "call_ok a (sv_taken_off a SV_finish s, sv_popped c)"
  using assms by (cases "sc_finish_posted c") (auto simp: call_ok_def call_defs)

lemma section_frames [simp]:
  "sv_touches a (sc_id c) s (fst (read_section cp (s, c)))"
  "sv_touches a (sc_id c) s (fst (write_section a cp (s, c)))"
  "sv_touches a (sc_id c) s (fst (done_section (s, c)))"
  "sc_id (snd (read_section cp (s, c))) = sc_id c"
  "sc_id (snd (write_section a cp (s, c))) = sc_id c"
  "sc_id (snd (done_section (s, c))) = sc_id c"
  by (auto simp: read_section_def write_section_def done_section_def Let_def
      intro: sv_touches_push sv_touches_trans [OF sv_touches_push spump_frame(1)])

end
