(* ===== verification/Server_Safety.thy ===== *)
theory Server_Safety
  imports Server_Inv
begin

text \<open>
  The invariant of the whole server (map, object store, accept slots, ids, log and wake handle),
  and that every atomic section of \<^verbatim>\<open>src/server.cpp\<close> keeps it and runs without a fault.
\<close>

section \<open>The whole server\<close>

definition stored_ok :: "addr \<Rightarrow> rserver \<times> sv_call \<Rightarrow> bool" where
  "stored_ok a = (\<lambda>(s, c). call_ok a (s, c) \<and> call_over (scnt s a) c \<and> 0 < sc_pending c)"

definition naccepts :: "rserver \<Rightarrow> nat" where
  "naccepts s = length (filter (\<lambda>t. sv_tag_kind t = SV_accept) (sv_cq s))"

definition sheap_ok :: "rserver \<Rightarrow> bool" where
  "sheap_ok s \<longleftrightarrow>
     m_ok (sv_active s) \<and>
     (\<forall>i a. m_find (sv_active s) i = Some a \<longleftrightarrow> i \<noteq> 0 \<and> (\<exists>c. sv_heap s a = Some c \<and> sc_id c = i)) \<and>
     (\<forall>a c. sv_heap s a = Some c \<longrightarrow> a < sv_next_addr s \<and>
        (if sc_id c = 0 then slot_ok (scnt s a) c else stored_ok a (s, c))) \<and>
     (\<forall>a k. sv_heap s a = None \<longrightarrow> scnt s a k = 0)"

text \<open>The accept slots are counted, and the limits that R set are kept.\<close>

definition slimits_ok :: "rserver \<Rightarrow> bool" where
  "slimits_ok s \<longleftrightarrow>
     sv_accepts_outstanding s = int (naccepts s) \<and>
     sv_accepts_outstanding s \<le> max 0 (sv_accept_window s) \<and>
     int (m_size (sv_active s)) + sv_accepts_outstanding s \<le> max 0 (sv_max_active s) \<and>
     sv_max_active s < 2 ^ 31"

definition sids_ok :: "nat \<Rightarrow> rserver \<Rightarrow> bool" where
  "sids_ok n s \<longleftrightarrow>
     1 \<le> unat (sv_next_id s) \<and> unat (sv_next_id s) \<le> n + 1 \<and>
     (\<forall>a c. sv_heap s a = Some c \<longrightarrow> unat (sc_id c) < unat (sv_next_id s)) \<and>
     (\<forall>e \<in> set (sv_ready s). unat (se_id e) < unat (sv_next_id s))"

definition slog_ok :: "rserver \<Rightarrow> bool" where
  "slog_ok s \<longleftrightarrow>
     (sv_cq_shut s \<longrightarrow> sv_shutting s) \<and> (sv_shutting s \<longrightarrow> sv_closed s) \<and>
     True \<notin> set (slog_flags (sv_log s))"

definition sv_inv :: "nat \<Rightarrow> rserver \<Rightarrow> bool" where
  "sv_inv n s \<longleftrightarrow> sheap_ok s \<and> slimits_ok s \<and> sids_ok n s \<and> slog_ok s \<and> wake_ok (sv_wake s)"

lemma sv_invD:
  assumes "sv_inv n s"
  shows "sheap_ok s" "slimits_ok s" "sids_ok n s" "slog_ok s" "wake_ok (sv_wake s)"
  using assms by (simp_all add: sv_inv_def)

lemma sheap_okI:
  assumes "m_ok (sv_active s)"
    and "\<And>i a. m_find (sv_active s) i = Some a \<longleftrightarrow> i \<noteq> 0 \<and> (\<exists>c. sv_heap s a = Some c \<and> sc_id c = i)"
    and "\<And>a c. sv_heap s a = Some c \<Longrightarrow> a < sv_next_addr s"
    and "\<And>a c. sv_heap s a = Some c \<Longrightarrow> sc_id c = 0 \<Longrightarrow> slot_ok (scnt s a) c"
    and "\<And>a c. sv_heap s a = Some c \<Longrightarrow> sc_id c \<noteq> 0 \<Longrightarrow> stored_ok a (s, c)"
    and "\<And>a k. sv_heap s a = None \<Longrightarrow> scnt s a k = 0"
  shows "sheap_ok s"
  unfolding sheap_ok_def using assms by auto

lemma sheap_okD:
  assumes "sheap_ok s"
  shows "m_ok (sv_active s)"
    and "m_find (sv_active s) i = Some a \<longleftrightarrow> i \<noteq> 0 \<and> (\<exists>c. sv_heap s a = Some c \<and> sc_id c = i)"
    and "sv_heap s a = Some c \<Longrightarrow> a < sv_next_addr s"
    and "sv_heap s a = Some c \<Longrightarrow> sc_id c = 0 \<Longrightarrow> slot_ok (scnt s a) c"
    and "sv_heap s a = Some c \<Longrightarrow> sc_id c \<noteq> 0 \<Longrightarrow> stored_ok a (s, c)"
    and "sv_heap s a = None \<Longrightarrow> scnt s a k = 0"
  using assms unfolding sheap_ok_def by (blast, blast, blast, (force split: if_splits)+)

lemma stored_ok_cong:
  assumes "\<And>k. scnt s' a k = scnt s a k" and "sv_shutting s' = sv_shutting s"
  shows "stored_ok a (s', c) = stored_ok a (s, c)"
proof -
  have "scnt s' a = scnt s a" using assms(1) by (intro ext)
  then show ?thesis by (simp add: stored_ok_def call_ok_def assms(2))
qed

lemma slot_ok_cong: "(\<And>k. scnt s' a k = scnt s a k) \<Longrightarrow> slot_ok (scnt s' a) c = slot_ok (scnt s a) c"
  by (simp add: slot_ok_def)

lemma sheap_unique:
  assumes "sheap_ok s" and "sv_heap s a = Some c" and "sv_heap s b = Some c'" and "sc_id c = sc_id c'" and "sc_id c \<noteq> 0"
  shows "a = b"
  using sheap_okD(2) [OF assms(1), of "sc_id c" a] sheap_okD(2) [OF assms(1), of "sc_id c" b] assms by auto

lemma int_of_size_small: "n < 2 ^ 31 \<Longrightarrow> int_of_size n = int n"
  by (simp add: int_of_size_def signed_of_nat signed_take_bit_int_eq_self)

text \<open>Writing one active call back.\<close>

lemma sheap_store:
  assumes hp: "sheap_ok s" and c: "sv_heap s a = Some c" and nz: "sc_id c \<noteq> 0"
    and f: "sv_active s1 = sv_active s" "sv_next_addr s1 = sv_next_addr s" "sv_heap s1 = sv_heap s"
      "sv_shutting s1 = sv_shutting s"
    and q: "\<And>b k. b \<noteq> a \<Longrightarrow> scnt s1 b k = scnt s b k"
    and ok: "stored_ok a (s1, c1)" and i: "sc_id c1 = sc_id c"
  shows "sheap_ok (sv_store a (s1, c1))" (is "sheap_ok ?s")
proof -
  have heap: "sv_heap ?s = (sv_heap s)(a \<mapsto> c1)" "sv_active ?s = sv_active s" "sv_next_addr ?s = sv_next_addr s"
    "sv_shutting ?s = sv_shutting s"
    by (simp_all add: sv_store_def f)
  have cnt: "scnt ?s b k = (if b = a then scnt s1 b k else scnt s b k)" for b k
    using q [of b k] by (simp add: scnt_def sv_store_def)
  have this': "stored_ok a (?s, c1)"
    using ok by (subst stored_ok_cong [where s = s1]) (simp_all add: cnt heap f)
  show ?thesis
  proof (rule sheap_okI)
    fix j b
    show "m_find (sv_active ?s) j = Some b \<longleftrightarrow> j \<noteq> 0 \<and> (\<exists>c. sv_heap ?s b = Some c \<and> sc_id c = j)"
      using c i by (cases "b = a") (auto simp: heap sheap_okD(2) [OF hp])
  next
    fix b c' assume b: "sv_heap ?s b = Some c'"
    then show "b < sv_next_addr ?s"
      using sheap_okD(3) [OF hp] c unfolding heap by (cases "b = a") auto
    show "slot_ok (scnt ?s b) c'" if "sc_id c' = 0"
    proof -
      from b that i nz have b': "b \<noteq> a" "sv_heap s b = Some c'" by (auto simp: heap split: if_splits)
      then show ?thesis using sheap_okD(4) [OF hp b'(2) that] by (subst slot_ok_cong [where s = s]) (simp_all add: cnt)
    qed
    show "stored_ok b (?s, c')" if "sc_id c' \<noteq> 0"
    proof (cases "b = a")
      case True
      with b this' show ?thesis by (simp add: heap)
    next
      case False
      with b have "sv_heap s b = Some c'" by (simp add: heap)
      with sheap_okD(5) [OF hp this that] False show ?thesis
        by (subst stored_ok_cong [where s = s]) (simp_all add: cnt heap)
    qed
  next
    fix b k assume "sv_heap ?s b = None"
    then show "scnt ?s b k = 0" using sheap_okD(6) [OF hp, of b k] by (simp add: heap cnt split: if_splits)
  qed (simp add: heap sheap_okD(1) [OF hp])
qed

text \<open>Deleting an object that has no outstanding tag, whether it was a slot or an active call.\<close>

lemma sheap_free:
  assumes hp: "sheap_ok s" and c: "sv_heap s a = Some c"
    and f: "sv_active s1 = (if sc_id c \<noteq> 0 then m_erase (sc_id c) (sv_active s) else sv_active s)"
      "sv_next_addr s1 = sv_next_addr s" "sv_heap s1 = (sv_heap s)(a := None)" "sv_shutting s1 = sv_shutting s"
    and q: "\<And>b k. scnt s1 b k = (if b = a then 0 else scnt s b k)"
  shows "sheap_ok s1"
proof (rule sheap_okI)
  fix j b
  show "m_find (sv_active s1) j = Some b \<longleftrightarrow> j \<noteq> 0 \<and> (\<exists>c. sv_heap s1 b = Some c \<and> sc_id c = j)"
  proof (cases "b = a")
    case True
    with c show ?thesis by (simp add: f sheap_okD(2) [OF hp])
  next
    case False
    with sheap_unique [OF hp c, of b] show ?thesis by (auto simp: f sheap_okD(2) [OF hp])
  qed
next
  fix b c' assume "sv_heap s1 b = Some c'"
  then have b: "b \<noteq> a" "sv_heap s b = Some c'" by (auto simp: f split: if_splits)
  then show "b < sv_next_addr s1" using sheap_okD(3) [OF hp] by (simp add: f)
  show "slot_ok (scnt s1 b) c'" if "sc_id c' = 0"
    using sheap_okD(4) [OF hp b(2) that] b(1) by (subst slot_ok_cong [where s = s]) (simp_all add: q)
  show "stored_ok b (s1, c')" if "sc_id c' \<noteq> 0"
    using sheap_okD(5) [OF hp b(2) that] b(1) by (subst stored_ok_cong [where s = s]) (simp_all add: q f)
next
  fix b k assume "sv_heap s1 b = None"
  then show "scnt s1 b k = 0" using sheap_okD(6) [OF hp, of b k] by (auto simp: f q split: if_splits)
qed (simp add: f sheap_okD(1) [OF hp])

section \<open>One section on an active call\<close>

lemma naccepts_touches: "sv_touches a i s s' \<Longrightarrow> naccepts s' = naccepts s"
  unfolding sv_touches_def naccepts_def by (auto simp: filter_empty_conv)

lemma sv_touches_log: "sv_touches a i s s' \<Longrightarrow> slog_ok s \<Longrightarrow> slog_ok s'"
  unfolding sv_touches_def slog_ok_def by auto

lemma sv_touches_ready:
  "sv_touches a i s s' \<Longrightarrow> e \<in> set (sv_ready s') \<Longrightarrow> e \<in> set (sv_ready s) \<or> se_id e = i"
  by (auto simp: sv_touches_def)

lemma sv_touches_wake: "sv_touches a i s s' \<Longrightarrow> wake_ok (sv_wake s) \<Longrightarrow> wake_ok (sv_wake s')"
  unfolding sv_touches_def by (auto simp: upipe.ok_signals)

text \<open>The part of the invariant that does not speak of the map and the store.\<close>

lemma sv_inv_rest:
  assumes inv: "sv_inv n s" and hp: "sheap_ok s'" and c: "sv_heap s a = Some c"
    and t: "sv_touches a (sc_id c) s0 s1"
    and s0: "sv_ready s0 = sv_ready s" "sv_wake s0 = sv_wake s" "sv_log s0 = sv_log s" "sv_cq_shut s0 = sv_cq_shut s"
      "sv_shutting s0 = sv_shutting s" "sv_closed s0 = sv_closed s" "sv_next_id s0 = sv_next_id s"
      "naccepts s0 = naccepts s" "sv_accepts_outstanding s0 = sv_accepts_outstanding s"
      "sv_accept_window s0 = sv_accept_window s" "sv_max_active s0 = sv_max_active s"
    and s': "sv_ready s' = sv_ready s1" "sv_wake s' = sv_wake s1" "sv_log s' = sv_log s1" "sv_cq_shut s' = sv_cq_shut s1"
      "sv_shutting s' = sv_shutting s1" "sv_closed s' = sv_closed s1" "sv_next_id s' = sv_next_id s1"
      "sv_cq s' = sv_cq s1" "sv_accepts_outstanding s' = sv_accepts_outstanding s1"
      "sv_accept_window s' = sv_accept_window s1" "sv_max_active s' = sv_max_active s1"
    and sz: "m_size (sv_active s') \<le> m_size (sv_active s)"
    and hs: "\<And>b c'. sv_heap s' b = Some c' \<Longrightarrow> \<exists>c''. sv_heap s b = Some c'' \<and> sc_id c'' = sc_id c'"
  shows "sv_inv n s'"
proof -
  note fr = sv_touches_frame [OF t]
  have na: "naccepts s' = naccepts s" using naccepts_touches [OF t] s0(8) s'(8) by (simp add: naccepts_def)
  have lim: "slimits_ok s'"
    using sv_invD(2) [OF inv] sz na by (simp add: slimits_ok_def fr s0 s')
  have ids: "sids_ok n s'"
  proof -
    note old = sv_invD(3) [OF inv, unfolded sids_ok_def]
    have "unat (sc_id c') < unat (sv_next_id s)" if "sv_heap s' b = Some c'" for b c'
      using hs [OF that] old by metis
    moreover have "unat (se_id e) < unat (sv_next_id s)" if "e \<in> set (sv_ready s')" for e
      using sv_touches_ready [OF t, of e] that old c by (auto simp: s' s0)
    ultimately show ?thesis using old by (auto simp: sids_ok_def s' fr s0)
  qed
  have "slog_ok s0" using sv_invD(4) [OF inv] by (simp add: slog_ok_def s0)
  from sv_touches_log [OF t this] have lg: "slog_ok s'" by (simp add: slog_ok_def s')
  from sv_touches_wake [OF t] sv_invD(5) [OF inv] have "wake_ok (sv_wake s')" by (simp add: s' s0)
  with hp lim ids lg show ?thesis by (simp add: sv_inv_def)
qed

lemma sv_store_inv:
  assumes inv: "sv_inv n s" and c: "sv_heap s a = Some c" and nz: "sc_id c \<noteq> 0"
    and s0: "s0 = s\<lparr>sv_cq := q\<rparr>" and q: "\<And>b k. b \<noteq> a \<Longrightarrow> scnt s0 b k = scnt s b k"
    and na: "naccepts s0 = naccepts s"
    and t: "sv_touches a (sc_id c) s0 (fst p)" and ok: "stored_ok a p" and i: "sc_id (snd p) = sc_id c"
  shows "sv_inv n (sv_store a p)"
proof -
  obtain s1 c1 where p: "p = (s1, c1)" by fastforce
  note fr = sv_touches_frame [OF t, unfolded p fst_conv]
  have hp: "sheap_ok (sv_store a p)"
    unfolding p by (rule sheap_store [OF sv_invD(1) [OF inv] c nz])
      (use fr ok i q sv_touches_cnt [OF t] in \<open>auto simp: p s0\<close>)
  show ?thesis
    by (rule sv_inv_rest [OF inv hp c t])
      (use na c i in \<open>auto simp: s0 p sv_store_def fr split: if_splits\<close>)
qed

lemma call_tags_zero:
  assumes "call_tags n c" and "sc_pending c = 0"
  shows "n k = 0"
proof -
  from assms have "int (n SV_read + n SV_write + n SV_done + n SV_finish) = 0" "n SV_accept = 0"
    unfolding call_tags_def by auto
  then show ?thesis unfolding of_nat_eq_0_iff by (cases k) auto
qed

lemma sv_maybe_free_inv:
  assumes inv: "sv_inv n s" and c: "sv_heap s a = Some c" and nz: "sc_id c \<noteq> 0" and k: "k \<noteq> SV_accept"
    and t: "sv_touches a (sc_id c) (sv_taken_off a k s) (fst p)" and ok: "call_ok a p"
    and over: "sc_pending (snd p) \<noteq> 0 \<Longrightarrow> call_over (scnt (fst p) a) (snd p)" and i: "sc_id (snd p) = sc_id c"
  shows "sv_inv n (maybe_free_locked a p)"
proof (cases "sc_pending (snd p) = 0")
  case False
  from ok have "0 \<le> sc_pending (snd p)" by (auto simp: call_ok_def call_tags_def split_beta)
  with False ok over have st: "stored_ok a p" by (auto simp: stored_ok_def split_beta)
  have na: "naccepts (sv_taken_off a k s) = naccepts s"
    using k by (simp add: naccepts_def filter_remove1)
  have "maybe_free_locked a p = sv_store a p" using False by (simp add: maybe_free_locked_def split_beta)
  with sv_store_inv [OF inv c nz refl _ na t st i] show ?thesis by simp
next
  case True
  obtain s1 c1 where p: "p = (s1, c1)" by fastforce
  note fr = sv_touches_frame [OF t, unfolded p fst_conv]
  let ?s = "maybe_free_locked a p"
  have ms: "?s = s1\<lparr>sv_active := m_erase (sc_id c) (sv_active s1), sv_heap := (sv_heap s1)(a := None)\<rparr>"
    using True nz i by (simp add: maybe_free_locked_def p Let_def)
  have z: "scnt s1 a j = 0" for j
    using ok True by (intro call_tags_zero [of "scnt s1 a" c1]) (simp_all add: call_ok_def p)
  have cnt: "scnt s1 b j = scnt s b j" if "b \<noteq> a" for b j
    using sv_touches_cnt [OF t that] that by (simp add: p)
  have hp: "sheap_ok ?s"
    unfolding ms
    by (rule sheap_free [OF sv_invD(1) [OF inv] c]) (use nz z fr cnt in \<open>simp_all add: scnt_def\<close>)
  have na: "naccepts (sv_taken_off a k s) = naccepts s"
    using k by (simp add: naccepts_def filter_remove1)
  have "m_find (sv_active s) (sc_id c) \<noteq> None" using c nz by (auto simp: sheap_okD(2) [OF sv_invD(1) [OF inv]])
  with smap.size_erase [OF sheap_okD(1) [OF sv_invD(1) [OF inv]]] have
    sz: "m_size (m_erase (sc_id c) (sv_active s)) \<le> m_size (sv_active s)" by fastforce
  show ?thesis
    by (rule sv_inv_rest [OF inv hp c t [unfolded p fst_conv]])
      (use na sz in \<open>auto simp: ms fr split: if_splits\<close>)
qed

section \<open>Accept slots\<close>

lemma sfresh_addr:
  assumes "sheap_ok s"
  shows "sv_heap s (sv_next_addr s) = None" and "scnt s (sv_next_addr s) k = 0"
proof -
  show 1: "sv_heap s (sv_next_addr s) = None"
    using sheap_okD(3) [OF assms, of "sv_next_addr s"] by (cases "sv_heap s (sv_next_addr s)") auto
  show "scnt s (sv_next_addr s) k = 0" by (rule sheap_okD(6) [OF assms 1])
qed

lemma active_fits: "slimits_ok s \<Longrightarrow> int_of_size (m_size (sv_active s)) = int (m_size (sv_active s))"
  by (intro int_of_size_small) (auto simp: slimits_ok_def max_def split: if_splits)

lemma slog_open: "slog_ok s \<Longrightarrow> \<not> sv_shutting s \<Longrightarrow> \<not> sv_cq_shut s"
  by (auto simp: slog_ok_def)

lemma post_accept_inv:
  assumes inv: "sv_inv n s" and w: "accepts_wanted s"
  shows "sv_inv n (post_accept s)"
proof -
  note hp = sv_invD(1) [OF inv] and lim = sv_invD(2) [OF inv]
  let ?a = "sv_next_addr s"
  let ?s = "post_accept s"
  have f: "sv_heap ?s = (sv_heap s)(?a \<mapsto> sv_call_init\<lparr>sc_pending := 1\<rparr>)" "sv_active ?s = sv_active s"
    "sv_next_addr ?s = ?a + 1" "sv_shutting ?s = sv_shutting s" "sv_next_id ?s = sv_next_id s"
    "sv_ready ?s = sv_ready s" "sv_wake ?s = sv_wake s" "sv_accepts_outstanding ?s = sv_accepts_outstanding s + 1"
    "sv_accept_window ?s = sv_accept_window s" "sv_max_active ?s = sv_max_active s"
    "sv_log ?s = sv_log s @ [(?a, SOp_RequestCall, sv_cq_shut s)]" "sv_cq_shut ?s = sv_cq_shut s"
    "sv_closed ?s = sv_closed s"
    by (simp_all add: post_accept_def Let_def sv_post_def)
  have cnt: "scnt ?s b k = scnt s b k + (if b = ?a \<and> k = SV_accept then 1 else 0)" for b k
    by (simp add: post_accept_def Let_def scnt_def sv_post_def)
  have na: "naccepts ?s = naccepts s + 1"
    by (simp add: post_accept_def Let_def naccepts_def sv_post_def)
  note fa = sfresh_addr [OF hp]
  have 1: "sheap_ok ?s"
  proof (rule sheap_okI)
    fix i b
    show "m_find (sv_active ?s) i = Some b \<longleftrightarrow> i \<noteq> 0 \<and> (\<exists>c. sv_heap ?s b = Some c \<and> sc_id c = i)"
      using fa(1) by (cases "b = ?a") (auto simp: f sheap_okD(2) [OF hp] sv_call_init_def)
  next
    fix b c assume b: "sv_heap ?s b = Some c"
    then show "b < sv_next_addr ?s" using sheap_okD(3) [OF hp] by (auto simp: f less_Suc_eq split: if_splits)
    show "slot_ok (scnt ?s b) c" if "sc_id c = 0"
      using b sheap_okD(4) [OF hp _ that, of b] fa by (cases "b = ?a") (auto simp: f slot_ok_def cnt)
    show "stored_ok b (?s, c)" if "sc_id c \<noteq> 0"
    proof -
      from b that have b': "b \<noteq> ?a" "sv_heap s b = Some c" by (auto simp: f sv_call_init_def split: if_splits)
      with sheap_okD(5) [OF hp b'(2) that] show ?thesis
        by (subst stored_ok_cong [where s = s]) (simp_all add: cnt f)
    qed
  next
    fix b k assume "sv_heap ?s b = None"
    then show "scnt ?s b k = 0" using sheap_okD(6) [OF hp, of b k] by (simp add: f cnt split: if_splits)
  qed (simp add: f sheap_okD(1) [OF hp])
  have 2: "slimits_ok ?s"
    using lim w active_fits [OF lim] by (auto simp: slimits_ok_def f na accepts_wanted_def)
  have 3: "sids_ok n ?s"
    using sv_invD(3) [OF inv] by (auto simp: sids_ok_def f sv_call_init_def split: if_splits)
  have 4: "slog_ok ?s" using sv_invD(4) [OF inv] w slog_open [OF sv_invD(4) [OF inv]]
    by (auto simp: slog_ok_def f accepts_wanted_def)
  from 1 2 3 4 sv_invD(5) [OF inv] show ?thesis by (simp add: sv_inv_def f)
qed

lemma post_accepts_inv: "sv_inv n s \<Longrightarrow> sv_inv n (post_accepts_locked s)"
proof (induction s rule: post_accepts_locked.induct)
  case (1 s)
  then show ?case by (subst post_accepts_locked.simps) (simp add: post_accept_inv)
qed

text \<open>Refilling the slots changes nothing else, and ends with no slot wanted.\<close>

lemma post_accepts_frame [simp]:
  "sv_active (post_accepts_locked s) = sv_active s" "sv_ready (post_accepts_locked s) = sv_ready s"
  "sv_wake (post_accepts_locked s) = sv_wake s" "sv_next_id (post_accepts_locked s) = sv_next_id s"
  "sv_closed (post_accepts_locked s) = sv_closed s" "sv_shutting (post_accepts_locked s) = sv_shutting s"
  "sv_cq_shut (post_accepts_locked s) = sv_cq_shut s"
  "sv_accept_window (post_accepts_locked s) = sv_accept_window s"
  "sv_max_active (post_accepts_locked s) = sv_max_active s"
  by (induction s rule: post_accepts_locked.induct; subst post_accepts_locked.simps;
      simp add: post_accept_def Let_def sv_post_def)+

lemma post_accepts_full: "\<not> accepts_wanted (post_accepts_locked s)"
proof (induction s rule: post_accepts_locked.induct)
  case (1 s)
  then show ?case by (subst post_accepts_locked.simps) simp
qed

lemma post_accepts_shutting: "sv_shutting s \<Longrightarrow> post_accepts_locked s = s"
  by (subst post_accepts_locked.simps) (simp add: accepts_wanted_def)

lemma post_accepts_heap: "a < sv_next_addr s \<Longrightarrow> sv_heap (post_accepts_locked s) a = sv_heap s a"
proof (induction s rule: post_accepts_locked.induct)
  case (1 s)
  show ?case
  proof (cases "accepts_wanted s")
    case False
    then show ?thesis by (subst post_accepts_locked.simps) simp
  next
    case True
    have "sv_next_addr (post_accept s) = sv_next_addr s + 1"
      "sv_heap (post_accept s) a = sv_heap s a" if "a < sv_next_addr s"
      using that by (simp_all add: post_accept_def Let_def sv_post_def)
    with 1 True show ?thesis by (subst post_accepts_locked.simps) simp
  qed
qed

section \<open>The accept handler\<close>

lemma accept_counts:
  assumes inv: "sv_inv n s" and t: "Sv_tag a SV_accept \<in> set (sv_cq s)"
  shows "naccepts s = Suc (naccepts (sv_taken_off a SV_accept s))"
    and "\<exists>c. sv_heap s a = Some c \<and> sc_id c = 0 \<and> slot_ok (scnt s a) c"
proof -
  have "length (filter (\<lambda>t. sv_tag_kind t = SV_accept) (remove1 (Sv_tag a SV_accept) q)) + 1 =
      length (filter (\<lambda>t. sv_tag_kind t = SV_accept) q)" if "Sv_tag a SV_accept \<in> set q" for q
    using that by (induction q) auto
  from this [OF t] show "naccepts s = Suc (naccepts (sv_taken_off a SV_accept s))" by (simp add: naccepts_def)
  from t have n: "0 < scnt s a SV_accept" by (simp add: scnt_def count_list_pos_iff)
  then obtain c where c: "sv_heap s a = Some c"
    using sheap_okD(6) [OF sv_invD(1) [OF inv], of a SV_accept] by (cases "sv_heap s a") auto
  have "sc_id c = 0"
  proof (rule ccontr)
    assume "sc_id c \<noteq> 0"
    from sheap_okD(5) [OF sv_invD(1) [OF inv] c this] n show False
      by (simp add: stored_ok_def call_ok_def call_tags_def)
  qed
  with sheap_okD(4) [OF sv_invD(1) [OF inv] c] c
  show "\<exists>c. sv_heap s a = Some c \<and> sc_id c = 0 \<and> slot_ok (scnt s a) c" by blast
qed

text \<open>A slot that shutdown returns unmatched is deleted.\<close>

lemma accept_fail_inv:
  assumes inv: "sv_inv n s" and t: "Sv_tag a SV_accept \<in> set (sv_cq s)"
    and s1: "s1 = (sv_taken_off a SV_accept s)\<lparr>sv_accepts_outstanding := sv_accepts_outstanding s - 1,
      sv_heap := (sv_heap s)(a := None)\<rparr>"
  shows "sv_inv n s1"
proof -
  from accept_counts(2) [OF assms(1,2)] obtain c where c: "sv_heap s a = Some c" "sc_id c = 0" "slot_ok (scnt s a) c"
    by blast
  have cnt: "scnt s1 b k = (if b = a then 0 else scnt s b k)" for b k
    using c(3) by (auto simp: s1 scnt_def slot_ok_def)
  have na: "naccepts s = Suc (naccepts s1)" using accept_counts(1) [OF assms(1,2)] by (simp add: s1 naccepts_def)
  have "sheap_ok s1" by (rule sheap_free [OF sv_invD(1) [OF inv] c(1) _ _ _ _ cnt]) (simp_all add: c(2) s1)
  moreover have "slimits_ok s1" using sv_invD(2) [OF inv] na by (auto simp: slimits_ok_def s1)
  moreover have "sids_ok n s1" using sv_invD(3) [OF inv] by (auto simp: sids_ok_def s1 split: if_splits)
  moreover have "slog_ok s1" using sv_invD(4) [OF inv] by (simp add: slog_ok_def s1)
  ultimately show ?thesis using sv_invD(5) [OF inv] by (simp add: sv_inv_def s1)
qed

text \<open>A slot that is matched becomes an active call with a fresh id.\<close>

definition accepted_call :: "rserver \<Rightarrow> sv_call" where
  "accepted_call s = sv_call_init\<lparr>sc_id := sv_next_id s,
     sc_pending := (if sv_shutting s then 1 else 2), sc_dead := sv_shutting s, sc_read_inflight := \<not> sv_shutting s\<rparr>"

definition accepted_state :: "addr \<Rightarrow> rserver \<Rightarrow> rserver" where
  "accepted_state a s = s\<lparr>
     sv_accepts_outstanding := sv_accepts_outstanding s - 1, sv_next_id := sv_next_id s + 1,
     sv_active := m_insert (sv_next_id s) a (sv_active s),
     sv_cq := remove1 (Sv_tag a SV_accept) (sv_cq s) @ [Sv_tag a SV_done] @
       (if sv_shutting s then [] else [Sv_tag a SV_read]),
     sv_log := sv_log s @ (if sv_shutting s then [] else [(a, SOp_Read, sv_cq_shut s)]),
     sv_heap := (sv_heap s)(a \<mapsto> accepted_call s)\<rparr>"

lemma accepted_state_inv:
  assumes inv: "sv_inv n s" and t: "Sv_tag a SV_accept \<in> set (sv_cq s)" and n: "n < 2 ^ 64 - 2"
  shows "sv_inv (Suc n) (accepted_state a s)" (is "sv_inv _ ?s")
proof -
  note hp = sv_invD(1) [OF inv] and ids = sv_invD(3) [OF inv, unfolded sids_ok_def]
  let ?i = "sv_next_id s"
  from accept_counts(2) [OF assms(1,2)] obtain c where c: "sv_heap s a = Some c" "sc_id c = 0" "slot_ok (scnt s a) c"
    by blast
  have nid: "unat (?i + 1) = unat ?i + 1" using ids n by (intro unat_plus_one_u64) simp
  have i0: "?i \<noteq> 0" using ids by auto
  have fresh: "sc_id c' \<noteq> ?i" if "sv_heap s b = Some c'" for b c' using ids that by fastforce
  have f: "sv_heap ?s = (sv_heap s)(a \<mapsto> accepted_call s)" "sv_active ?s = m_insert ?i a (sv_active s)"
    "sv_next_addr ?s = sv_next_addr s" "sv_shutting ?s = sv_shutting s"
    by (simp_all add: accepted_state_def)
  have cnt: "scnt ?s b k = (if b = a then of_bool (k = SV_done \<or> k = SV_read \<and> \<not> sv_shutting s) else scnt s b k)" for b k
    using c(3) by (auto simp: accepted_state_def scnt_def slot_ok_def)
  have na: "naccepts s = Suc (naccepts ?s)"
    using accept_counts(1) [OF assms(1,2)] by (simp add: accepted_state_def naccepts_def)
  have none: "m_find (sv_active s) ?i = None"
  proof (rule ccontr)
    assume "m_find (sv_active s) ?i \<noteq> None"
    then obtain b where "m_find (sv_active s) ?i = Some b" by auto
    with fresh show False by (auto simp: sheap_okD(2) [OF hp])
  qed
  have new: "stored_ok a (?s, accepted_call s)"
    using i0 by (auto simp: stored_ok_def call_ok_def call_wf_def call_tags_def call_live_def call_over_def cnt
        accepted_call_def sv_call_init_def)
  have 1: "sheap_ok ?s"
  proof (rule sheap_okI)
    fix i b
    show "m_find (sv_active ?s) i = Some b \<longleftrightarrow> i \<noteq> 0 \<and> (\<exists>c. sv_heap ?s b = Some c \<and> sc_id c = i)"
    proof (cases "b = a")
      case True
      with c i0 none show ?thesis by (auto simp: f sheap_okD(2) [OF hp] accepted_call_def)
    next
      case False
      with i0 fresh [of b] show ?thesis by (auto simp: f sheap_okD(2) [OF hp])
    qed
  next
    fix b c' assume b: "sv_heap ?s b = Some c'"
    then show "b < sv_next_addr ?s" using sheap_okD(3) [OF hp] c(1) unfolding f by (cases "b = a") auto
    show "slot_ok (scnt ?s b) c'" if "sc_id c' = 0"
    proof -
      from b that i0 have b': "b \<noteq> a" "sv_heap s b = Some c'" by (auto simp: f accepted_call_def split: if_splits)
      with sheap_okD(4) [OF hp b'(2) that] show ?thesis by (subst slot_ok_cong [where s = s]) (simp_all add: cnt)
    qed
    show "stored_ok b (?s, c')" if "sc_id c' \<noteq> 0"
    proof (cases "b = a")
      case True
      with b new show ?thesis by (simp add: f)
    next
      case False
      with b have "sv_heap s b = Some c'" by (simp add: f)
      with sheap_okD(5) [OF hp this that] False show ?thesis
        by (subst stored_ok_cong [where s = s]) (simp_all add: cnt f)
    qed
  next
    fix b k assume "sv_heap ?s b = None"
    then show "scnt ?s b k = 0" using sheap_okD(6) [OF hp, of b k] by (simp add: f cnt split: if_splits)
  qed (simp add: f sheap_okD(1) [OF hp])
  have sz: "m_size (sv_active ?s) = m_size (sv_active s) + 1"
    by (simp add: f smap.size_insert [OF sheap_okD(1) [OF hp] none])
  have 2: "slimits_ok ?s"
    using sv_invD(2) [OF inv] na sz by (auto simp: slimits_ok_def accepted_state_def)
  have 3: "sids_ok (Suc n) ?s"
    using ids nid by (auto simp: sids_ok_def accepted_state_def accepted_call_def less_Suc_eq)
  have 4: "slog_ok ?s" using sv_invD(4) [OF inv] by (auto simp: slog_ok_def accepted_state_def)
  from 1 2 3 4 sv_invD(5) [OF inv] show ?thesis by (simp add: sv_inv_def accepted_state_def)
qed

section \<open>The completion thread keeps the invariant\<close>

text \<open>A handled completion appends events with one signal each, and changes no shutdown flag.\<close>

definition sv_advances :: "rserver \<Rightarrow> rserver \<Rightarrow> bool" where
  "sv_advances s s' \<longleftrightarrow>
     (\<exists>evs. sv_ready s' = sv_ready s @ evs \<and> sv_wake s' = (wake_signal ^^ length evs) (sv_wake s)) \<and>
     sv_closed s' = sv_closed s \<and> sv_shutting s' = sv_shutting s \<and> sv_cq_shut s' = sv_cq_shut s"

lemma maybe_free_frame [simp]:
  "sv_ready (maybe_free_locked a p) = sv_ready (fst p)" "sv_wake (maybe_free_locked a p) = sv_wake (fst p)"
  "sv_closed (maybe_free_locked a p) = sv_closed (fst p)" "sv_shutting (maybe_free_locked a p) = sv_shutting (fst p)"
  "sv_cq_shut (maybe_free_locked a p) = sv_cq_shut (fst p)" "sv_next_id (maybe_free_locked a p) = sv_next_id (fst p)"
  "sv_cq (maybe_free_locked a p) = sv_cq (fst p)" "sv_log (maybe_free_locked a p) = sv_log (fst p)"
  by (simp_all add: maybe_free_locked_def sv_store_def split_beta Let_def)

lemma sv_touches_advances: "sv_touches a i s s' \<Longrightarrow> sv_advances s s'"
  unfolding sv_touches_def sv_advances_def by auto

lemma sv_next_eq:
  "k \<noteq> SV_accept \<Longrightarrow> sv_next (Sv_tag a k) ok s = sv_taken_off a k s"
  by (simp add: sv_next_def)

text \<open>Each tag kind other than accept: the section, then deletion if nothing is outstanding.\<close>

lemma over_section:
  assumes ok: "call_ok a (s, c)" and ov: "call_over (scnt s a) c"
  shows "0 < scnt s a SV_read \<Longrightarrow> sc_pending (snd (read_section cp (sv_taken_off a SV_read s, sv_popped c))) \<noteq> 0 \<Longrightarrow>
      call_over (scnt (fst (read_section cp (sv_taken_off a SV_read s, sv_popped c))) a)
        (snd (read_section cp (sv_taken_off a SV_read s, sv_popped c)))"
    and "call_over (scnt (fst (write_section a cp (sv_taken_off a SV_write s, sv_popped c))) a)
        (snd (write_section a cp (sv_taken_off a SV_write s, sv_popped c)))"
    and "call_over (scnt (fst (done_section (sv_taken_off a SV_done s, sv_popped c))) a)
        (snd (done_section (sv_taken_off a SV_done s, sv_popped c)))"
    and "call_over (scnt (sv_taken_off a SV_finish s) a) (sv_popped c)"
proof -
  show "call_over (scnt (fst (read_section cp (sv_taken_off a SV_read s, sv_popped c))) a)
        (snd (read_section cp (sv_taken_off a SV_read s, sv_popped c)))"
    if "0 < scnt s a SV_read" "sc_pending (snd (read_section cp (sv_taken_off a SV_read s, sv_popped c))) \<noteq> 0"
    using assms that
    by (cases "sc_delivered c") (auto simp: call_ok_def call_wf_def call_tags_def call_over_def read_section_def Let_def)
  show "call_over (scnt (fst (write_section a cp (sv_taken_off a SV_write s, sv_popped c))) a)
        (snd (write_section a cp (sv_taken_off a SV_write s, sv_popped c)))"
    using ov by (auto simp: call_over_def write_section_def Let_def pump_done)
  show "call_over (scnt (fst (done_section (sv_taken_off a SV_done s, sv_popped c))) a)
        (snd (done_section (sv_taken_off a SV_done s, sv_popped c)))"
    by (simp add: call_over_def done_section_def)
  show "call_over (scnt (sv_taken_off a SV_finish s) a) (sv_popped c)" using ov by (simp add: call_over_def)
qed

lemma sv_handle_call_inv:
  assumes inv: "sv_inv n s" and t: "Sv_tag a k \<in> set (sv_cq s)" and k: "k \<noteq> SV_accept"
  shows "\<exists>s'. sv_handle (Sv_tag a k, cp) s = Inr s' \<and> sv_inv n s' \<and> sv_advances s s' \<and> sv_next_id s' = sv_next_id s"
proof -
  note hp = sv_invD(1) [OF inv]
  from t have n: "0 < scnt s a k" by (simp add: scnt_def count_list_pos_iff)
  then obtain c where c: "sv_heap s a = Some c"
    using sheap_okD(6) [OF hp, of a k] by (cases "sv_heap s a") auto
  have nz: "sc_id c \<noteq> 0" using sheap_okD(4) [OF hp c] n k by (auto simp: slot_ok_def)
  from sheap_okD(5) [OF hp c nz] have ok: "call_ok a (s, c)" and ov: "call_over (scnt s a) c"
    by (simp_all add: stored_ok_def)
  let ?s = "sv_taken_off a k s"
  have h: "sv_handle (Sv_tag a k, cp) s = sv_dispatch a k cp (?s, sv_popped c)"
    using c by (simp add: sv_handle_def sv_next_eq [OF k])
  have fin: "\<exists>s'. sv_handle (Sv_tag a k, cp) s = Inr s' \<and> sv_inv n s' \<and> sv_advances s s' \<and> sv_next_id s' = sv_next_id s"
    if p: "sv_dispatch a k cp (?s, sv_popped c) = Inr (g (maybe_free_locked a p))"
      and g: "g = id \<or> g = post_accepts_locked"
      and t: "sv_touches a (sc_id c) ?s (fst p)" and ok: "call_ok a p"
      and over: "sc_pending (snd p) \<noteq> 0 \<Longrightarrow> call_over (scnt (fst p) a) (snd p)" and i: "sc_id (snd p) = sc_id c"
    for g p
  proof -
    have "sv_inv n (maybe_free_locked a p)" by (rule sv_maybe_free_inv [OF inv c nz k t ok over i])
    moreover have "sv_advances ?s (maybe_free_locked a p)" "sv_next_id (maybe_free_locked a p) = sv_next_id s"
      using sv_touches_advances [OF t] sv_touches_frame(2) [OF t] by (simp_all add: sv_advances_def)
    ultimately show ?thesis using h p g post_accepts_inv by (auto simp: sv_advances_def)
  qed
  show ?thesis
  proof (cases k)
    case SV_read
    with n ok over_section(1) [OF ok ov] section_frames(1) [of a "sv_popped c" ?s cp] show ?thesis
      by (intro fin [of id "read_section cp (?s, sv_popped c)"])
        (simp_all add: sv_dispatch_def run_svread_eq read_section_ok)
  next
    case SV_write
    with n ok have q: "sc_write_queue c \<noteq> []" by (auto simp: call_ok_def call_tags_def call_wf_def)
    from SV_write n ok over_section(2) [OF ok ov] section_frames(2) [of a "sv_popped c" ?s cp] q show ?thesis
      by (intro fin [of id "write_section a cp (?s, sv_popped c)"])
        (simp_all add: sv_dispatch_def run_svwrite_eq write_section_ok)
  next
    case SV_done
    with n ok over_section(3) [OF ok ov] section_frames(3) [of a "sv_popped c" ?s] show ?thesis
      by (intro fin [of post_accepts_locked "done_section (?s, sv_popped c)"])
        (simp_all add: sv_dispatch_def run_svdone_eq done_section_ok)
  next
    case SV_finish
    with n ok over_section(4) [OF ok ov] show ?thesis
      by (intro fin [of post_accepts_locked "(?s, sv_popped c)"])
        (simp_all add: sv_dispatch_def run_svfinish_def finish_section_ok)
  qed (use k in simp)
qed

lemma run_accept_ok:
  assumes "sv_heap s a = Some (sv_call_init\<lparr>sc_pending := 1\<rparr>)"
  shows "sv_handle (Sv_tag a SV_accept, cp) s = Inr (if sp_ok cp then post_accepts_locked (accepted_state a s)
    else (sv_taken_off a SV_accept s)\<lparr>sv_accepts_outstanding := sv_accepts_outstanding s - 1,
      sv_heap := (sv_heap s)(a := None)\<rparr>)"
  using assms
  by (auto simp: sv_handle_def sv_next_def sv_dispatch_def run_accept_def Let_def accepted_state_def accepted_call_def
      maybe_free_locked_def sv_store_def sv_post_def sv_call_init_def
      intro!: arg_cong [where f = post_accepts_locked] rserver.equality)

text \<open>\<open>accepts_in tc\<close> counts the ids that a completion uses up.\<close>

definition accepts_in :: "sv_tag \<times> sv_completion \<Rightarrow> nat" where
  "accepts_in tc = (if sv_tag_kind (fst tc) = SV_accept \<and> sp_ok (snd tc) then 1 else 0)"

lemma sv_handle_inv:
  assumes inv: "sv_inv n s" and t: "fst tc \<in> set (sv_cq s)" and n: "n + accepts_in tc < 2 ^ 64 - 1"
  shows "\<exists>s'. sv_handle tc s = Inr s' \<and> sv_inv (n + accepts_in tc) s' \<and> sv_advances s s'"
proof -
  obtain a k cp where tc: "tc = (Sv_tag a k, cp)" by (metis prod.collapse sv_tag.collapse)
  show ?thesis
  proof (cases "k = SV_accept")
    case False
    with sv_handle_call_inv [OF inv, of a k cp] t tc show ?thesis by (auto simp: accepts_in_def)
  next
    case True
    with t tc have t': "Sv_tag a SV_accept \<in> set (sv_cq s)" by simp
    from accept_counts(2) [OF inv t'] have "sv_heap s a = Some (sv_call_init\<lparr>sc_pending := 1\<rparr>)"
      by (auto simp: slot_ok_def)
    note h = run_accept_ok [OF this, of cp]
    have adv: "sv_advances s s'" if "sv_ready s' = sv_ready s" "sv_wake s' = sv_wake s" "sv_closed s' = sv_closed s"
      "sv_shutting s' = sv_shutting s" "sv_cq_shut s' = sv_cq_shut s" for s'
      unfolding sv_advances_def by (intro conjI exI [of _ "[]"]) (simp_all add: that)
    show ?thesis
    proof (cases "sp_ok cp")
      case ok: True
      with n tc True have "n < 2 ^ 64 - 2" by (simp add: accepts_in_def)
      from post_accepts_inv [OF accepted_state_inv [OF inv t' this]] h ok True tc show ?thesis
        by (auto simp: accepts_in_def accepted_state_def intro!: adv)
    next
      case False
      with accept_fail_inv [OF inv t' refl] h True tc show ?thesis
        by (auto simp: accepts_in_def intro!: adv)
    qed
  qed
qed

end
