(* ===== verification/Server_Entry.thy ===== *)
theory Server_Entry
  imports Server_Safety
begin

text \<open>
  The entry points that answer a call, and the delivery of events to R, keep the invariant of the
  server and run without a fault; closing the server ends and deletes every object.
\<close>

section \<open>Answering a call\<close>

definition squiet :: "rserver \<Rightarrow> rserver \<Rightarrow> bool" where
  "squiet s s' \<longleftrightarrow> sv_ready s' = sv_ready s \<and> sv_wake s' = sv_wake s \<and> sv_closed s' = sv_closed s \<and>
     sv_shutting s' = sv_shutting s \<and> sv_cq_shut s' = sv_cq_shut s \<and> sv_next_id s' = sv_next_id s"

lemma squiet_refl [simp]: "squiet s s"
  by (simp add: squiet_def)

lemma store_quiet [simp]:
  "squiet s (sv_store a (pump_locked a (s, c)))" "squiet s (sv_store a (s, c))"
  "squiet s (sv_store a (sv_post a k op s, c))"
  by (auto simp: squiet_def sv_store_def pump_locked_def sv_post_def)

text \<open>The object that an entry point finds is a good one.\<close>

lemma with_call_inv:
  assumes inv: "sv_inv n s"
    and step: "\<And>a c. sv_heap s a = Some c \<Longrightarrow> sc_id c = u64_of_double cid \<Longrightarrow> sc_id c \<noteq> 0 \<Longrightarrow> stored_ok a (s, c) \<Longrightarrow>
      \<exists>b s'. f a c = Inr (R_Logical b, s') \<and> sv_inv n s' \<and> squiet s s'"
  shows "\<exists>b s'. with_call s cid f = Inr (R_Logical b, s') \<and> sv_inv n s' \<and> squiet s s'"
proof (cases "m_find (sv_active s) (u64_of_double cid)")
  case None
  with inv show ?thesis by (auto simp: with_call_def)
next
  case (Some a)
  note hp = sv_invD(1) [OF inv]
  from Some obtain c where c: "sv_heap s a = Some c" "sc_id c = u64_of_double cid" "sc_id c \<noteq> 0"
    by (auto simp: sheap_okD(2) [OF hp])
  with step [OF c] sheap_okD(5) [OF hp c(1,3)] Some show ?thesis by (auto simp: with_call_def)
qed

lemma store_call_inv:
  assumes inv: "sv_inv n s" and c: "sv_heap s a = Some c" "sc_id c \<noteq> 0"
    and p: "sv_touches a (sc_id c) s (fst p)" "stored_ok a p" "sc_id (snd p) = sc_id c"
  shows "sv_inv n (sv_store a p)"
  by (rule sv_store_inv [OF inv c, of s "sv_cq s"]) (use p in simp_all)

text \<open>A rewritten object on which the write queue is pumped.\<close>

lemma spump_store_inv:
  assumes inv: "sv_inv n s" and c: "sv_heap s a = Some c" "sc_id c \<noteq> 0" and st: "stored_ok a (s, c)"
    and wf: "call_wf c'" and i: "sc_id c' = sc_id c" and pe: "sc_pending c' = sc_pending c"
    and fl: "sc_read_inflight c' = sc_read_inflight c" "sc_write_inflight c' = sc_write_inflight c"
      "sc_finish_posted c' = sc_finish_posted c" "sc_delivered c' = sc_delivered c" "sc_dead c' = sc_dead c"
      "sc_replied c \<Longrightarrow> sc_replied c'"
  shows "sv_inv n (sv_store a (pump_locked a (s, c')))"
proof (rule store_call_inv [OF inv c])
  let ?p = "pump_locked a (s, c')"
  have "call_tags (scnt s a) c'" using st by (simp add: stored_ok_def call_ok_def call_tags_def fl pe)
  with wf have "call_ok a ?p" by (rule spump_ok)
  moreover have "0 < sc_pending (snd ?p)" using st pump_pending [of c' a s] by (simp add: stored_ok_def pe)
  moreover have "call_over (scnt (fst ?p) a) (snd ?p)"
    using st fl by (auto simp: stored_ok_def call_over_def pump_done)
  ultimately show "stored_ok a ?p" by (simp add: stored_ok_def split_beta)
qed (simp_all add: i)

lemma stored_ok_ctx [simp]: "stored_ok a (s, c\<lparr>sc_ctx := x\<rparr>) = stored_ok a (s, c)"
  by (simp add: stored_ok_def call_ok_def call_wf_def call_tags_def call_live_def call_over_def)

lemma stored_wf: "stored_ok a (s, c) \<Longrightarrow> call_wf c"
  by (simp add: stored_ok_def call_ok_def)

text \<open>What R must pass as the message of an error status: a non-empty character vector.\<close>

definition message_ok :: "sexp \<Rightarrow> bool" where
  "message_ok x \<longleftrightarrow> (\<exists>m ms nms. x = R_String (m # ms) nms)"

lemma reply_inv:
  assumes inv: "sv_inv n s" and op: "\<not> sv_closed s"
    and args: "if code = 0 then is_raw response else message_ok message"
  shows "\<exists>b s'. grpc_r_server2_reply (Some s) cid response code message metadata = Inr (R_Logical b, s') \<and>
    sv_inv n s' \<and> squiet s s'"
proof -
  let ?f = "\<lambda>a c.
         if \<not> sc_delivered c \<or> sc_replied c \<or> sc_dead c then Inr (R_Logical False, s)
         else
           let c = c\<lparr>sc_replied := True\<rparr>;
               c = c\<lparr>sc_ctx := add_trailing_md metadata (sc_ctx c)\<rparr>
           in rbind (if code = 0
                     then Inr (c\<lparr>sc_final_write := raw_bytes response, sc_has_final_write := True,
                                 sc_final_status := (0, [])\<rparr>)
                     else rbind (string_elt0 message) (\<lambda>msg.
                            Inr (c\<lparr>sc_has_final_write := False, sc_final_status := (code, msg)\<rparr>)))
                (\<lambda>c. Inr (R_Logical True, sv_store a (pump_locked a (s, c))))"
  have "\<exists>b s'. with_call s cid ?f = Inr (R_Logical b, s') \<and> sv_inv n s' \<and> squiet s s'"
  proof (rule with_call_inv [OF inv])
    fix a c assume c: "sv_heap s a = Some c" "sc_id c \<noteq> 0" and st: "stored_ok a (s, c)"
    show "\<exists>b s'. ?f a c = Inr (R_Logical b, s') \<and> sv_inv n s' \<and> squiet s s'"
    proof (cases "\<not> sc_delivered c \<or> sc_replied c \<or> sc_dead c")
      case True
      with inv show ?thesis by auto
    next
      case False
      let ?c = "c\<lparr>sc_replied := True, sc_ctx := add_trailing_md metadata (sc_ctx c)\<rparr>"
      let ?fin = "if code = 0
        then Inr (?c\<lparr>sc_final_write := raw_bytes response, sc_has_final_write := True, sc_final_status := (0, [])\<rparr>)
        else rbind (string_elt0 message) (\<lambda>msg. Inr (?c\<lparr>sc_has_final_write := False, sc_final_status := (code, msg)\<rparr>))"
      have "\<exists>w h x. ?fin = Inr (?c\<lparr>sc_final_write := w, sc_has_final_write := h, sc_final_status := x\<rparr>)"
        using args by (auto simp: message_ok_def string_elt0_def split: if_splits)
          (metis sv_call.surjective sv_call.update_convs(13))+
      then obtain w h x where fin: "?fin = Inr (?c\<lparr>sc_final_write := w, sc_has_final_write := h, sc_final_status := x\<rparr>)"
        by blast
      have "sv_inv n (sv_store a (pump_locked a (s, ?c\<lparr>sc_final_write := w, sc_has_final_write := h, sc_final_status := x\<rparr>)))"
        by (rule spump_store_inv [OF inv c st]) (use False stored_wf [OF st] in \<open>auto simp: call_wf_def\<close>)
      then show ?thesis using False fin by (auto simp: Let_def)
    qed
  qed
  with op args show ?thesis
    by (auto simp: grpc_r_server2_reply_def get_server_def message_ok_def is_string_def split: if_splits)
qed

lemma send_inv:
  assumes inv: "sv_inv n s" and op: "\<not> sv_closed s"
  shows "\<exists>b s'. grpc_r_server2_send (Some s) cid bytes = Inr (R_Logical b, s') \<and> sv_inv n s' \<and> squiet s s'"
proof -
  let ?f = "\<lambda>a c. if \<not> sc_delivered c \<or> sc_dead c \<or> sc_replied c then Inr (R_Logical False, s)
       else if sc_write_cap c \<le> length (sc_write_queue c) then Inr (R_Logical False, s)
       else
         let c = c\<lparr>sc_write_queue := sc_write_queue c @ [bytes]\<rparr>
         in Inr (R_Logical True, sv_store a (pump_locked a (s, c)))"
  have "\<exists>b s'. with_call s cid ?f = Inr (R_Logical b, s') \<and> sv_inv n s' \<and> squiet s s'"
  proof (rule with_call_inv [OF inv])
    fix a c assume c: "sv_heap s a = Some c" "sc_id c \<noteq> 0" and st: "stored_ok a (s, c)"
    show "\<exists>b s'. ?f a c = Inr (R_Logical b, s') \<and> sv_inv n s' \<and> squiet s s'"
    proof (cases "\<not> sc_delivered c \<or> sc_dead c \<or> sc_replied c \<or> sc_write_cap c \<le> length (sc_write_queue c)")
      case True
      with inv show ?thesis by auto
    next
      case False
      have "sv_inv n (sv_store a (pump_locked a (s, c\<lparr>sc_write_queue := sc_write_queue c @ [bytes]\<rparr>)))"
        by (rule spump_store_inv [OF inv c st]) (use False stored_wf [OF st] in \<open>auto simp: call_wf_def\<close>)
      with False show ?thesis by auto
    qed
  qed
  with op show ?thesis by (simp add: grpc_r_server2_send_def get_server_def)
qed

lemma finish_inv:
  assumes inv: "sv_inv n s" and op: "\<not> sv_closed s" and args: "code \<noteq> 0 \<Longrightarrow> message_ok message"
  shows "\<exists>b s'. grpc_r_server2_finish (Some s) cid code message metadata drain = Inr (R_Logical b, s') \<and>
    sv_inv n s' \<and> squiet s s'"
proof -
  let ?st = "\<lambda>c. if code = 0 then Inr (c\<lparr>sc_final_status := (0, [])\<rparr>)
     else rbind (string_elt0 message) (\<lambda>msg. Inr (c\<lparr>sc_final_status := (code, msg)\<rparr>))"
  let ?f = "\<lambda>a c.
         if \<not> sc_delivered c \<or> sc_replied c \<or> sc_dead c then Inr (R_Logical False, s)
         else
           let c = c\<lparr>sc_replied := True\<rparr>
           in rbind (if \<not> drain then discard_queue c else Inr c) (\<lambda>c.
              let c = c\<lparr>sc_ctx := add_trailing_md metadata (sc_ctx c)\<rparr>;
                  c = c\<lparr>sc_has_final_write := False\<rparr>
              in rbind (?st c) (\<lambda>c. Inr (R_Logical True, sv_store a (pump_locked a (s, c)))))"
  have st: "\<exists>x. ?st c = Inr (c\<lparr>sc_final_status := x\<rparr>)" for c
  proof (cases "code = 0")
    case False
    with args obtain m ms nms where "message = R_String (m # ms) nms" by (auto simp: message_ok_def)
    with False show ?thesis by (intro exI [of _ "(code, m)"]) (simp add: string_elt0_def)
  qed (intro exI [of _ "(0, [])"], simp)
  have "\<exists>b s'. with_call s cid ?f = Inr (R_Logical b, s') \<and> sv_inv n s' \<and> squiet s s'"
  proof (rule with_call_inv [OF inv])
    fix a c assume c: "sv_heap s a = Some c" "sc_id c \<noteq> 0" and ok: "stored_ok a (s, c)"
    show "\<exists>b s'. ?f a c = Inr (R_Logical b, s') \<and> sv_inv n s' \<and> squiet s s'"
    proof (cases "\<not> sc_delivered c \<or> sc_replied c \<or> sc_dead c")
      case True
      with inv show ?thesis by auto
    next
      case False
      have wf: "call_wf c" using ok by (rule stored_wf)
      obtain q where d: "(if \<not> drain then discard_queue (c\<lparr>sc_replied := True\<rparr>) else Inr (c\<lparr>sc_replied := True\<rparr>)) =
          Inr (c\<lparr>sc_replied := True, sc_write_queue := q\<rparr>)"
        and q: "length q \<le> length (sc_write_queue c)" "sc_write_inflight c \<Longrightarrow> q \<noteq> []"
      proof
        let ?q = "if drain then sc_write_queue c else if sc_write_inflight c then [hd (sc_write_queue c)] else []"
        show "(if \<not> drain then discard_queue (c\<lparr>sc_replied := True\<rparr>) else Inr (c\<lparr>sc_replied := True\<rparr>)) =
            Inr (c\<lparr>sc_replied := True, sc_write_queue := ?q\<rparr>)"
          using wf by (auto simp: discard_queue_def call_wf_def neq_Nil_conv split: list.split)
        show "length ?q \<le> length (sc_write_queue c)" using wf by (auto simp: call_wf_def neq_Nil_conv)
        show "?q \<noteq> []" if "sc_write_inflight c" using that wf by (auto simp: call_wf_def)
      qed
      let ?c = "c\<lparr>sc_replied := True, sc_write_queue := q\<rparr>"
      let ?c1 = "?c\<lparr>sc_ctx := add_trailing_md metadata (sc_ctx c), sc_has_final_write := False\<rparr>"
      from st obtain x where x: "?st ?c1 = Inr (?c1\<lparr>sc_final_status := x\<rparr>)" by blast
      have "sv_inv n (sv_store a (pump_locked a (s, ?c1\<lparr>sc_final_status := x\<rparr>)))"
        by (rule spump_store_inv [OF inv c ok]) (use False wf q in \<open>auto simp: call_wf_def\<close>)
      moreover have "?f a c = Inr (R_Logical True, sv_store a (pump_locked a (s, ?c1\<lparr>sc_final_status := x\<rparr>)))"
        using False d x by (cases "code = 0") (simp_all add: Let_def)
      ultimately show ?thesis by auto
    qed
  qed
  moreover have "\<not> (code \<noteq> 0 \<and> \<not> is_string message)"
    using args by (auto simp: message_ok_def is_string_def split: sexp.splits)
  ultimately show ?thesis
    using op by (simp add: grpc_r_server2_finish_def get_server_def)
qed

lemma read_inv:
  assumes inv: "sv_inv n s" and op: "\<not> sv_closed s"
  shows "\<exists>b s'. grpc_r_server2_read (Some s) cid = Inr (R_Logical b, s') \<and> sv_inv n s' \<and> squiet s s'"
proof -
  let ?f = "\<lambda>a c. if \<not> sc_delivered c \<or> sc_dead c \<or> sc_read_inflight c \<or> sc_finish_posted c
       then Inr (R_Logical False, s)
       else
         let c = c\<lparr>sc_read_inflight := True, sc_pending := sc_pending c + 1\<rparr>
         in Inr (R_Logical True, sv_store a (sv_post a SV_read SOp_Read s, c))"
  have "\<exists>b s'. with_call s cid ?f = Inr (R_Logical b, s') \<and> sv_inv n s' \<and> squiet s s'"
  proof (rule with_call_inv [OF inv])
    fix a c assume c: "sv_heap s a = Some c" "sc_id c \<noteq> 0" and st: "stored_ok a (s, c)"
    show "\<exists>b s'. ?f a c = Inr (R_Logical b, s') \<and> sv_inv n s' \<and> squiet s s'"
    proof (cases "\<not> sc_delivered c \<or> sc_dead c \<or> sc_read_inflight c \<or> sc_finish_posted c")
      case True
      with inv show ?thesis by auto
    next
      case False
      let ?p = "(sv_post a SV_read SOp_Read s, c\<lparr>sc_read_inflight := True, sc_pending := sc_pending c + 1\<rparr>)"
      have "\<not> sv_shutting s" using op sv_invD(4) [OF inv] by (auto simp: slog_ok_def)
      moreover have "stored_ok a ?p" using st False
        by (clarsimp simp: stored_ok_def call_ok_def call_wf_def call_tags_def call_live_def call_over_def)
      ultimately have "sv_inv n (sv_store a ?p)"
        by (intro store_call_inv [OF inv c]) (simp_all add: sv_touches_post)
      with False show ?thesis by auto
    qed
  qed
  with op show ?thesis by (simp add: grpc_r_server2_read_def get_server_def)
qed

lemma cancel_inv:
  assumes inv: "sv_inv n s" and op: "\<not> sv_closed s"
  shows "\<exists>b s'. grpc_r_server2_cancel (Some s) cid = Inr (R_Logical b, s') \<and> sv_inv n s' \<and> squiet s s'"
proof -
  let ?f = "\<lambda>a c. if sc_dead c then Inr (R_Logical False, s)
       else Inr (R_Logical True, sv_store a (s, c\<lparr>sc_ctx := (sc_ctx c)\<lparr>sx_cancelled := True\<rparr>\<rparr>))"
  have "\<exists>b s'. with_call s cid ?f = Inr (R_Logical b, s') \<and> sv_inv n s' \<and> squiet s s'"
  proof (rule with_call_inv [OF inv])
    fix a c assume c: "sv_heap s a = Some c" "sc_id c \<noteq> 0" and st: "stored_ok a (s, c)"
    let ?p = "(s, c\<lparr>sc_ctx := (sc_ctx c)\<lparr>sx_cancelled := True\<rparr>\<rparr>)"
    have "stored_ok a ?p" using st by simp
    then have "sv_inv n (sv_store a ?p)" by (intro store_call_inv [OF inv c]) simp_all
    with inv show "\<exists>b s'. ?f a c = Inr (R_Logical b, s') \<and> sv_inv n s' \<and> squiet s s'" by auto
  qed
  with op show ?thesis by (simp add: grpc_r_server2_cancel_def get_server_def)
qed

section \<open>Delivering events\<close>

lemma sv_batch_loop_eq:
  assumes "sv_ready s = pre @ it"
  shows "sv_batch_loop only_id maxn batch pre it s =
    (batch @ fst (take_matching (matches se_id only_id) (nat (maxn - int (length batch))) it),
     s\<lparr>sv_ready := pre @ snd (take_matching (matches se_id only_id) (nat (maxn - int (length batch))) it)\<rparr>)"
  using assms
proof (induction it arbitrary: s pre batch)
  case Nil
  then show ?case by simp
next
  case (Cons ev it)
  show ?case
  proof (cases "int (length batch) < maxn")
    case False
    with Cons.prems show ?thesis by simp
  next
    case True
    then obtain m where m: "nat (maxn - int (length batch)) = Suc m"
      "nat (maxn - int (length (batch @ [ev]))) = m"
      by (cases "nat (maxn - int (length batch))") auto
    show ?thesis
    proof (cases "matches se_id only_id ev")
      case False
      from Cons.prems have "sv_ready s = (pre @ [ev]) @ it" by simp
      from Cons.IH [OF this, of batch] True False m show ?thesis by (simp add: split_beta)
    next
      case match: True
      have "sv_ready (s\<lparr>sv_ready := pre @ it\<rparr>) = pre @ it" by simp
      from Cons.IH [OF this, of "batch @ [ev]"] True match m show ?thesis by (simp add: split_beta)
    qed
  qed
qed

definition sarmed :: "rserver \<Rightarrow> bool" where
  "sarmed s \<longleftrightarrow> (wake_readable (sv_wake s) \<longleftrightarrow> sv_ready s \<noteq> [])"

text \<open>\<^const>\<open>sv_inv\<close> reads the deque only to bound the ids, and the wake handle only for its descriptors.\<close>

lemma sv_inv_ready:
  assumes "sv_inv n s" and "set r \<subseteq> set (sv_ready s)" and "wake_ok h"
  shows "sv_inv n (s\<lparr>sv_ready := r, sv_wake := h\<rparr>)"
proof -
  let ?s = "s\<lparr>sv_ready := r, sv_wake := h\<rparr>"
  have "scnt ?s = scnt s" by (intro ext) (simp add: scnt_def)
  then have "sheap_ok ?s = sheap_ok s" by (simp add: sheap_ok_def stored_ok_def call_ok_def)
  with assms show ?thesis
    by (auto simp: sv_inv_def slimits_ok_def naccepts_def sids_ok_def slog_ok_def)
qed

lemma sv_poll_locked_ok:
  fixes only_id maxn
  assumes inv: "sv_inv n s"
  defines "t \<equiv> take_matching (matches se_id only_id) (nat maxn) (sv_ready s)"
  shows "\<exists>h. sv_poll_locked only_id maxn s = (fst t, s\<lparr>sv_ready := snd t, sv_wake := h\<rparr>) \<and>
    sv_inv n (s\<lparr>sv_ready := snd t, sv_wake := h\<rparr>) \<and> sarmed (s\<lparr>sv_ready := snd t, sv_wake := h\<rparr>)"
proof -
  let ?h = "if snd t \<noteq> [] then wake_signal (wake_drain (sv_wake s)) else wake_drain (sv_wake s)"
  have "sv_batch_loop only_id maxn [] [] (sv_ready s) (sv_drain s) = (fst t, (sv_drain s)\<lparr>sv_ready := snd t\<rparr>)"
    using sv_batch_loop_eq [of "sv_drain s" "[]" "sv_ready s" only_id maxn "[]"]
    by (simp add: t_def sv_drain_def)
  then have p: "sv_poll_locked only_id maxn s = (fst t, s\<lparr>sv_ready := snd t, sv_wake := ?h\<rparr>)"
    by (simp add: sv_poll_locked_def Let_def sv_drain_def sv_signal_def)
  have "set (snd t) \<subseteq> set (sv_ready s)"
    using mset_take_matching [of "matches se_id only_id" "nat maxn" "sv_ready s"]
    by (metis (no_types) Un_upper2 set_mset_mset set_mset_union t_def)
  then have "sv_inv n (s\<lparr>sv_ready := snd t, sv_wake := ?h\<rparr>)"
    by (intro sv_inv_ready inv upipe.rearm_establishes(1) sv_invD(5) [OF inv])
  moreover have "sarmed (s\<lparr>sv_ready := snd t, sv_wake := ?h\<rparr>)"
    using upipe.rearm_establishes(2) [OF sv_invD(5) [OF inv], of "snd t"] by (simp add: sarmed_def)
  ultimately show ?thesis using p by blast
qed

end
