(* ===== verification/Server_System.thy ===== *)
theory Server_System
  imports Server_Entry
begin

text \<open>
  The server in its environment: R calls the entry points, the library returns completions in any
  order and at any time, also while R waits inside a poll.  The state carries the server and four
  histories that the code does not have: the events ever queued; every poll, with the batch it took
  out of the deque and what the entry point then returned to R; the messages R handed over for
  sending; and the messages the library handed over with completed reads.  The invariants hold in
  every reachable state.
\<close>

section \<open>One completion of an active call\<close>

definition call_section :: "addr \<Rightarrow> svop \<Rightarrow> sv_completion \<Rightarrow> rserver \<times> sv_call \<Rightarrow> rserver \<times> sv_call" where
  "call_section a k cp sc =
     (case k of SV_read \<Rightarrow> read_section cp sc | SV_write \<Rightarrow> write_section a cp sc
      | SV_done \<Rightarrow> done_section sc | _ \<Rightarrow> sc)"

definition refills :: "svop \<Rightarrow> rserver \<Rightarrow> rserver" where
  "refills k s = (if k = SV_done \<or> k = SV_finish then post_accepts_locked s else s)"

lemma sv_handle_section:
  assumes "sv_heap s a = Some c" and "k \<noteq> SV_accept" and "k = SV_write \<Longrightarrow> sc_write_queue c \<noteq> []"
  shows "sv_handle (Sv_tag a k, cp) s =
    Inr (refills k (maybe_free_locked a (call_section a k cp (sv_taken_off a k s, sv_popped c))))"
  using assms
  by (cases k) (simp_all add: sv_handle_def sv_next_def sv_dispatch_def run_svread_eq run_svwrite_eq run_svdone_eq
      run_svfinish_def call_section_def refills_def)

text \<open>What a completion reports to R, by the state of the call.\<close>

definition section_reports :: "svop \<Rightarrow> sv_call \<Rightarrow> nat list \<Rightarrow> sv_call \<Rightarrow> bool" where
  "section_reports k c ts c' \<longleftrightarrow>
     (ts = [] \<and> sc_delivered c' = sc_delivered c \<and> \<not> (k = SV_done \<and> sc_delivered c \<and> \<not> sc_replied c) \<or>
      ts = [0] \<and> k = SV_read \<and> \<not> sc_delivered c \<and> sc_delivered c' \<and> \<not> sc_dead c' \<or>
      (\<exists>t. ts = [t] \<and> t \<in> {2, 3, 4}) \<and> k \<noteq> SV_done \<and> sc_delivered c \<and> \<not> sc_dead c \<and> sc_delivered c' \<or>
      ts = [1] \<and> k = SV_done \<and> sc_delivered c \<and> sc_delivered c' \<and> sc_dead c') \<and>
     (sc_dead c \<longrightarrow> sc_dead c') \<and> sc_replied c' = sc_replied c"

lemma push_ready: "sv_ready (push_event_locked ev s) = sv_ready s @ [ev]"
  by (simp add: push_event_locked_def sv_signal_def)

lemma pump_ready [simp]: "sv_ready (fst (pump_locked a (s, c))) = sv_ready s"
  by (cases rule: pump_cases [of a s c]) (simp_all add: sv_post_def)

lemma call_section_reports:
  fixes cp
  assumes ok: "call_ok a (s, c)" and n: "0 < scnt s a k" and k: "k \<noteq> SV_accept"
  defines "p \<equiv> call_section a k cp (sv_taken_off a k s, sv_popped c)"
  shows "\<exists>evs. sv_ready (fst p) = sv_ready s @ evs \<and> (\<forall>e \<in> set evs. se_id e = sc_id c) \<and>
    section_reports k c (map se_type evs) (snd p)"
proof (cases k)
  case SV_read
  then have p: "p = read_section cp (sv_taken_off a k s, sv_popped c)" by (simp add: p_def call_section_def)
  show ?thesis
  proof (cases "sp_ok cp \<and> \<not> sc_dead c")
    case True
    with SV_read show ?thesis
      by (intro exI [of _ "[if sc_delivered c then stream_msg_event (sc_id c) cp else request_event (sc_id c) cp]"])
        (simp add: p read_section_def Let_def push_ready section_reports_def)
  next
    case False
    with SV_read show ?thesis
      by (intro exI [of _ "if sc_delivered c \<and> \<not> sc_dead c then [plain_event 3 (sc_id c)] else []"])
        (auto simp: p read_section_def Let_def push_ready section_reports_def)
  qed
next
  case SV_write
  then have p: "p = write_section a cp (sv_taken_off a k s, sv_popped c)" by (simp add: p_def call_section_def)
  from SV_write n ok have d: "sc_delivered c" by (auto simp: call_ok_def call_tags_def call_wf_def)
  show ?thesis
  proof (cases "sp_ok cp \<and> \<not> sc_dead c")
    case True
    with SV_write d show ?thesis
      by (intro exI [of _ "if tl (sc_write_queue c) = [] \<and> \<not> sc_replied c then [plain_event 4 (sc_id c)] else []"])
        (simp add: p write_section_def Let_def push_ready section_reports_def)
  next
    case False
    with SV_write show ?thesis by (intro exI [of _ "[]"]) (auto simp: p write_section_def Let_def section_reports_def)
  qed
next
  case SV_done
  then show ?thesis
    by (intro exI [of _ "if sc_delivered c \<and> \<not> sc_replied c then [plain_event 1 (sc_id c)] else []"])
      (simp add: p_def call_section_def done_section_def push_ready section_reports_def)
next
  case SV_finish
  then show ?thesis by (intro exI [of _ "[]"]) (simp add: p_def call_section_def section_reports_def)
qed (use k in simp)

lemma call_section_done:
  assumes "k \<noteq> SV_accept"
  shows "scnt (fst (call_section a k cp (sv_taken_off a k s, sv_popped c))) a SV_done =
    (if k = SV_done then scnt s a SV_done - 1 else scnt s a SV_done)"
  using assms
  by (cases k) (auto simp: call_section_def read_section_def write_section_def done_section_def Let_def pump_done)

lemma call_section_frame:
  "sv_touches a (sc_id c) s (fst (call_section a k cp (s, c)))"
  "sc_id (snd (call_section a k cp (s, c))) = sc_id c"
  by (cases k; simp add: call_section_def)+

section \<open>The system\<close>

datatype sv_cmd =
    Sv_reply int sexp int sexp "md_pairs option"
  | Sv_read int
  | Sv_cancel int
  | Sv_send int string
  | Sv_finish int int sexp "md_pairs option" bool

definition sv_exec :: "sv_cmd \<Rightarrow> rserver option \<Rightarrow> (sexp \<times> rserver) res" where
  "sv_exec op xp =
     (case op of
        Sv_reply cid response code message md \<Rightarrow> grpc_r_server2_reply xp cid response code message md
      | Sv_read cid \<Rightarrow> grpc_r_server2_read xp cid
      | Sv_cancel cid \<Rightarrow> grpc_r_server2_cancel xp cid
      | Sv_send cid bytes \<Rightarrow> grpc_r_server2_send xp cid bytes
      | Sv_finish cid code message md drain \<Rightarrow> grpc_r_server2_finish xp cid code message md drain)"

text \<open>Arguments that the R functions let through to the C++ code.\<close>

definition cmd_ok :: "sv_cmd \<Rightarrow> bool" where
  "cmd_ok op \<longleftrightarrow>
     (case op of
        Sv_reply cid response code message md \<Rightarrow> if code = 0 then is_raw response else message_ok message
      | Sv_finish cid code message md drain \<Rightarrow> code \<noteq> 0 \<longrightarrow> message_ok message
      | _ \<Rightarrow> True)"

text \<open>The message that a successful send adds, with the call object it goes to.\<close>

definition sv_accepted :: "sv_cmd \<Rightarrow> sexp \<Rightarrow> rserver \<Rightarrow> (addr \<times> string) list" where
  "sv_accepted op v s =
     (case op of
        Sv_send cid bytes \<Rightarrow>
          (case m_find (sv_active s) (u64_of_double cid) of
             None \<Rightarrow> []
           | Some a \<Rightarrow> if v = R_Logical True then [(a, bytes)] else [])
      | _ \<Rightarrow> [])"

text \<open>The message filled in by a successful read, with the call it belongs to.\<close>

definition sv_filled :: "sv_tag \<times> sv_completion \<Rightarrow> rserver \<Rightarrow> (u64 \<times> string list option) list" where
  "sv_filled tc s =
     (if sv_tag_kind (fst tc) = SV_read \<and> sp_ok (snd tc)
      then case sv_heap s (sv_tag_call (fst tc)) of
             None \<Rightarrow> []
           | Some c \<Rightarrow> [(sc_id c, sp_dump (snd tc))]
      else [])"

text \<open>What \<^const>\<open>grpc_r_server2_poll\<close> returns to R for a batch.\<close>

definition sv_poll_result :: "mk_char_len \<Rightarrow> sv_event list \<Rightarrow> sexp res" where
  "sv_poll_result mk batch = rbind (sv_events_to_r mk batch) (\<lambda>es. Inr (R_List es None))"

record sv_world =
  sw_server :: rserver
  sw_queued :: "sv_event list"
  sw_polls :: "(sv_event list \<times> sexp res) list"
  sw_sent :: "(addr \<times> string) list"
  sw_reads :: "(u64 \<times> string list option) list"

definition sw_taken :: "sv_world \<Rightarrow> sv_event list" where
  "sw_taken w = batches (sw_polls w)"

definition sw_received :: "sv_world \<Rightarrow> sv_event list" where
  "sw_received w = returned_batches (sw_polls w)"

definition sw_lost :: "sv_world \<Rightarrow> sv_event list" where
  "sw_lost w = lost_batches (sw_polls w)"

text \<open>
  The library returns tags that are outstanding.  The 64-bit ids are assumed not to run out: a
  server that accepts a million calls a second uses them up after half a million years.
\<close>

definition sv_enabled :: "sv_tag \<times> sv_completion \<Rightarrow> rserver \<Rightarrow> bool" where
  "sv_enabled tc s \<longleftrightarrow> fst tc \<in> set (sv_cq s) \<and> unat (sv_next_id s) < 2 ^ 64 - 1"

definition sv_wait :: "int \<Rightarrow> u64 option \<Rightarrow> (sv_tag \<times> sv_completion) wait_turn list \<Rightarrow> rserver \<Rightarrow> rserver res option" where
  "sv_wait timeout want turns s =
     (if timeout \<noteq> 0 then wait_loop (sv_found want) sv_drain sv_handle sv_wake timeout turns s
      else Some (Inr s))"

text \<open>The same wait, with the messages of the reads that complete meanwhile.\<close>

definition sv_wait_reads ::
  "int \<Rightarrow> u64 option \<Rightarrow> (sv_tag \<times> sv_completion) wait_turn list \<Rightarrow> rserver \<Rightarrow>
   (rserver \<times> (u64 \<times> string list option) list) res option" where
  "sv_wait_reads timeout want turns s =
     (if timeout \<noteq> 0 then observed_wait (sv_found want) sv_drain sv_handle sv_wake sv_filled timeout turns (s, [])
      else Some (Inr (s, [])))"

lemma sv_wait_reads_wait:
  "sv_wait timeout want turns s = map_option (map_sum id fst) (sv_wait_reads timeout want turns s)"
  using wait_loop_observed [of "sv_found want" sv_drain sv_handle sv_wake timeout turns "(s, [])" sv_filled]
  by (simp add: sv_wait_def sv_wait_reads_def)

lemma server_poll_eq:
  "server_poll (Some s) maxn timeout only_id turns =
     (if sv_closed s then Some (Inl (Rf_error ''grpc server is closed''))
      else case sv_wait timeout (map_option u64_of_double only_id) turns s of
             None \<Rightarrow> None
           | Some (Inl e) \<Rightarrow> Some (Inl e)
           | Some (Inr s1) \<Rightarrow> Some (Inr (sv_poll_locked (map_option u64_of_double only_id) maxn s1)))"
  by (simp add: server_poll_def get_server_def sv_wait_def Let_def)

definition sv_created :: "sv_world \<Rightarrow> bool" where
  "sv_created w \<longleftrightarrow>
     (\<exists>r wr cap port o'. r \<ge> 0 \<and> wr \<ge> 0 \<and> 0 < cap \<and> so_max_active o' < 2 ^ 31 \<and>
        grpc_r_server2_create (Some (r, wr, cap)) (Some port) o' = (Inr (sw_server w), [])) \<and>
     sw_queued w = [] \<and> sw_polls w = [] \<and> sw_sent w = [] \<and> sw_reads w = []"

inductive sv_step :: "sv_world \<Rightarrow> sv_world \<Rightarrow> bool" where
  called:
    "cmd_ok op \<Longrightarrow> sv_exec op (Some (sw_server w)) = Inr (v, s') \<Longrightarrow>
     sv_step w (w\<lparr>sw_server := s', sw_sent := sw_sent w @ sv_accepted op v (sw_server w)\<rparr>)"
| completed:
    "sv_enabled tc (sw_server w) \<Longrightarrow> sv_handle tc (sw_server w) = Inr s' \<Longrightarrow>
     sv_step w (w\<lparr>sw_server := s',
                   sw_queued := sw_queued w @ drop (length (sv_ready (sw_server w))) (sv_ready s'),
                   sw_reads := sw_reads w @ sv_filled tc (sw_server w)\<rparr>)"
| polled:
    "\<not> sv_closed (sw_server w) \<Longrightarrow> turns_ok sv_enabled sv_drain sv_handle turns (sw_server w) \<Longrightarrow>
     sv_wait_reads timeout want turns (sw_server w) = Some (Inr (s1, reads)) \<Longrightarrow>
     sv_poll_locked want maxn s1 = (batch, s') \<Longrightarrow>
     sv_step w (w\<lparr>sw_server := s',
                   sw_queued := sw_queued w @ drop (length (sv_ready (sw_server w))) (sv_ready s1),
                   sw_polls := sw_polls w @ [(batch, sv_poll_result mk batch)],
                   sw_reads := sw_reads w @ reads\<rparr>)"
| closing:
    "\<not> sv_closed (sw_server w) \<Longrightarrow> sv_step w (w\<lparr>sw_server := rserver_shutdown_begin (sw_server w)\<rparr>)"

text \<open>Every poll that returns from its wait is a step, with what the entry point returns to R.\<close>

lemma server_poll_is_step:
  assumes "turns_ok sv_enabled sv_drain sv_handle turns (sw_server w)"
    and "grpc_r_server2_poll mk (Some (sw_server w)) maxn timeout only_id turns = Some (Inr (r, s'))"
  shows "\<exists>w'. sv_step w w' \<and> sw_server w' = s' \<and> (\<exists>batch. sw_polls w' = sw_polls w @ [(batch, r)])"
proof -
  let ?want = "map_option u64_of_double only_id"
  from assms(2) have op: "\<not> sv_closed (sw_server w)"
    by (auto simp: grpc_r_server2_poll_def server_poll_eq split: if_splits)
  with assms(2) obtain s1 batch where s1: "sv_wait timeout ?want turns (sw_server w) = Some (Inr s1)"
    and b: "sv_poll_locked ?want maxn s1 = (batch, s')" and r: "r = sv_poll_result mk batch"
    by (auto simp: grpc_r_server2_poll_def server_poll_eq sv_poll_result_def
        split: if_splits option.splits sum.splits prod.splits)
  from s1 obtain reads where "sv_wait_reads timeout ?want turns (sw_server w) = Some (Inr (s1, reads))"
    by (auto simp: sv_wait_reads_wait map_sum_Inr_iff)
  from sv_step.polled [OF op assms(1) this b, of mk] r show ?thesis by fastforce
qed

abbreviation sv_reach :: "sv_world \<Rightarrow> bool" where
  "sv_reach \<equiv> reachable sv_created sv_step"

section \<open>The invariant of the histories\<close>

definition types_of :: "u64 \<Rightarrow> sv_event list \<Rightarrow> nat list" where
  "types_of i es = map se_type (filter (\<lambda>e. se_id e = i) es)"

lemma types_of_append [simp]: "types_of i (xs @ ys) = types_of i xs @ types_of i ys"
  by (simp add: types_of_def)

lemma types_of_other: "\<forall>e \<in> set es. se_id e = j \<Longrightarrow> types_of i es = (if i = j then map se_type es else [])"
  by (induction es) (auto simp: types_of_def)

text \<open>
  The protocol of one call's events: one of the five types, the request first and once, a
  cancellation last and at most once.
\<close>

definition protocol_ok :: "nat list \<Rightarrow> bool" where
  "protocol_ok ts \<longleftrightarrow> ts = [] \<or> hd ts = 0 \<and> 0 \<notin> set (tl ts) \<and> 1 \<notin> set (butlast ts) \<and> (\<forall>t \<in> set ts. t \<le> 4)"

text \<open>The history of a call that is still stored.\<close>

definition stored_hist :: "nat list \<Rightarrow> nat \<Rightarrow> sv_call \<Rightarrow> bool" where
  "stored_hist ts ndone c \<longleftrightarrow>
     (sc_delivered c \<longleftrightarrow> ts \<noteq> []) \<and> (1 \<in> set ts \<longrightarrow> sc_dead c \<and> ndone = 0) \<and>
     (sc_delivered c \<and> \<not> sc_replied c \<and> ndone = 0 \<longrightarrow> 1 \<in> set ts)"

definition shist_ok :: "sv_event list \<Rightarrow> sv_event list \<Rightarrow> rserver \<Rightarrow> bool" where
  "shist_ok h d s \<longleftrightarrow>
     (\<forall>i. filter (\<lambda>e. se_id e = i) h =
        filter (\<lambda>e. se_id e = i) d @ filter (\<lambda>e. se_id e = i) (sv_ready s)) \<and>
     (\<forall>e \<in> set h. unat (se_id e) < unat (sv_next_id s) \<and> se_id e \<noteq> 0) \<and>
     (\<forall>i. protocol_ok (types_of i h)) \<and>
     (\<forall>a c. sv_heap s a = Some c \<longrightarrow> sc_id c \<noteq> 0 \<longrightarrow> stored_hist (types_of (sc_id c) h) (scnt s a SV_done) c)"

lemma shist_okD:
  assumes "shist_ok h d s"
  shows "filter (\<lambda>e. se_id e = i) h = filter (\<lambda>e. se_id e = i) d @ filter (\<lambda>e. se_id e = i) (sv_ready s)"
    and "e \<in> set h \<Longrightarrow> unat (se_id e) < unat (sv_next_id s) \<and> se_id e \<noteq> 0"
    and "protocol_ok (types_of i h)"
    and "sv_heap s a = Some c \<Longrightarrow> sc_id c \<noteq> 0 \<Longrightarrow> stored_hist (types_of (sc_id c) h) (scnt s a SV_done) c"
  using assms unfolding shist_ok_def by blast+

lemma types_fresh: "shist_ok h d s \<Longrightarrow> types_of (sv_next_id s) h = []"
  using shist_okD(2) by (fastforce simp: types_of_def filter_empty_conv)

text \<open>One completion of a call: the protocol goes on.\<close>

lemma reports_protocol:
  assumes pr: "protocol_ok ts" and st: "stored_hist ts nd c" and rp: "section_reports k c us c'"
    and nd: "0 < nd \<or> k \<noteq> SV_done"
  shows "protocol_ok (ts @ us)"
    and "nd' = (if k = SV_done then nd - 1 else nd) \<Longrightarrow> nd \<le> 1 \<Longrightarrow>
      \<not> (nd' = 0 \<and> us = [0]) \<Longrightarrow> stored_hist (ts @ us) nd' c'"
proof -
  from rp consider (none) "us = []" "sc_delivered c' = sc_delivered c" "\<not> (k = SV_done \<and> sc_delivered c \<and> \<not> sc_replied c)"
    | (request) "us = [0]" "k = SV_read" "\<not> sc_delivered c" "sc_delivered c'"
    | (msg) t where "us = [t]" "t \<in> {2, 3, 4}" "k \<noteq> SV_done" "sc_delivered c" "\<not> sc_dead c" "sc_delivered c'"
    | (cancelled) "us = [1]" "k = SV_done" "sc_delivered c" "sc_delivered c'" "sc_dead c'"
    unfolding section_reports_def by blast
  note cases = this
  from rp have mono: "sc_dead c \<Longrightarrow> sc_dead c'" "sc_replied c' = sc_replied c" by (auto simp: section_reports_def)
  from cases show "protocol_ok (ts @ us)"
    by cases (use pr st nd in \<open>auto simp: protocol_ok_def stored_hist_def butlast_append dest: in_set_butlastD
        split: if_splits\<close>)
  assume "nd' = (if k = SV_done then nd - 1 else nd)" "nd \<le> 1" "\<not> (nd' = 0 \<and> us = [0])"
  with cases show "stored_hist (ts @ us) nd' c'"
    by cases (use st nd mono in \<open>auto simp: stored_hist_def split: if_splits\<close>)
qed

lemma call_section_ok:
  fixes cp
  assumes st: "stored_ok a (s, c)" and n: "0 < scnt s a k" and k: "k \<noteq> SV_accept"
  defines "p \<equiv> call_section a k cp (sv_taken_off a k s, sv_popped c)"
  shows "call_ok a p" and "sc_pending (snd p) \<noteq> 0 \<Longrightarrow> call_over (scnt (fst p) a) (snd p)"
proof -
  from st have ok: "call_ok a (s, c)" and ov: "call_over (scnt s a) c" by (simp_all add: stored_ok_def)
  show "call_ok a p"
    using ok n k by (cases k) (simp_all add: p_def call_section_def read_section_ok write_section_ok done_section_ok
        finish_section_ok)
  show "call_over (scnt (fst p) a) (snd p)" if "sc_pending (snd p) \<noteq> 0"
    using over_section(1) [OF ok ov, of cp] over_section(2-) [OF ok ov] n k that by (cases k) (simp_all add: p_def call_section_def)
qed

lemma post_accepts_calls:
  "sv_heap (post_accepts_locked s) b = Some c \<Longrightarrow> sc_id c \<noteq> 0 \<Longrightarrow>
   sv_heap s b = Some c \<and> scnt (post_accepts_locked s) b SV_done = scnt s b SV_done"
proof (induction s rule: post_accepts_locked.induct)
  case (1 s)
  show ?case
  proof (cases "accepts_wanted s")
    case False
    with 1 show ?thesis by (subst post_accepts_locked.simps, subst (asm) post_accepts_locked.simps) simp
  next
    case True
    with 1 have "sv_heap (post_accept s) b = Some c \<and>
        scnt (post_accepts_locked (post_accept s)) b SV_done = scnt (post_accept s) b SV_done"
      by (subst (asm) post_accepts_locked.simps) simp
    with True 1(3) show ?thesis
      by (subst post_accepts_locked.simps)
        (auto simp: post_accept_def Let_def sv_post_def sv_call_init_def scnt_def split: if_splits)
  qed
qed

lemma refills_calls:
  "sv_heap (refills k s) b = Some c \<Longrightarrow> sc_id c \<noteq> 0 \<Longrightarrow>
   sv_heap s b = Some c \<and> scnt (refills k s) b SV_done = scnt s b SV_done"
  by (auto simp: refills_def dest: post_accepts_calls split: if_splits)

lemma refills_frame [simp]:
  "sv_ready (refills k s) = sv_ready s" "sv_next_id (refills k s) = sv_next_id s"
  "sv_shutting (refills k s) = sv_shutting s" "sv_closed (refills k s) = sv_closed s"
  by (simp_all add: refills_def)

lemma maybe_free_calls:
  "sv_heap (maybe_free_locked a p) b = Some c \<Longrightarrow>
   (if b = a then c = snd p \<and> sc_pending c \<noteq> 0 else sv_heap (fst p) b = Some c)"
  by (auto simp: maybe_free_locked_def sv_store_def Let_def split_beta split: if_splits)

lemma shist_call:
  assumes inv: "sv_inv n s" and hist: "shist_ok h d s" and t: "Sv_tag a k \<in> set (sv_cq s)" and k: "k \<noteq> SV_accept"
    and hd: "sv_handle (Sv_tag a k, cp) s = Inr s'"
  shows "shist_ok (h @ drop (length (sv_ready s)) (sv_ready s')) d s'"
proof -
  note hp = sv_invD(1) [OF inv]
  from t have n: "0 < scnt s a k" by (simp add: scnt_def count_list_pos_iff)
  then obtain c where c: "sv_heap s a = Some c" using sheap_okD(6) [OF hp, of a k] by (cases "sv_heap s a") auto
  have nz: "sc_id c \<noteq> 0" using sheap_okD(4) [OF hp c] n k by (auto simp: slot_ok_def)
  note st = sheap_okD(5) [OF hp c nz]
  then have ok: "call_ok a (s, c)" by (simp add: stored_ok_def)
  let ?p = "call_section a k cp (sv_taken_off a k s, sv_popped c)"
  have "k = SV_write \<Longrightarrow> sc_write_queue c \<noteq> []" using n ok by (auto simp: call_ok_def call_tags_def call_wf_def)
  with sv_handle_section [OF c k, of cp] hd have s': "s' = refills k (maybe_free_locked a ?p)" by simp
  from call_section_reports [OF ok n k, of cp] obtain evs where
    ev: "sv_ready (fst ?p) = sv_ready s @ evs" "\<forall>e \<in> set evs. se_id e = sc_id c"
      "section_reports k c (map se_type evs) (snd ?p)" by blast
  have tch: "sv_touches a (sc_id c) (sv_taken_off a k s) (fst ?p)" "sc_id (snd ?p) = sc_id c"
    using call_section_frame [where a = a and c = "sv_popped c" and s = "sv_taken_off a k s" and k = k and cp = cp]
    by simp_all
  have rd: "drop (length (sv_ready s)) (sv_ready s') = evs" "sv_ready s' = sv_ready s @ evs" by (simp_all add: s' ev(1))
  have nid: "sv_next_id s' = sv_next_id s" using sv_touches_frame(2) [OF tch(1)] by (simp add: s')
  note ty = types_of_other [OF ev(2)]
  note old = shist_okD(4) [OF hist c nz] and pr = shist_okD(3) [OF hist, of "sc_id c"]
  have nd: "0 < scnt s a SV_done \<or> k \<noteq> SV_done" using n by auto
  show ?thesis
    unfolding shist_ok_def rd(1)
  proof (intro conjI allI ballI impI)
    fix i show "filter (\<lambda>e. se_id e = i) (h @ evs) = filter (\<lambda>e. se_id e = i) d @ filter (\<lambda>e. se_id e = i) (sv_ready s')"
      using shist_okD(1) [OF hist, of i] by (simp add: rd(2))
    show "protocol_ok (types_of i (h @ evs))"
      using reports_protocol(1) [OF pr old ev(3) nd] shist_okD(3) [OF hist, of i] by (simp add: ty)
  next
    fix e assume "e \<in> set (h @ evs)"
    then show "unat (se_id e) < unat (sv_next_id s')" "se_id e \<noteq> 0"
      using shist_okD(2) [OF hist, of e] ev(2) c nz sv_invD(3) [OF inv] by (auto simp: nid sids_ok_def)
  next
    fix b c' assume b: "sv_heap s' b = Some c'" and z: "sc_id c' \<noteq> 0"
    from refills_calls [OF b [unfolded s'] z] have
      m: "sv_heap (maybe_free_locked a ?p) b = Some c'" "scnt s' b SV_done = scnt (fst ?p) b SV_done"
      by (simp_all add: s' scnt_def)
    show "stored_hist (types_of (sc_id c') (h @ evs)) (scnt s' b SV_done) c'"
    proof (cases "b = a")
      case True
      with maybe_free_calls [OF m(1)] have c': "c' = snd ?p" "sc_pending (snd ?p) \<noteq> 0" by auto
      from call_section_ok(2) [OF st n k c'(2)] have ov: "call_over (scnt (fst ?p) a) (snd ?p)" .
      have "\<not> (scnt s' a SV_done = 0 \<and> map se_type evs = [0])"
      proof
        assume *: "scnt s' a SV_done = 0 \<and> map se_type evs = [0]"
        with ev(3) have "\<not> sc_delivered c" "sc_delivered (snd ?p)" "\<not> sc_dead (snd ?p)" "sc_replied (snd ?p) = sc_replied c"
          by (auto simp: section_reports_def)
        with ov ok * m(2) True show False by (auto simp: call_over_def call_ok_def call_wf_def)
      qed
      moreover have "scnt s' a SV_done = (if k = SV_done then scnt s a SV_done - 1 else scnt s a SV_done)"
        using m(2) True call_section_done [OF k, of a cp s c] by simp
      moreover have "scnt s a SV_done \<le> 1" using ok by (simp add: call_ok_def call_tags_def)
      ultimately show ?thesis
        using reports_protocol(2) [OF pr old ev(3) nd] True c' tch(2) by (simp add: ty)
    next
      case False
      with maybe_free_calls [OF m(1)] have b': "sv_heap s b = Some c'" using sv_touches_frame(6) [OF tch(1)] by simp
      have "sc_id c' \<noteq> sc_id c" using sheap_unique [OF hp b' c _ z] False by auto
      moreover have "scnt s' b SV_done = scnt s b SV_done"
        using m(2) sv_touches_cnt [OF tch(1) False, of SV_done] False by simp
      ultimately show ?thesis using shist_okD(4) [OF hist b' z] by (simp add: ty)
    qed
  qed
qed

text \<open>An accept queues no event; it brings a new call, or deletes a slot.\<close>

lemma shist_accept:
  assumes inv: "sv_inv n s" and hist: "shist_ok h d s" and t: "Sv_tag a SV_accept \<in> set (sv_cq s)"
    and id: "unat (sv_next_id s) < 2 ^ 64 - 1" and hd: "sv_handle (Sv_tag a SV_accept, cp) s = Inr s'"
  shows "shist_ok (h @ drop (length (sv_ready s)) (sv_ready s')) d s'"
proof -
  from accept_counts(2) [OF inv t] have sl: "sv_heap s a = Some (sv_call_init\<lparr>sc_pending := 1\<rparr>)"
    by (auto simp: slot_ok_def)
  note h' = run_accept_ok [OF sl, of cp, unfolded hd]
  have ids: "0 < unat (sv_next_id s)" using sv_invD(3) [OF inv] by (simp add: sids_ok_def)
  show ?thesis
  proof (cases "sp_ok cp")
    case True
    with h' have s': "s' = post_accepts_locked (accepted_state a s)" by simp
    have rd: "sv_ready s' = sv_ready s" "sv_next_id s' = sv_next_id s + 1" by (simp_all add: s' accepted_state_def)
    have nid: "unat (sv_next_id s + 1) = unat (sv_next_id s) + 1" using id by (rule unat_plus_one_u64)
    have "stored_hist (types_of (sc_id c') h) (scnt s' b SV_done) c'" if "sv_heap s' b = Some c'" "sc_id c' \<noteq> 0" for b c'
    proof -
      from post_accepts_calls [OF that [unfolded s']] have
        b: "sv_heap (accepted_state a s) b = Some c'" "scnt s' b SV_done = scnt (accepted_state a s) b SV_done"
        by (simp_all add: s')
      show ?thesis
      proof (cases "b = a")
        case True
        with b(1) have "c' = accepted_call s" by (simp add: accepted_state_def)
        with types_fresh [OF hist] b(2) True show ?thesis
          by (simp add: stored_hist_def accepted_call_def sv_call_init_def)
      next
        case False
        with b have "sv_heap s b = Some c'" "scnt s' b SV_done = scnt s b SV_done"
          by (auto simp: accepted_state_def scnt_def)
        with shist_okD(4) [OF hist _ that(2)] show ?thesis by simp
      qed
    qed
    with shist_okD(1-3) [OF hist] show ?thesis
      unfolding shist_ok_def rd by (auto simp: nid less_Suc_eq)
  next
    case False
    with h' have s': "s' = (sv_taken_off a SV_accept s)\<lparr>sv_accepts_outstanding := sv_accepts_outstanding s - 1,
      sv_heap := (sv_heap s)(a := None)\<rparr>" by simp
    have "scnt s' b SV_done = scnt s b SV_done" for b by (simp add: s' scnt_def)
    with hist show ?thesis unfolding shist_ok_def by (auto simp: s')
  qed
qed

section \<open>Waiting and polling\<close>

lemma sv_advancesI:
  "sv_touches a i s0 s1 \<Longrightarrow> sv_ready s0 = sv_ready s \<Longrightarrow> sv_wake s0 = sv_wake s \<Longrightarrow> sv_closed s0 = sv_closed s \<Longrightarrow>
   sv_shutting s0 = sv_shutting s \<Longrightarrow> sv_cq_shut s0 = sv_cq_shut s \<Longrightarrow>
   sv_ready s' = sv_ready s1 \<Longrightarrow> sv_wake s' = sv_wake s1 \<Longrightarrow> sv_closed s' = sv_closed s1 \<Longrightarrow>
   sv_shutting s' = sv_shutting s1 \<Longrightarrow> sv_cq_shut s' = sv_cq_shut s1 \<Longrightarrow> sv_advances s s'"
  using sv_touches_advances [of a i s0 s1] by (simp add: sv_advances_def)

text \<open>Whatever the tag, a completion only appends events and signals once for each.\<close>

lemma sv_handle_advances:
  assumes h: "sv_handle tc s = Inr s'"
  shows "sv_advances s s'"
proof -
  obtain a k cp where tc: "tc = (Sv_tag a k, cp)" by (metis prod.collapse sv_tag.collapse)
  from h tc obtain c where c: "sv_heap s a = Some c"
    and d: "sv_dispatch a k cp (sv_next (Sv_tag a k) (sp_ok cp) s, sv_popped c) = Inr s'"
    by (auto simp: sv_handle_def rbind_Inr_iff deref_Inr_iff Let_def sv_next_def)
  show ?thesis
  proof (cases "k = SV_accept")
    case True
    with d show ?thesis
      by (intro sv_advancesI [of a 0 s s]) (auto simp: sv_dispatch_def run_accept_def Let_def sv_store_def sv_post_def sv_next_def
          split: if_splits)
  next
    case False
    show ?thesis
    proof (cases "k = SV_write \<and> sc_write_queue c = []")
      case empty: True
      with d have "s' = maybe_free_locked a (sv_taken_off a k s, (sv_popped c)\<lparr>sc_write_inflight := False, sc_dead := True\<rparr>)"
        by (auto simp: sv_dispatch_def run_svwrite_def Let_def sv_next_def split: if_splits)
      then show ?thesis by (intro sv_advancesI [of a 0 "sv_taken_off a k s" "sv_taken_off a k s"]) simp_all
    next
      case full: False
      let ?p = "call_section a k cp (sv_taken_off a k s, sv_popped c)"
      from sv_handle_section [OF c False, of cp] full h tc have s': "s' = refills k (maybe_free_locked a ?p)" by auto
      show ?thesis
        by (rule sv_advancesI [OF call_section_frame(1) [where a = a and k = k and cp = cp and c = "sv_popped c"
              and s = "sv_taken_off a k s"]]) (simp_all add: s' refills_def)
    qed
  qed
qed

definition sv_good :: "rserver \<Rightarrow> bool" where
  "sv_good s \<longleftrightarrow> (\<exists>n. sv_inv n s)"

lemma sv_handle_good:
  assumes g: "sv_good s" and hist: "shist_ok h d s" and en: "sv_enabled tc s"
  shows "\<exists>s'. sv_handle tc s = Inr s' \<and> sv_good s' \<and> sv_advances s s' \<and>
    shist_ok (h @ drop (length (sv_ready s)) (sv_ready s')) d s'"
proof -
  from g obtain m where m: "sv_inv m s" by (auto simp: sv_good_def)
  let ?n = "unat (sv_next_id s) - 1"
  from m have inv: "sv_inv ?n s" by (auto simp: sv_inv_def sids_ok_def)
  from en have n: "?n + accepts_in tc < 2 ^ 64 - 1" and t: "fst tc \<in> set (sv_cq s)" and i: "unat (sv_next_id s) < 2 ^ 64 - 1"
    using inv by (auto simp: sv_enabled_def accepts_in_def sv_inv_def sids_ok_def)
  from sv_handle_inv [OF inv t n] obtain s' where s': "sv_handle tc s = Inr s'" "sv_good s'" "sv_advances s s'"
    by (auto simp: sv_good_def)
  obtain a k cp where tc: "tc = (Sv_tag a k, cp)" by (metis prod.collapse sv_tag.collapse)
  with t have t': "Sv_tag a k \<in> set (sv_cq s)" by simp
  have "shist_ok (h @ drop (length (sv_ready s)) (sv_ready s')) d s'"
    using shist_call [OF inv hist t', of cp s'] shist_accept [OF inv hist, of a cp s'] t' i s'(1) tc
    by (cases "k = SV_accept") auto
  with s' show ?thesis by blast
qed

definition sv_extends :: "rserver \<Rightarrow> rserver \<Rightarrow> bool" where
  "sv_extends s s' \<longleftrightarrow> (\<exists>evs. sv_ready s' = sv_ready s @ evs) \<and>
     sv_closed s' = sv_closed s \<and> sv_shutting s' = sv_shutting s"

definition swait_inv :: "sv_event list \<Rightarrow> sv_event list \<Rightarrow> nat \<Rightarrow> rserver \<Rightarrow> bool" where
  "swait_inv h d k s \<longleftrightarrow> sv_good s \<and> k \<le> length (sv_ready s) \<and> shist_ok (h @ drop k (sv_ready s)) d s"

lemma sv_advances_signals:
  assumes "sv_advances s s'" and "wake_ok (sv_wake s)"
  shows "wake_ok (sv_wake s')"
    and "sv_ready s' \<noteq> sv_ready s \<Longrightarrow> wake_readable (sv_wake s')"
    and "wake_readable (sv_wake s) \<Longrightarrow> wake_readable (sv_wake s')"
proof -
  from assms(1) obtain evs where rd: "sv_ready s' = sv_ready s @ evs"
    and wk: "sv_wake s' = (wake_signal ^^ length evs) (sv_wake s)"
    unfolding sv_advances_def by blast
  show "wake_ok (sv_wake s')" by (simp add: wk upipe.ok_signals assms(2))
  have sig: "wake_readable ((wake_signal ^^ Suc m) (sv_wake s))" for m
    by (simp add: upipe.signal_readable upipe.ok_signals assms(2))
  show "wake_readable (sv_wake s')" if "sv_ready s' \<noteq> sv_ready s"
    using that sig rd wk by (cases evs) auto
  show "wake_readable (sv_wake s')" if "wake_readable (sv_wake s)"
    using that sig wk by (cases evs) auto
qed

lemma sv_drain_good: "sv_good s \<Longrightarrow> sv_good (sv_drain s)"
  using sv_inv_ready [of _ s "sv_ready s" "wake_drain (sv_wake s)"] upipe.ok_drain
  by (fastforce simp: sv_good_def sv_drain_def dest: sv_invD(5))

lemma shist_ok_cong:
  assumes "sv_ready s' = sv_ready s" "sv_next_id s' = sv_next_id s"
    and "\<And>a c. sv_heap s' a = Some c \<Longrightarrow> sc_id c \<noteq> 0 \<Longrightarrow> \<exists>c0. sv_heap s a = Some c0 \<and> sc_id c0 = sc_id c \<and>
      sc_delivered c0 = sc_delivered c \<and> sc_dead c0 = sc_dead c \<and> (sc_replied c0 \<longrightarrow> sc_replied c) \<and>
      scnt s' a SV_done = scnt s a SV_done"
    and "shist_ok h d s"
  shows "shist_ok h d s'"
proof -
  have "stored_hist (types_of (sc_id c) h) (scnt s' a SV_done) c" if c: "sv_heap s' a = Some c" "sc_id c \<noteq> 0" for a c
  proof -
    from assms(3) [OF c] obtain c0 where c0: "sv_heap s a = Some c0" "sc_id c0 = sc_id c"
      "sc_delivered c0 = sc_delivered c" "sc_dead c0 = sc_dead c" "sc_replied c0 \<longrightarrow> sc_replied c"
      "scnt s' a SV_done = scnt s a SV_done" by blast
    with shist_okD(4) [OF assms(4) c0(1)] c(2) show ?thesis by (auto simp: stored_hist_def)
  qed
  with assms(4) show ?thesis unfolding shist_ok_def assms(1,2) by blast
qed

interpretation svq: safe_queue "sv_found want" sv_drain sv_handle sv_wake "\<lambda>s. wake_ok (sv_wake s)"
  sv_enabled "swait_inv h d k" sv_extends for want h d k
proof unfold_locales
  fix s s' t
  show "sv_found want (sv_drain s) \<longleftrightarrow> sv_found want s" by (simp add: sv_found_def sv_drain_def)
  show "wake_ok (sv_wake s) \<Longrightarrow> wake_ok (sv_wake (sv_drain s))" by (simp add: sv_drain_def upipe.ok_drain)
  show "wake_ok (sv_wake s) \<Longrightarrow> sv_handle t s = Inr s' \<Longrightarrow> wake_ok (sv_wake s')"
    using sv_handle_advances sv_advances_signals(1) by blast
  show "wake_ok (sv_wake s) \<Longrightarrow> sv_handle t s = Inr s' \<Longrightarrow> sv_found want s' \<Longrightarrow> \<not> sv_found want s \<Longrightarrow>
      wake_readable (sv_wake s')"
    using sv_handle_advances [of t s s'] sv_advances_signals(2) [of s s']
    by (cases "sv_ready s' = sv_ready s") (auto simp: sv_found_def)
  show "sv_found want s \<Longrightarrow> sv_handle t s = Inr s' \<Longrightarrow> sv_found want s'"
    using sv_handle_advances [of t s s'] by (auto simp: sv_found_def sv_advances_def have_match_def)
  show "wake_ok (sv_wake s) \<Longrightarrow> sv_handle t s = Inr s' \<Longrightarrow> wake_readable (sv_wake s) \<Longrightarrow> wake_readable (sv_wake s')"
    using sv_handle_advances sv_advances_signals(3) by blast
  show "swait_inv h d k s \<Longrightarrow> swait_inv h d k (sv_drain s)"
    using sv_drain_good [of s] shist_ok_cong [of "sv_drain s" s]
    by (simp add: swait_inv_def sv_drain_def scnt_def)
  show "sv_handle t s = Inr s' \<Longrightarrow> sv_extends s s'"
    using sv_handle_advances [of t s s'] by (auto simp: sv_extends_def sv_advances_def)
  show "\<exists>s'. sv_handle t s = Inr s' \<and> swait_inv h d k s'" if w: "swait_inv h d k s" and en: "sv_enabled t s"
  proof -
    from w have g: "sv_good s" "k \<le> length (sv_ready s)" "shist_ok (h @ drop k (sv_ready s)) d s"
      by (simp_all add: swait_inv_def)
    from sv_handle_good [OF g(1,3) en] obtain s' where s': "sv_handle t s = Inr s'" "sv_good s'" "sv_advances s s'"
      "shist_ok ((h @ drop k (sv_ready s)) @ drop (length (sv_ready s)) (sv_ready s')) d s'" by blast
    from s'(3) obtain evs where "sv_ready s' = sv_ready s @ evs" by (auto simp: sv_advances_def)
    with s' g(2) show ?thesis by (auto simp: swait_inv_def)
  qed
qed (auto simp: sv_extends_def sv_drain_def)

lemma sv_wait_ok:
  assumes "sv_good s" and "shist_ok h d s" and "turns_ok sv_enabled sv_drain sv_handle turns s"
  shows "sv_wait timeout want turns s = None \<or>
    (\<exists>s1. sv_wait timeout want turns s = Some (Inr s1) \<and> sv_good s1 \<and>
       shist_ok (h @ drop (length (sv_ready s)) (sv_ready s1)) d s1 \<and> sv_extends s s1)"
proof -
  have "swait_inv h d (length (sv_ready s)) s" using assms by (simp add: swait_inv_def)
  from svq.wait_safe [OF this assms(3), of want timeout] assms show ?thesis
    by (auto simp: sv_wait_def swait_inv_def sv_extends_def)
qed

lemma sv_poll_good:
  assumes "sv_good s"
  shows "\<exists>h. sv_poll_locked only_id maxn s =
      (fst (take_matching (matches se_id only_id) (nat maxn) (sv_ready s)),
       s\<lparr>sv_ready := snd (take_matching (matches se_id only_id) (nat maxn) (sv_ready s)), sv_wake := h\<rparr>) \<and>
    sv_good (s\<lparr>sv_ready := snd (take_matching (matches se_id only_id) (nat maxn) (sv_ready s)), sv_wake := h\<rparr>) \<and>
    sarmed (s\<lparr>sv_ready := snd (take_matching (matches se_id only_id) (nat maxn) (sv_ready s)), sv_wake := h\<rparr>)"
  using assms sv_poll_locked_ok [of _ s only_id maxn] unfolding sv_good_def by blast

lemma shist_poll:
  assumes g: "sv_good s" and hist: "shist_ok h d s" and p: "sv_poll_locked only_id maxn s = (b, s')"
  shows "shist_ok h (d @ b) s'"
proof -
  let ?t = "take_matching (matches se_id only_id) (nat maxn) (sv_ready s)"
  from sv_poll_good [OF g, of only_id maxn] p obtain hh where
    bs: "b = fst ?t" "s' = s\<lparr>sv_ready := snd ?t, sv_wake := hh\<rparr>" by auto
  have "filter (\<lambda>e. se_id e = i) (fst ?t) @ filter (\<lambda>e. se_id e = i) (snd ?t) = filter (\<lambda>e. se_id e = i) (sv_ready s)" for i
    by (rule take_matching_order)
  with hist show ?thesis by (simp add: shist_ok_def bs scnt_def)
qed

section \<open>The entry points and the histories\<close>

text \<open>A section on one call that reports nothing and does not bring a call back to life.\<close>

definition silent :: "rserver \<Rightarrow> rserver \<Rightarrow> bool" where
  "silent s s' \<longleftrightarrow> sv_ready s' = sv_ready s \<and> sv_next_id s' = sv_next_id s \<and>
     (\<forall>a c. sv_heap s' a = Some c \<longrightarrow> (\<exists>c0. sv_heap s a = Some c0 \<and> sc_id c0 = sc_id c \<and>
        sc_delivered c0 = sc_delivered c \<and> sc_dead c0 = sc_dead c \<and> (sc_replied c0 \<longrightarrow> sc_replied c) \<and>
        scnt s' a SV_done = scnt s a SV_done))"

lemma silent_refl [simp]: "silent s s"
  by (simp add: silent_def)

lemma silent_store:
  assumes c: "sv_heap s a = Some c" and t: "sv_touches a (sc_id c) s (fst p)" and rd: "sv_ready (fst p) = sv_ready s"
    and f: "sc_id (snd p) = sc_id c" "sc_delivered (snd p) = sc_delivered c" "sc_dead (snd p) = sc_dead c"
      "sc_replied c \<Longrightarrow> sc_replied (snd p)" "scnt (fst p) a SV_done = scnt s a SV_done"
  shows "silent s (sv_store a p)"
proof -
  have "scnt (sv_store a p) b k = scnt (fst p) b k" for b k by (simp add: scnt_def sv_store_def split_beta)
  with sv_touches_cnt [OF t, of _ SV_done] c f rd sv_touches_frame [OF t] show ?thesis
    by (auto simp: silent_def sv_store_def split_beta)
qed

lemma silent_pump:
  assumes c: "sv_heap s a = Some c" and f: "sc_id c' = sc_id c" "sc_delivered c' = sc_delivered c"
    "sc_dead c' = sc_dead c" "sc_replied c \<Longrightarrow> sc_replied c'"
  shows "silent s (sv_store a (pump_locked a (s, c')))"
  by (rule silent_store [OF c]) (use f in \<open>simp_all add: pump_done\<close>)

lemma with_call_silent:
  assumes "with_call s cid f = Inr (v, s')" and "\<And>a c. sv_heap s a = Some c \<Longrightarrow> f a c = Inr (v, s') \<Longrightarrow> silent s s'"
  shows "silent s s'"
  using assms by (auto simp: with_call_def rbind_Inr_iff deref_Inr_iff split: option.splits)

lemma exec_sopen: "sv_exec op (Some s) = Inr r \<Longrightarrow> \<not> sv_closed s"
  by (cases op) (auto simp: sv_exec_def grpc_r_server2_reply_def grpc_r_server2_read_def grpc_r_server2_cancel_def
      grpc_r_server2_send_def grpc_r_server2_finish_def get_server_def split: if_splits)

lemma exec_silent:
  assumes "sv_exec op (Some s) = Inr (v, s')"
  shows "silent s s'"
proof (cases op)
  case (Sv_reply cid response code message md)
  with assms exec_sopen [OF assms] show ?thesis
    by (auto simp: sv_exec_def grpc_r_server2_reply_def get_server_def Let_def rbind_Inr_iff
        split: if_splits elim!: with_call_silent intro!: silent_pump)
next
  case (Sv_read cid)
  have post: "silent s (sv_store a (sv_post a SV_read SOp_Read s, c\<lparr>sc_read_inflight := True, sc_pending := sc_pending c + 1\<rparr>))"
    if "sv_heap s a = Some c" for a c
    using that by (auto simp: silent_def sv_store_def sv_post_def scnt_def)
  from Sv_read assms exec_sopen [OF assms] show ?thesis
    by (auto simp: sv_exec_def grpc_r_server2_read_def get_server_def Let_def post
        split: if_splits elim!: with_call_silent)
next
  case (Sv_cancel cid)
  with assms exec_sopen [OF assms] show ?thesis
    by (auto simp: sv_exec_def grpc_r_server2_cancel_def get_server_def
        split: if_splits elim!: with_call_silent intro!: silent_store)
next
  case (Sv_send cid bytes)
  with assms exec_sopen [OF assms] show ?thesis
    by (auto simp: sv_exec_def grpc_r_server2_send_def get_server_def Let_def
        split: if_splits elim!: with_call_silent intro!: silent_pump)
next
  case (Sv_finish cid code message md drain)
  with assms exec_sopen [OF assms] show ?thesis
    by (auto simp: sv_exec_def grpc_r_server2_finish_def get_server_def Let_def rbind_Inr_iff discard_queue_def
        split: if_splits list.splits elim!: with_call_silent intro!: silent_pump)
qed

lemma silent_hist: "silent s s' \<Longrightarrow> shist_ok h d s \<Longrightarrow> shist_ok h d s'"
  by (rule shist_ok_cong [of s' s]) (auto simp: silent_def)

lemma sv_exec_ok:
  assumes "sv_inv n s" and "\<not> sv_closed s" and "cmd_ok op"
  shows "\<exists>b s'. sv_exec op (Some s) = Inr (R_Logical b, s') \<and> sv_inv n s' \<and> squiet s s'"
  using assms
  by (cases op) (auto simp: sv_exec_def cmd_ok_def read_inv cancel_inv send_inv intro!: reply_inv finish_inv split: if_splits)

section \<open>The invariant holds in every reachable state\<close>

definition sworld_ok :: "sv_world \<Rightarrow> bool" where
  "sworld_ok w \<longleftrightarrow> sv_good (sw_server w) \<and> sarmed (sw_server w) \<and>
     shist_ok (sw_queued w) (sw_taken w) (sw_server w)"

lemma sarmed_advances: "sv_advances s s' \<Longrightarrow> wake_ok (sv_wake s) \<Longrightarrow> sarmed s \<Longrightarrow> sarmed s'"
  using sv_advances_signals(2,3) [of s s'] by (fastforce simp: sarmed_def sv_advances_def)

lemma sv_good_wake: "sv_good s \<Longrightarrow> wake_ok (sv_wake s)"
  by (auto simp: sv_good_def dest: sv_invD(5))

lemma server_created_ok:
  assumes "grpc_r_server2_create (Some (r, wr, cap)) (Some port) o' = (Inr s, [])" and "r \<ge> 0" and "wr \<ge> 0" and "0 < cap"
    and "so_max_active o' < 2 ^ 31"
  shows "sv_inv 0 s" and "sarmed s" and "shist_ok [] [] s"
proof -
  from assms obtain cf where s: "s = post_accepts_locked
      \<lparr>sv_conf = cf, sv_wake = \<lparr>wh_r = r, wh_w = wr, wh_buffered = 0, wh_capacity = cap\<rparr>,
       sv_port = port, sv_accept_window = so_accept_window o', sv_max_active = so_max_active o', sv_active = [],
       sv_ready = [], sv_accepts_outstanding = 0, sv_next_id = 1, sv_closed = False, sv_shutting = False,
       sv_heap = Map.empty, sv_next_addr = 0, sv_cq = [], sv_cq_shut = False, sv_log = []\<rparr>" (is "s = post_accepts_locked ?t")
    by (auto simp: grpc_r_server2_create_def Let_def wake_open_def wake_handle_init_def split: if_splits)
  have "sv_inv 0 ?t" using assms
    by (simp add: sv_inv_def sheap_ok_def slimits_ok_def sids_ok_def slog_ok_def wake_ok_def naccepts_def scnt_def)
  then show "sv_inv 0 s" unfolding s by (rule post_accepts_inv)
  show "sarmed s" by (simp add: s sarmed_def wake_readable_def)
  have "sc_id c = 0" if "sv_heap s a = Some c" for a c
  proof (rule ccontr)
    assume "sc_id c \<noteq> 0"
    with post_accepts_calls [of ?t a c] that show False by (simp add: s)
  qed
  then show "shist_ok [] [] s" by (simp add: shist_ok_def s types_of_def protocol_ok_def)
qed

lemma shutdown_begin_frame:
  fixes s
  defines "t \<equiv> rserver_shutdown_begin s"
  shows "sv_wake t = sv_wake s" "sv_accept_window t = sv_accept_window s" "sv_max_active t = sv_max_active s"
    "sv_active t = sv_active s" "sv_ready t = sv_ready s" "sv_accepts_outstanding t = sv_accepts_outstanding s"
    "sv_next_id t = sv_next_id s" "sv_heap t = sv_heap s" "sv_next_addr t = sv_next_addr s" "sv_cq t = sv_cq s"
    "sv_log t = sv_log s" "sv_closed t" "sv_shutting t" "sv_cq_shut t"
  by (simp_all add: t_def rserver_shutdown_begin_def)

lemma shutdown_begin_inv:
  assumes inv: "sv_inv n s"
  shows "sv_inv n (rserver_shutdown_begin s)"
proof -
  note f = shutdown_begin_frame [of s]
  have cnt: "scnt (rserver_shutdown_begin s) = scnt s" by (intro ext) (simp add: scnt_def f)
  have st: "stored_ok a (rserver_shutdown_begin s, c)" if "stored_ok a (s, c)" for a c
    using that by (simp add: stored_ok_def call_ok_def call_live_def cnt f)
  have "sheap_ok (rserver_shutdown_begin s)"
    using sv_invD(1) [OF inv] unfolding sheap_ok_def f cnt by (simp add: st)
  with inv show ?thesis by (simp add: sv_inv_def slimits_ok_def sids_ok_def slog_ok_def naccepts_def f)
qed

lemma sworld_step:
  assumes ok: "sworld_ok w" and st: "sv_step w w'"
  shows "sworld_ok w'"
proof -
  from ok have g: "sv_good (sw_server w)" and arm: "sarmed (sw_server w)"
    and hist: "shist_ok (sw_queued w) (sw_taken w) (sw_server w)" by (simp_all add: sworld_ok_def)
  from g obtain n where inv: "sv_inv n (sw_server w)" by (auto simp: sv_good_def)
  from st show ?thesis
  proof cases
    case (called op v s')
    from sv_exec_ok [OF inv exec_sopen [OF called(3)] called(2)] called(3)
    have "sv_inv n s'" "squiet (sw_server w) s'" by auto
    with silent_hist [OF exec_silent [OF called(3)] hist] arm called(1) show ?thesis
      by (auto simp: sworld_ok_def sv_good_def sarmed_def squiet_def sw_taken_def)
  next
    case (completed tc s')
    from sv_handle_good [OF g hist completed(2)] completed(3) have "sv_good s'" "sv_advances (sw_server w) s'"
      "shist_ok (sw_queued w @ drop (length (sv_ready (sw_server w))) (sv_ready s')) (sw_taken w) s'" by auto
    with sarmed_advances [OF _ sv_good_wake [OF g] arm] completed(1) show ?thesis by (simp add: sworld_ok_def sw_taken_def)
  next
    case (polled turns timeout want s1 reads maxn batch s' mk)
    from sv_wait_ok [OF g hist polled(3), of timeout want] polled(4) have g1: "sv_good s1"
      and h1: "shist_ok (sw_queued w @ drop (length (sv_ready (sw_server w))) (sv_ready s1)) (sw_taken w) s1"
      by (auto simp: sv_wait_reads_wait)
    from sv_poll_good [OF g1, of want maxn] polled(5) have "sv_good s'" "sarmed s'" by auto
    with shist_poll [OF g1 h1 polled(5)] polled(1) show ?thesis by (simp add: sworld_ok_def sw_taken_def)
  next
    case closing
    have "shist_ok (sw_queued w) (sw_taken w) (rserver_shutdown_begin (sw_server w))"
      by (rule shist_ok_cong [OF _ _ _ hist]) (auto simp: rserver_shutdown_begin_def scnt_def)
    with shutdown_begin_inv [OF inv] arm closing(1) show ?thesis
      by (auto simp: sworld_ok_def sv_good_def sarmed_def rserver_shutdown_begin_def sw_taken_def)
  qed
qed

interpretation svw: bounded_system sv_created sv_step "\<lambda>_. 0" 1 sworld_ok
proof unfold_locales
  fix w w'
  show "sv_created w \<Longrightarrow> sworld_ok w"
    using server_created_ok by (fastforce simp: sv_created_def sworld_ok_def sv_good_def sw_taken_def)
  show "sworld_ok w \<Longrightarrow> sv_step w w' \<Longrightarrow> sworld_ok w'" by (rule sworld_step)
qed simp

end
