(* ===== verification/Server_Shutdown.thy ===== *)
theory Server_Shutdown
  imports Server_System
begin

text \<open>
  Closing a server (\<^verbatim>\<open>rserver_shutdown\<close>, the finalizer and \<^verbatim>\<open>grpc_r_server2_close\<close>).  An accept
  that still succeeds while the server shuts down adds the done tag of the new call to the queue,
  so the outstanding tags alone do not decrease; twice the accepts plus the other tags do.
\<close>

section \<open>Every completion brings the end nearer\<close>

definition closing_weight :: "rserver \<Rightarrow> nat" where
  "closing_weight s = length (sv_cq s) + naccepts s"

definition sdrained :: "rserver \<Rightarrow> rserver \<Rightarrow> bool" where
  "sdrained s s' \<longleftrightarrow> sv_log s' = sv_log s \<and> sv_closed s' = sv_closed s \<and> sv_shutting s' = sv_shutting s \<and>
     sv_cq_shut s' = sv_cq_shut s \<and> wh_r (sv_wake s') = wh_r (sv_wake s) \<and> wh_w (sv_wake s') = wh_w (sv_wake s)"

lemma sdrained_trans: "sdrained s1 s2 \<Longrightarrow> sdrained s2 s3 \<Longrightarrow> sdrained s1 s3"
  by (simp add: sdrained_def)

lemma naccepts_remove1:
  "Sv_tag a k \<in> set (sv_cq s) \<Longrightarrow> k \<noteq> SV_accept \<Longrightarrow> naccepts (sv_taken_off a k s) = naccepts s"
  by (simp add: naccepts_def filter_remove1 remove1_idem)

lemma handle_call_closing:
  assumes inv: "sv_inv n s" and sh: "sv_shutting s" and t: "Sv_tag a k \<in> set (sv_cq s)" and k: "k \<noteq> SV_accept"
    and h: "sv_handle (Sv_tag a k, cp) s = Inr s'"
  shows "sv_cq s' = remove1 (Sv_tag a k) (sv_cq s) \<and> sv_log s' = sv_log s"
proof -
  note hp = sv_invD(1) [OF inv]
  from t have n: "0 < scnt s a k" by (simp add: scnt_def count_list_pos_iff)
  then obtain c where c: "sv_heap s a = Some c" using sheap_okD(6) [OF hp, of a k] by (cases "sv_heap s a") auto
  have nz: "sc_id c \<noteq> 0" using sheap_okD(4) [OF hp c] n k by (auto simp: slot_ok_def)
  from sheap_okD(5) [OF hp c nz] have "k = SV_write \<Longrightarrow> sc_write_queue c \<noteq> []"
    using n by (auto simp: stored_ok_def call_ok_def call_tags_def call_wf_def)
  with sv_handle_section [OF c k, of cp] h
  have s': "s' = refills k (maybe_free_locked a (call_section a k cp (sv_taken_off a k s, sv_popped c)))" by simp
  have "sv_touches a (sc_id c) (sv_taken_off a k s) (fst (call_section a k cp (sv_taken_off a k s, sv_popped c)))"
    using call_section_frame(1) [where a = a and k = k and cp = cp and c = "sv_popped c" and s = "sv_taken_off a k s"]
    by simp
  with sh show ?thesis
    by (auto simp: s' refills_def post_accepts_shutting sv_touches_def)
qed

lemma handle_accept_closing:
  assumes inv: "sv_inv n s" and sh: "sv_shutting s" and t: "Sv_tag a SV_accept \<in> set (sv_cq s)"
    and h: "sv_handle (Sv_tag a SV_accept, cp) s = Inr s'"
  shows "(sv_cq s' = remove1 (Sv_tag a SV_accept) (sv_cq s) \<or>
      sv_cq s' = remove1 (Sv_tag a SV_accept) (sv_cq s) @ [Sv_tag a SV_done]) \<and> sv_log s' = sv_log s"
proof -
  from accept_counts(2) [OF inv t] have "sv_heap s a = Some (sv_call_init\<lparr>sc_pending := 1\<rparr>)"
    by (auto simp: slot_ok_def)
  from run_accept_ok [OF this, of cp] h sh show ?thesis
    by (auto simp: accepted_state_def post_accepts_shutting split: if_splits)
qed

lemma handle_closing:
  assumes inv: "sv_inv n s" and sh: "sv_shutting s" and t: "fst tc \<in> set (sv_cq s)" and h: "sv_handle tc s = Inr s'"
  shows "closing_weight s' < closing_weight s" and "sdrained s s'"
proof -
  obtain a k cp where tc: "tc = (Sv_tag a k, cp)" by (metis prod.collapse sv_tag.collapse)
  with t have t': "Sv_tag a k \<in> set (sv_cq s)" by simp
  have len: "length (sv_cq s) = Suc (length (remove1 (Sv_tag a k) (sv_cq s)))"
    using t' by (simp add: length_remove1) (metis Suc_pred length_pos_if_in_set)
  have "closing_weight s' < closing_weight s \<and> sv_log s' = sv_log s"
  proof (cases "k = SV_accept")
    case True
    have acc: "naccepts s = Suc (length (filter (\<lambda>t. sv_tag_kind t = SV_accept) (remove1 (Sv_tag a k) (sv_cq s))))"
      using accept_counts(1) [OF inv] t' True by (simp add: naccepts_def)
    from handle_accept_closing [OF inv sh] t' h tc True have
      "(sv_cq s' = remove1 (Sv_tag a k) (sv_cq s) \<or> sv_cq s' = remove1 (Sv_tag a k) (sv_cq s) @ [Sv_tag a SV_done]) \<and>
       sv_log s' = sv_log s" by auto
    with len acc show ?thesis unfolding closing_weight_def by (auto simp: naccepts_def)
  next
    case False
    from handle_call_closing [OF inv sh t' False] h tc
    have q: "sv_cq s' = remove1 (Sv_tag a k) (sv_cq s)" "sv_log s' = sv_log s" by auto
    then have "naccepts s' = naccepts s" using naccepts_remove1 [OF t' False] by (simp add: naccepts_def)
    with len q show ?thesis by (simp add: closing_weight_def)
  qed
  with sv_handle_advances [OF h] show "closing_weight s' < closing_weight s" "sdrained s s'"
    by (auto simp: sdrained_def sv_advances_def)
qed

text \<open>
  So a completion thread that has been told to end handles a bounded number of completions, in
  whatever order and with whatever outcome the library returns them.
\<close>

lemma sv_run_closing:
  assumes "sv_good s" and "sv_shutting s" and "deliverable sv_enabled sv_handle tcs s"
  shows "\<exists>s'. rfold sv_handle tcs s = Inr s' \<and> sv_good s' \<and> sdrained s s' \<and>
    length tcs + closing_weight s' \<le> closing_weight s \<and>
    sv_run tcs s = (if sv_cq_shut s' \<and> sv_cq s' = [] then Some (Inr s') else None)"
  using assms
proof (induction tcs arbitrary: s)
  case Nil
  then show ?case by (simp add: sdrained_def)
next
  case (Cons tc tcs)
  then have en: "sv_enabled tc s" by simp
  then have t: "fst tc \<in> set (sv_cq s)" by (simp add: sv_enabled_def)
  from Cons.prems(1) obtain m where "sv_inv m s" by (auto simp: sv_good_def)
  then have inv: "sv_inv (unat (sv_next_id s) - 1) s" by (auto simp: sv_inv_def sids_ok_def)
  have "unat (sv_next_id s) - 1 + accepts_in tc < 2 ^ 64 - 1"
    using en inv by (auto simp: sv_enabled_def accepts_in_def sv_inv_def sids_ok_def)
  from sv_handle_inv [OF inv t this] obtain s1 where s1: "sv_handle tc s = Inr s1" "sv_good s1"
    by (auto simp: sv_good_def)
  note step = handle_closing [OF inv Cons.prems(2) t s1(1)]
  from step(2) Cons.prems(2) have sh: "sv_shutting s1" by (simp add: sdrained_def)
  from Cons.prems(3) s1(1) have "deliverable sv_enabled sv_handle tcs s1" by simp
  from Cons.IH [OF s1(2) sh this] obtain s' where s': "rfold sv_handle tcs s1 = Inr s'" "sv_good s'" "sdrained s1 s'"
    "length tcs + closing_weight s' \<le> closing_weight s1"
    "sv_run tcs s1 = (if sv_cq_shut s' \<and> sv_cq s' = [] then Some (Inr s') else None)" by blast
  with s1(1) t step sdrained_trans [OF step(2) s'(3)] show ?case by auto
qed

section \<open>What is left then\<close>

lemma sheap_empty:
  assumes hp: "sheap_ok s" and q: "sv_cq s = []"
  shows "sv_heap s = Map.empty" and "sv_active s = []"
proof -
  have z: "scnt s a k = 0" for a k by (simp add: scnt_def q)
  have none: "sv_heap s a = None" for a
  proof (cases "sv_heap s a")
    case (Some c)
    with sheap_okD(4,5) [OF hp Some] z [of a] show ?thesis
      by (cases "sc_id c = 0") (auto simp: slot_ok_def stored_ok_def call_ok_def call_tags_def)
  qed
  then show "sv_heap s = Map.empty" by auto
  have "m_find (sv_active s) i = None" for i
    using sheap_okD(2) [OF hp, of i] none by (cases "m_find (sv_active s) i") auto
  then show "sv_active s = []" by (rule m_find_empty)
qed

lemma rserver_shutdown_end_ok:
  assumes "sv_good s" and "sv_cq s = []"
  shows "rserver_shutdown_end s = Inr (s\<lparr>sv_active := [], sv_wake := fst (wake_close (sv_wake s))\<rparr>,
    [wh_r (sv_wake s), wh_w (sv_wake s)])"
proof -
  from assms have "sv_active s = []" using sheap_empty(2) by (auto simp: sv_good_def dest: sv_invD(1))
  with sv_good_wake [OF assms(1)] show ?thesis
    by (simp add: rserver_shutdown_end_def Let_def wake_close_def wake_ok_def)
qed

lemma closing_weight_begin [simp]: "closing_weight (rserver_shutdown_begin s) = closing_weight s"
  by (simp add: closing_weight_def naccepts_def shutdown_begin_frame)

text \<open>The whole of \<^verbatim>\<open>rserver_shutdown\<close>.\<close>

lemma rserver_shutdown_ok:
  assumes g: "sv_good s" and op: "\<not> sv_closed s" and d: "deliverable sv_enabled sv_handle tcs (rserver_shutdown_begin s)"
  shows "\<exists>s1. rfold sv_handle tcs (rserver_shutdown_begin s) = Inr s1 \<and> length tcs + closing_weight s1 \<le> closing_weight s \<and>
    (if sv_cq s1 \<noteq> [] then rserver_shutdown tcs s = None
     else \<exists>s'. rserver_shutdown tcs s = Some (Inr (s', [wh_r (sv_wake s), wh_w (sv_wake s)])) \<and> sv_closed s' \<and> sv_heap s' = Map.empty \<and> sv_active s' = [] \<and>
       sv_cq s' = [] \<and> sv_log s' = sv_log s \<and> wh_r (sv_wake s') = -1 \<and> wh_w (sv_wake s') = -1)"
proof -
  note f = shutdown_begin_frame [of s]
  have g': "sv_good (rserver_shutdown_begin s)" using g shutdown_begin_inv by (auto simp: sv_good_def)
  from sv_run_closing [OF g' f(13) d] obtain s1 where s1: "rfold sv_handle tcs (rserver_shutdown_begin s) = Inr s1"
    "sv_good s1" "sdrained (rserver_shutdown_begin s) s1"
    "length tcs + closing_weight s1 \<le> closing_weight (rserver_shutdown_begin s)"
    "sv_run tcs (rserver_shutdown_begin s) = (if sv_cq_shut s1 \<and> sv_cq s1 = [] then Some (Inr s1) else None)" by blast
  from s1(3) f have e: "sv_cq_shut s1" "sv_log s1 = sv_log s" "sv_closed s1"
    "wh_r (sv_wake s1) = wh_r (sv_wake s)" "wh_w (sv_wake s1) = wh_w (sv_wake s)" by (simp_all add: sdrained_def)
  show ?thesis
  proof (cases "sv_cq s1 = []")
    case True
    from s1(2) have "sv_heap s1 = Map.empty" using sheap_empty(1) [OF _ True] by (auto simp: sv_good_def dest: sv_invD(1))
    with True e s1(1,4,5) op rserver_shutdown_end_ok [OF s1(2) True] show ?thesis
      by (intro exI [of _ s1]) (simp add: rserver_shutdown_def wake_close_def)
  next
    case False
    with s1(1,4,5) op show ?thesis by (intro exI [of _ s1]) (simp add: rserver_shutdown_def)
  qed
qed

end
