(* ===== verification/Server_Correct.thy ===== *)
theory Server_Correct
  imports Server_Shutdown
begin

text \<open>
  The properties of the server in every reachable state of the system of \<^verbatim>\<open>Server_System\<close>, each
  with a concrete run to which it applies.
\<close>

section \<open>Concrete runs\<close>

text \<open>The steps of the system as functions; a step that is not possible changes nothing.\<close>

definition serve :: "sv_cmd \<Rightarrow> sv_world \<Rightarrow> sv_world" where
  "serve op w =
     (if cmd_ok op
      then case sv_exec op (Some (sw_server w)) of Inl e \<Rightarrow> w | Inr (v, s') \<Rightarrow>
        w\<lparr>sw_server := s', sw_sent := sw_sent w @ sv_accepted op v (sw_server w)\<rparr>
      else w)"

definition returned :: "sv_tag \<Rightarrow> sv_completion \<Rightarrow> sv_world \<Rightarrow> sv_world" where
  "returned t cp w =
     (if sv_enabled (t, cp) (sw_server w)
      then case sv_handle (t, cp) (sw_server w) of
             Inl e \<Rightarrow> w
           | Inr s' \<Rightarrow> w\<lparr>sw_server := s',
                         sw_queued := sw_queued w @ drop (length (sv_ready (sw_server w))) (sv_ready s'),
                         sw_reads := sw_reads w @ sv_filled (t, cp) (sw_server w)\<rparr>
      else w)"

lemma reach_serve:
  assumes "sv_reach w"
  shows "sv_reach (serve op w)"
proof (cases "cmd_ok op \<and> (\<exists>p. sv_exec op (Some (sw_server w)) = Inr p)")
  case True
  then obtain v s' where "cmd_ok op" "sv_exec op (Some (sw_server w)) = Inr (v, s')" by auto
  with reachable.step [OF assms sv_step.called [OF this]] show ?thesis by (simp add: serve_def)
next
  case False
  with assms show ?thesis by (auto simp: serve_def split: sum.split)
qed

lemma reach_returned:
  assumes "sv_reach w"
  shows "sv_reach (returned t cp w)"
proof (cases "sv_enabled (t, cp) (sw_server w) \<and> (\<exists>s'. sv_handle (t, cp) (sw_server w) = Inr s')")
  case True
  then obtain s' where "sv_enabled (t, cp) (sw_server w)" "sv_handle (t, cp) (sw_server w) = Inr s'" by auto
  with reachable.step [OF assms sv_step.completed [OF this]] show ?thesis by (simp add: returned_def)
next
  case False
  with assms show ?thesis by (auto simp: returned_def split: sum.split)
qed

definition served_opts :: "int \<Rightarrow> int \<Rightarrow> server_opts" where
  "served_opts window active = \<lparr>so_address = ''localhost:0'', so_accept_window = window, so_max_active = active,
     so_tls = False, so_ca = None, so_cert = None, so_key = None, so_require_client = False,
     so_keepalive_ms = None, so_keepalive_timeout_ms = None, so_min_ping_interval_ms = None\<rparr>"

definition started :: "int \<Rightarrow> int \<Rightarrow> sv_world" where
  "started window active =
     \<lparr>sw_server = post_accepts_locked
        \<lparr>sv_conf = \<lparr>sf_address = ''localhost:0'', sf_creds = Server_insecure, sf_args = []\<rparr>,
         sv_wake = \<lparr>wh_r = 3, wh_w = 4, wh_buffered = 0, wh_capacity = 64\<rparr>, sv_port = 50051,
         sv_accept_window = window, sv_max_active = active, sv_active = [], sv_ready = [],
         sv_accepts_outstanding = 0, sv_next_id = 1, sv_closed = False, sv_shutting = False,
         sv_heap = Map.empty, sv_next_addr = 0, sv_cq = [], sv_cq_shut = False, sv_log = []\<rparr>,
      sw_queued = [], sw_polls = [], sw_sent = [], sw_reads = []\<rparr>"

lemma reach_started:
  assumes "active < 2 ^ 31"
  shows "sv_reach (started window active)"
proof (rule reachable.init)
  have "grpc_r_server2_create (Some (3, 4, 64)) (Some 50051) (served_opts window active) =
      (Inr (sw_server (started window active)), [])"
    by (simp add: grpc_r_server2_create_def started_def served_opts_def wake_open_def wake_handle_init_def
        server_channel_args_def)
  moreover have "(3::int) \<ge> 0 \<and> (4::int) \<ge> 0 \<and> (0::nat) < 64 \<and> so_max_active (served_opts window active) < 2 ^ 31"
    using assms by (simp add: served_opts_def)
  ultimately have "\<exists>r wr cap port o'. r \<ge> 0 \<and> wr \<ge> 0 \<and> 0 < cap \<and> so_max_active o' < 2 ^ 31 \<and>
      grpc_r_server2_create (Some (r, wr, cap)) (Some port) o' = (Inr (sw_server (started window active)), [])" by blast
  then show "sv_created (started window active)" by (simp add: sv_created_def) (simp add: started_def)
qed

definition arrived :: "bool \<Rightarrow> string \<Rightarrow> sv_completion" where
  "arrived ok bytes = \<lparr>sp_ok = ok, sp_dump = Some [bytes], sp_method = ''/s/m'', sp_metadata = [],
     sp_left_ms = 100, sp_peer = ''ipv4:10.0.0.1:5'', sp_identity = None\<rparr>"

lemmas served_defs = started_def serve_def returned_def arrived_def sv_accepted_def
  sv_exec_def cmd_ok_def sv_enabled_def grpc_r_server2_reply_def grpc_r_server2_read_def
  grpc_r_server2_cancel_def grpc_r_server2_send_def grpc_r_server2_finish_def get_server_def
  with_call_def sv_handle_def sv_next_def sv_dispatch_def run_accept_def run_svread_def
  run_svwrite_def run_svdone_def run_svfinish_def post_accepts_locked.simps accepts_wanted_def
  post_accept_def pump_locked_def maybe_free_locked_def push_event_locked_def sv_signal_def sv_post_def
  sv_store_def sv_call_init_def int_of_size_small plain_event_def sv_event_init_def
  m_insert_def m_find_def m_erase_def m_size_def u64_of_double_def is_raw_def raw_bytes_def add_trailing_md_def

text \<open>One call has arrived: its request is queued, the next accept is posted.\<close>

definition requested :: sv_world where
  "requested = returned (Sv_tag 0 SV_read) (arrived True ''q'') (returned (Sv_tag 0 SV_accept) (arrived True []) (started 1 2))"

text \<open>R has sent two messages on it; the first is being written.\<close>

definition streaming :: sv_world where
  "streaming = serve (Sv_send 1 ''b'') (serve (Sv_send 1 ''a'') requested)"

lemma reach_requested: "sv_reach requested"
  unfolding requested_def by (intro reach_returned reach_started) simp

lemma reach_streaming: "sv_reach streaming"
  unfolding streaming_def by (intro reach_serve reach_requested)

lemma requested_state:
  "sv_cq (sw_server requested) = [Sv_tag 0 SV_done, Sv_tag 1 SV_accept]" "\<not> sv_closed (sw_server requested)"
  "\<not> sv_shutting (sw_server requested)" "m_find (sv_active (sw_server requested)) 1 = Some 0"
  "unat (sv_next_id (sw_server requested)) = 2"
  by (simp_all add: requested_def served_defs Let_def)

lemma requested_call:
  "\<exists>c. sv_heap (sw_server requested) 0 = Some c \<and> sc_delivered c \<and> \<not> sc_replied c \<and> \<not> sc_dead c \<and>
     sc_write_queue c = [] \<and> sx_trailing_md (sc_ctx c) = []"
  by (simp add: requested_def served_defs Let_def)

lemma streaming_state:
  "sv_cq (sw_server streaming) = [Sv_tag 0 SV_done, Sv_tag 1 SV_accept, Sv_tag 0 SV_write]"
  "\<not> sv_closed (sw_server streaming)" "m_find (sv_active (sw_server streaming)) 1 = Some 0"
  by (simp_all add: streaming_def requested_def served_defs Let_def)

lemma streaming_call:
  "\<exists>c. sv_heap (sw_server streaming) 0 = Some c \<and> sc_id c = 1 \<and> sc_delivered c \<and> \<not> sc_replied c \<and> \<not> sc_dead c \<and>
     sc_write_queue c = [''a'', ''b''] \<and> sc_write_inflight c"
  by (simp add: streaming_def requested_def served_defs Let_def)

section \<open>Memory safety under every interleaving\<close>

lemma reach_sinv:
  assumes "sv_reach w"
  shows "sv_good (sw_server w)" and "sarmed (sw_server w)"
    and "shist_ok (sw_queued w) (sw_taken w) (sw_server w)"
  using svw.reachable_inv [OF assms] by (simp_all add: sworld_ok_def)

lemma reach_sinv_ex:
  assumes "sv_reach w"
  obtains n where "sv_inv n (sw_server w)"
  using reach_sinv(1) [OF assms] by (auto simp: sv_good_def)

lemma sv_poll_returns:
  assumes g: "sv_good s" and hist: "shist_ok h d s" and op: "\<not> sv_closed s"
    and t: "turns_ok sv_enabled sv_drain sv_handle turns s"
    and ret: "sv_wait timeout (map_option u64_of_double only_id) turns s \<noteq> None"
  shows "\<exists>batch s'. server_poll (Some s) maxn timeout only_id turns = Some (Inr (batch, s')) \<and> sarmed s'"
proof -
  let ?w = "map_option u64_of_double only_id"
  from sv_wait_ok [OF g hist t, of timeout ?w] ret obtain s1
    where s1: "sv_wait timeout ?w turns s = Some (Inr s1)" "sv_good s1" by auto
  from sv_poll_good [OF s1(2), of ?w maxn] s1(1) op show ?thesis
    by (auto simp: server_poll_eq)
qed

text \<open>
  C2: Whatever R, the clients and the library have done so far, no next section of the server
  dereferences a deleted object, pops an empty deque or reads past the end of a vector: every
  outstanding completion is handled whatever its outcome, every entry point of an open server
  called with the arguments that the R functions let through returns TRUE or FALSE, one of a
  closed server raises exactly the documented error, and a poll ends well or goes on waiting.
\<close>

theorem server_never_faults:
  assumes "sv_reach w" and "s = sw_server w"
  shows "(\<forall>tc. sv_enabled tc s \<longrightarrow> (\<exists>s'. sv_handle tc s = Inr s')) \<and>
    (\<forall>op. sv_closed s \<longrightarrow> sv_exec op (Some s) = Inl (Rf_error ''grpc server is closed'')) \<and>
    (\<forall>op. \<not> sv_closed s \<and> cmd_ok op \<longrightarrow> (\<exists>b s'. sv_exec op (Some s) = Inr (R_Logical b, s'))) \<and>
    (\<forall>maxn timeout only_id turns. \<not> sv_closed s \<and> turns_ok sv_enabled sv_drain sv_handle turns s \<longrightarrow>
       server_poll (Some s) maxn timeout only_id turns = None \<or>
       (\<exists>batch s'. server_poll (Some s) maxn timeout only_id turns = Some (Inr (batch, s'))))"
proof (intro conjI allI impI)
  note inv = reach_sinv [OF assms(1), folded assms(2)]
  from reach_sinv_ex [OF assms(1)] obtain n where n: "sv_inv n s" by (auto simp: assms(2))
  show "\<exists>s'. sv_handle tc s = Inr s'" if "sv_enabled tc s" for tc
    using sv_handle_good [OF inv(1,3) that] by blast
  show "sv_exec op (Some s) = Inl (Rf_error ''grpc server is closed'')" if "sv_closed s" for op
    using that by (cases op) (simp_all add: sv_exec_def grpc_r_server2_reply_def grpc_r_server2_read_def
        grpc_r_server2_cancel_def grpc_r_server2_send_def grpc_r_server2_finish_def get_server_def)
  show "\<exists>b s'. sv_exec op (Some s) = Inr (R_Logical b, s')" if "\<not> sv_closed s \<and> cmd_ok op" for op
    using sv_exec_ok [OF n, of op] that by blast
  fix maxn timeout only_id turns
  assume op: "\<not> sv_closed s \<and> turns_ok sv_enabled sv_drain sv_handle turns s"
  show "server_poll (Some s) maxn timeout only_id turns = None \<or>
       (\<exists>batch s'. server_poll (Some s) maxn timeout only_id turns = Some (Inr (batch, s')))"
  proof (cases "sv_wait timeout (map_option u64_of_double only_id) turns s")
    case None
    with op show ?thesis by (simp add: server_poll_eq)
  next
    case (Some r)
    with sv_poll_returns [OF inv(1,3), of turns timeout only_id maxn] op show ?thesis by blast
  qed
qed

theorem server_never_faults_witness:
  "\<exists>s'. sv_handle (Sv_tag 0 SV_write, arrived False []) (sw_server streaming) = Inr s'"
proof -
  have "sv_enabled (Sv_tag 0 SV_write, arrived False []) (sw_server streaming)"
    by (simp add: streaming_def requested_def served_defs Let_def)
  with conjunct1 [OF server_never_faults [OF reach_streaming refl]] show ?thesis by blast
qed

section \<open>Operations on the library\<close>

lemma server_object_tags:
  assumes inv: "sv_inv n s"
  shows "scnt s a k \<le> 1" and "0 < scnt s a SV_accept \<Longrightarrow> 0 < scnt s a k \<Longrightarrow> k = SV_accept"
    and "\<not> (0 < scnt s a SV_write \<and> 0 < scnt s a SV_finish)"
proof -
  note hp = sv_invD(1) [OF inv]
  consider (slot) c where "sv_heap s a = Some c" "sc_id c = 0" | (call) c where "sv_heap s a = Some c" "sc_id c \<noteq> 0"
    | (free) "sv_heap s a = None" by (metis not_None_eq)
  then have "(\<forall>k. scnt s a k \<le> 1) \<and> (\<forall>k. 0 < scnt s a SV_accept \<longrightarrow> 0 < scnt s a k \<longrightarrow> k = SV_accept) \<and>
    \<not> (0 < scnt s a SV_write \<and> 0 < scnt s a SV_finish)"
  proof cases
    case slot
    with sheap_okD(4) [OF hp slot] show ?thesis by (auto simp: slot_ok_def)
  next
    case (call c)
    with sheap_okD(5) [OF hp call] have "call_wf c" "call_tags (scnt s a) c" by (simp_all add: stored_ok_def call_ok_def)
    moreover have "scnt s a k \<le> 1" for k using calculation by (cases k) (auto simp: call_tags_def of_bool_def split: if_splits)
    ultimately show ?thesis by (auto simp: call_tags_def call_wf_def)
  next
    case free
    then show ?thesis by (simp add: sheap_okD(6) [OF hp])
  qed
  then show "scnt s a k \<le> 1" and "0 < scnt s a SV_accept \<Longrightarrow> 0 < scnt s a k \<Longrightarrow> k = SV_accept"
    and "\<not> (0 < scnt s a SV_write \<and> 0 < scnt s a SV_finish)" by blast+
qed

text \<open>
  C4: The rules of the asynchronous API are kept: at most one operation of each kind is outstanding
  per call, nothing is outstanding on an object that still waits to be accepted, a Write and a
  terminal operation are never outstanding together, every outstanding tag belongs to an object
  that is still allocated, every allocated object has a tag outstanding (so none is leaked), and
  no operation was ever started after the completion queue had been shut down.
\<close>

theorem server_operation_discipline:
  assumes "sv_reach w" and "s = sw_server w"
  shows "(\<forall>a k. count_list (sv_cq s) (Sv_tag a k) \<le> 1) \<and>
    (\<forall>a k. Sv_tag a SV_accept \<in> set (sv_cq s) \<and> Sv_tag a k \<in> set (sv_cq s) \<longrightarrow> k = SV_accept) \<and>
    (\<forall>a. \<not> (Sv_tag a SV_write \<in> set (sv_cq s) \<and> Sv_tag a SV_finish \<in> set (sv_cq s))) \<and>
    (\<forall>a. sv_heap s a \<noteq> None \<longleftrightarrow> (\<exists>k. Sv_tag a k \<in> set (sv_cq s))) \<and>
    (\<forall>(a, op, shut) \<in> set (sv_log s). \<not> shut)"
proof (intro conjI allI impI)
  from reach_sinv_ex [OF assms(1)] obtain n where inv: "sv_inv n s" by (auto simp: assms(2))
  note tags = server_object_tags [OF inv] and hp = sv_invD(1) [OF inv]
  have mem: "Sv_tag a k \<in> set (sv_cq s) \<longleftrightarrow> 0 < scnt s a k" for a k by (simp add: scnt_def count_list_pos_iff)
  show "count_list (sv_cq s) (Sv_tag a k) \<le> 1" for a k using tags(1) by (simp add: scnt_def)
  show "k = SV_accept" if "Sv_tag a SV_accept \<in> set (sv_cq s) \<and> Sv_tag a k \<in> set (sv_cq s)" for a k
    using tags(2) that unfolding mem by blast
  show "\<not> (Sv_tag a SV_write \<in> set (sv_cq s) \<and> Sv_tag a SV_finish \<in> set (sv_cq s))" for a
    using tags(3) by (simp add: mem)
  show "sv_heap s a \<noteq> None \<longleftrightarrow> (\<exists>k. Sv_tag a k \<in> set (sv_cq s))" for a
  proof
    assume "\<exists>k. Sv_tag a k \<in> set (sv_cq s)"
    then obtain k where "0 < scnt s a k" by (auto simp: mem)
    with sheap_okD(6) [OF hp, of a k] show "sv_heap s a \<noteq> None" by auto
  next
    assume "sv_heap s a \<noteq> None"
    then obtain c where c: "sv_heap s a = Some c" by blast
    have "\<exists>k. 0 < scnt s a k"
    proof (rule ccontr)
      assume "\<nexists>k. 0 < scnt s a k"
      then have "scnt s a k = 0" for k by simp
      with sheap_okD(4,5) [OF hp c] show False
        by (cases "sc_id c = 0") (auto simp: slot_ok_def stored_ok_def call_ok_def call_tags_def)
    qed
    then show "\<exists>k. Sv_tag a k \<in> set (sv_cq s)" by (simp add: mem)
  qed
  show "\<forall>(a, op, shut) \<in> set (sv_log s). \<not> shut"
    using sv_invD(4) [OF inv] by (force simp: slog_ok_def slog_flags_def)
qed

theorem server_operation_discipline_witness:
  "count_list (sv_cq (sw_server streaming)) (Sv_tag 0 SV_write) = 1 \<and>
   count_list (sv_cq (sw_server streaming)) (Sv_tag 0 SV_write) \<le> 1"
  using conjunct1 [OF server_operation_discipline [OF reach_streaming refl]] by (simp add: streaming_state)

section \<open>Limits\<close>

text \<open>
  C18: The limits R set when it created the server hold at every moment: at most \<open>accept_window\<close>
  accepts are outstanding, calls and accept slots together never exceed \<open>max_active\<close>, the counter
  agrees with the accept tags that the library holds, no call queues more than 16 messages, and
  a call that has not reached R yet has queued none and cannot have been answered.
\<close>

theorem server_limits:
  assumes "sv_reach w" and "s = sw_server w"
  shows "sv_accepts_outstanding s = int (length (filter (\<lambda>t. sv_tag_kind t = SV_accept) (sv_cq s))) \<and>
    sv_accepts_outstanding s \<le> max 0 (sv_accept_window s) \<and>
    int (m_size (sv_active s)) + sv_accepts_outstanding s \<le> max 0 (sv_max_active s) \<and>
    (\<forall>i a. m_find (sv_active s) i = Some a \<longrightarrow> (\<exists>c. sv_heap s a = Some c \<and> sc_id c = i \<and>
       length (sc_write_queue c) \<le> 16 \<and> (\<not> sc_delivered c \<longrightarrow> sc_write_queue c = [] \<and> \<not> sc_replied c)))"
proof -
  from reach_sinv_ex [OF assms(1)] obtain n where inv: "sv_inv n s" by (auto simp: assms(2))
  note hp = sv_invD(1) [OF inv]
  have "\<exists>c. sv_heap s a = Some c \<and> sc_id c = i \<and> length (sc_write_queue c) \<le> 16 \<and>
      (\<not> sc_delivered c \<longrightarrow> sc_write_queue c = [] \<and> \<not> sc_replied c)" if i: "m_find (sv_active s) i = Some a" for i a
  proof -
    from i sheap_okD(2) [OF hp, of i a] obtain c where c: "sv_heap s a = Some c" "sc_id c = i" "sc_id c \<noteq> 0" by auto
    with sheap_okD(5) [OF hp c(1)] show ?thesis by (auto simp: stored_ok_def call_ok_def call_wf_def)
  qed
  with sv_invD(2) [OF inv] show ?thesis by (simp add: slimits_ok_def naccepts_def)
qed

theorem server_limits_witness:
  "int (m_size (sv_active (sw_server streaming))) + sv_accepts_outstanding (sw_server streaming) = 2 \<and>
   int (m_size (sv_active (sw_server streaming))) + sv_accepts_outstanding (sw_server streaming) \<le> max 0 2"
proof -
  have "sv_max_active (sw_server streaming) = 2"
    "int (m_size (sv_active (sw_server streaming))) + sv_accepts_outstanding (sw_server streaming) = 2"
    by (simp_all add: streaming_def requested_def served_defs Let_def)
  with server_limits [OF reach_streaming refl] show ?thesis by simp
qed

section \<open>Events\<close>

lemma mset_of_call_ids:
  fixes xs :: "sv_event list"
  assumes "\<And>i. filter (\<lambda>e. se_id e = i) xs = filter (\<lambda>e. se_id e = i) ys @ filter (\<lambda>e. se_id e = i) zs"
  shows "mset xs = mset ys + mset zs"
proof (rule multiset_eqI)
  fix e :: sv_event
  have "count (mset us) e = count (mset (filter (\<lambda>x. se_id x = se_id e) us)) e" for us by simp
  then show "count (mset xs) e = count (mset ys + mset zs) e" by (metis assms count_union mset_append)
qed

text \<open>The conversion of a batch: every event in order, or the first one that R refuses.\<close>

lemma sv_event_refused:
  "sv_event_to_r mk e = Inl err \<Longrightarrow> se_type e \<le> 4 \<Longrightarrow> se_type e = 0 \<and> md_refused mk (se_metadata e) err"
  by (auto simp: sv_event_to_r_def type_names_def rbind_Inl_iff dest!: grpc_pairs_to_r_refused split: if_splits)

lemma sv_events_converted:
  "sv_events_to_r mk b = Inr es \<Longrightarrow> list_all2 (\<lambda>e x. sv_event_to_r mk e = Inr x) b es"
  "sv_events_to_r mk b = Inl err \<Longrightarrow> \<exists>e \<in> set b. sv_event_to_r mk e = Inl err"
  by (induction b arbitrary: es) (auto simp: rbind_Inr_iff rbind_Inl_iff)

lemma sv_polls_results: "sv_reach w \<Longrightarrow> (b, r) \<in> set (sw_polls w) \<Longrightarrow> \<exists>mk. r = sv_poll_result mk b"
proof (induction rule: reachable.induct)
  case (init w)
  then show ?case by (simp add: sv_created_def)
next
  case (step w w')
  then show ?case by (auto elim!: sv_step.cases)
qed

lemma taken_types:
  assumes hist: "shist_ok h d s" and e: "e \<in> set d"
  shows "se_type e \<le> 4"
proof -
  have "e \<in> set (filter (\<lambda>x. se_id x = se_id e) h)" using e by (simp add: shist_okD(1) [OF hist])
  then have "se_type e \<in> set (types_of (se_id e) h)" by (simp add: types_of_def)
  with shist_okD(3) [OF hist, of "se_id e"] show ?thesis by (auto simp: protocol_ok_def)
qed

lemma sv_poll_explained:
  assumes "\<And>e. e \<in> set b \<Longrightarrow> se_type e \<le> 4"
  shows "(\<exists>es. sv_poll_result mk b = Inr (R_List es None) \<and> list_all2 (\<lambda>e x. sv_event_to_r mk e = Inr x) b es) \<or>
    (\<exists>err. sv_poll_result mk b = Inl err \<and> (\<exists>e \<in> set b. se_type e = 0 \<and> md_refused mk (se_metadata e) err))"
proof (cases "sv_events_to_r mk b")
  case (Inl err)
  with sv_events_converted(2) [OF this] assms show ?thesis
    unfolding sv_poll_result_def by (fastforce dest: sv_event_refused)
next
  case (Inr es)
  with sv_events_converted(1) [OF this] show ?thesis by (simp add: sv_poll_result_def)
qed

text \<open>
  C6: No event is lost on the way to a poll, none is taken twice, and the order of a call's events
  is kept whatever filters R uses: per call, the events taken by R's polls so far followed by the
  events in the deque are the events ever queued.  Of the events taken, those of a poll that returned
  to R are in the list it returned, one element each and in order; the others were in the batch of a
  poll that raised an R error, which happens only when R refuses a string in the metadata of a
  request of that batch.  The events of one call follow the protocol: the request comes first and
  once, a cancellation comes last and at most once.
\<close>

theorem server_delivery:
  assumes "sv_reach w" and "s = sw_server w"
  shows "(\<forall>i. filter (\<lambda>e. se_id e = i) (sw_queued w) =
       filter (\<lambda>e. se_id e = i) (sw_taken w) @ filter (\<lambda>e. se_id e = i) (sv_ready s)) \<and>
    mset (sw_queued w) = mset (sw_received w) + mset (sw_lost w) + mset (sv_ready s) \<and>
    subseq (sw_received w) (sw_taken w) \<and>
    (\<forall>(b, r) \<in> set (sw_polls w). \<exists>mk.
       (\<exists>es. r = Inr (R_List es None) \<and> list_all2 (\<lambda>e x. sv_event_to_r mk e = Inr x) b es) \<or>
       (\<exists>err. r = Inl err \<and> (\<exists>e \<in> set b. se_type e = 0 \<and> md_refused mk (se_metadata e) err))) \<and>
    (\<forall>i. types_of i (sw_queued w) = [] \<or>
       hd (types_of i (sw_queued w)) = 0 \<and> 0 \<notin> set (tl (types_of i (sw_queued w))) \<and>
       1 \<notin> set (butlast (types_of i (sw_queued w))))"
proof (intro conjI allI ballI)
  note hist = reach_sinv(3) [OF assms(1), folded assms(2)]
  show "filter (\<lambda>e. se_id e = i) (sw_queued w) =
       filter (\<lambda>e. se_id e = i) (sw_taken w) @ filter (\<lambda>e. se_id e = i) (sv_ready s)" for i
    by (rule shist_okD(1) [OF hist])
  have "mset (sw_queued w) = mset (sw_taken w) + mset (sv_ready s)"
    by (rule mset_of_call_ids) (rule shist_okD(1) [OF hist])
  then show "mset (sw_queued w) = mset (sw_received w) + mset (sw_lost w) + mset (sv_ready s)"
    by (simp add: sw_taken_def sw_received_def sw_lost_def mset_batches)
  show "subseq (sw_received w) (sw_taken w)" by (simp add: sw_taken_def sw_received_def subseq_returned)
  show "case p of (b, r) \<Rightarrow> \<exists>mk.
       (\<exists>es. r = Inr (R_List es None) \<and> list_all2 (\<lambda>e x. sv_event_to_r mk e = Inr x) b es) \<or>
       (\<exists>err. r = Inl err \<and> (\<exists>e \<in> set b. se_type e = 0 \<and> md_refused mk (se_metadata e) err))"
    if p: "p \<in> set (sw_polls w)" for p
  proof -
    from sv_polls_results [OF assms(1), of "fst p" "snd p"] p obtain mk where mk: "snd p = sv_poll_result mk (fst p)" by auto
    have "set (fst p) \<subseteq> set (sw_taken w)" using p by (auto simp: sw_taken_def batches_def)
    with sv_poll_explained [of "fst p" mk] taken_types [OF hist] mk show ?thesis by (fastforce simp: split_beta)
  qed
  show "types_of i (sw_queued w) = [] \<or>
       hd (types_of i (sw_queued w)) = 0 \<and> 0 \<notin> set (tl (types_of i (sw_queued w))) \<and>
       1 \<notin> set (butlast (types_of i (sw_queued w)))" for i
    using shist_okD(3) [OF hist, of i] by (auto simp: protocol_ok_def)
qed

text \<open>The write completes, then the client goes away.\<close>

definition abandoned :: sv_world where
  "abandoned = returned (Sv_tag 0 SV_done) (arrived True []) streaming"

lemma reach_abandoned: "sv_reach abandoned"
  unfolding abandoned_def by (intro reach_returned reach_streaming)

lemma abandoned_state:
  "types_of 1 (sw_queued abandoned) = [0, 1]" "m_find (sv_active (sw_server abandoned)) 1 = Some 0"
  "Sv_tag 0 SV_done \<notin> set (sv_cq (sw_server abandoned))"
  by (simp_all add: abandoned_def streaming_def requested_def served_defs Let_def types_of_def request_event_def)

theorem server_delivery_witness:
  "types_of 1 (sw_queued abandoned) = [0, 1] \<and> 1 \<notin> set (butlast (types_of 1 (sw_queued abandoned)))"
proof -
  from server_delivery [OF reach_abandoned refl] have
    "types_of 1 (sw_queued abandoned) = [] \<or> 1 \<notin> set (butlast (types_of 1 (sw_queued abandoned)))" by blast
  with abandoned_state(1) show ?thesis by auto
qed

text \<open>
  C16: An answer that was accepted is being sent: while a call has queued messages or a requested
  status that is not posted yet, a write of it is outstanding, so the next completion goes on with
  it.  The exceptions are a call the client has left and a server that is closing.
\<close>

theorem server_answer_progresses:
  assumes "sv_reach w" and "s = sw_server w" and "m_find (sv_active s) i = Some a" and "sv_heap s a = Some c"
    and "sc_replied c \<or> sc_write_queue c \<noteq> []" and "\<not> sc_dead c" and "\<not> sv_shutting s" and "\<not> sc_finish_posted c"
  shows "Sv_tag a SV_write \<in> set (sv_cq s) \<and>
    (\<forall>cp. sp_ok cp \<longrightarrow> (\<exists>s'. sv_handle (Sv_tag a SV_write, cp) s = Inr s' \<and>
       (sc_replied c \<or> tl (sc_write_queue c) \<noteq> [] \<longrightarrow> sv_log s' = sv_log s @
         [(a, (if tl (sc_write_queue c) \<noteq> [] then SOp_Write (hd (tl (sc_write_queue c)))
               else if sc_has_final_write c
               then SOp_WriteAndFinish (sc_final_write c) (sc_final_status c) (sx_trailing_md (sc_ctx c))
               else SOp_Finish (sc_final_status c) (sx_trailing_md (sc_ctx c))), False)])))"
proof -
  from reach_sinv_ex [OF assms(1)] obtain n where inv: "sv_inv n s" by (auto simp: assms(2))
  note hp = sv_invD(1) [OF inv]
  from sheap_okD(2) [OF hp, of i a] assms(3,4) have i: "sc_id c \<noteq> 0" by auto
  from sheap_okD(5) [OF hp assms(4) i] have ok: "call_wf c" "call_tags (scnt s a) c" "call_live (sv_shutting s) c"
    by (simp_all add: stored_ok_def call_ok_def)
  with assms(5-8) have wi: "sc_write_inflight c" by (auto simp: call_live_def)
  with ok have t: "Sv_tag a SV_write \<in> set (sv_cq s)" and q: "sc_write_queue c \<noteq> []"
    by (auto simp: call_tags_def call_wf_def scnt_def count_list_0_iff split: if_splits)
  from sv_invD(4) [OF inv] assms(7) have ns: "\<not> sv_cq_shut s" by (auto simp: slog_ok_def)
  have "\<exists>s'. sv_handle (Sv_tag a SV_write, cp) s = Inr s' \<and>
       (sc_replied c \<or> tl (sc_write_queue c) \<noteq> [] \<longrightarrow> sv_log s' = sv_log s @
         [(a, (if tl (sc_write_queue c) \<noteq> [] then SOp_Write (hd (tl (sc_write_queue c)))
               else if sc_has_final_write c
               then SOp_WriteAndFinish (sc_final_write c) (sc_final_status c) (sx_trailing_md (sc_ctx c))
               else SOp_Finish (sc_final_status c) (sx_trailing_md (sc_ctx c))), False)])" if "sp_ok cp" for cp
    using sv_handle_section [OF assms(4), of SV_write cp] q that assms(6-8) ns
    by (auto simp: call_section_def write_section_def Let_def refills_def pump_locked_def sv_post_def
        push_event_locked_def sv_signal_def)
  with t show ?thesis by blast
qed

theorem server_answer_progresses_witness:
  "\<exists>s'. sv_handle (Sv_tag 0 SV_write, arrived True []) (sw_server streaming) = Inr s' \<and>
     sv_log s' = sv_log (sw_server streaming) @ [(0, SOp_Write ''b'', False)]"
proof -
  from streaming_call obtain c where c: "sv_heap (sw_server streaming) 0 = Some c" "\<not> sc_dead c"
    "sc_write_queue c = [''a'', ''b'']" by blast
  have "\<not> sv_shutting (sw_server streaming)" "\<not> sc_finish_posted c"
    using c(1) by (auto simp: streaming_def requested_def served_defs Let_def)
  moreover have "sc_replied c \<or> sc_write_queue c \<noteq> []" "sp_ok (arrived True [])" using c by (simp_all add: arrived_def)
  ultimately show ?thesis
    using server_answer_progresses [OF reach_streaming refl streaming_state(3) c(1)] c by auto
qed

end
