(* ===== verification/Server_Calls.thy ===== *)
theory Server_Calls
  imports Server_Correct
begin

text \<open>
  What the entry points of the server do on each branch, polling and closing, and two behaviours
  of the completion thread that its callers do not expect: a server that stops accepting, and a
  request that is queued for a call that is already over.
\<close>

section \<open>Answering\<close>

definition cmd_id :: "sv_cmd \<Rightarrow> u64" where
  "cmd_id op = u64_of_double (case op of Sv_reply cid _ _ _ _ \<Rightarrow> cid | Sv_read cid \<Rightarrow> cid | Sv_cancel cid \<Rightarrow> cid
     | Sv_send cid _ \<Rightarrow> cid | Sv_finish cid _ _ _ _ \<Rightarrow> cid)"

definition answers :: "sv_cmd \<Rightarrow> bool" where
  "answers op \<longleftrightarrow> (case op of Sv_read _ \<Rightarrow> False | Sv_cancel _ \<Rightarrow> False | _ \<Rightarrow> True)"

lemmas exec_defs = sv_exec_def grpc_r_server2_reply_def grpc_r_server2_read_def grpc_r_server2_cancel_def
  grpc_r_server2_send_def grpc_r_server2_finish_def get_server_def with_call_def cmd_id_def cmd_ok_def

lemma cmd_ok_message: "message_ok m \<Longrightarrow> is_string m"
  by (auto simp: message_ok_def is_string_def)

lemma exec_refused:
  assumes "\<not> sv_closed s" and "cmd_ok op"
    and "m_find (sv_active s) (cmd_id op) = None \<or>
      (\<exists>a c. m_find (sv_active s) (cmd_id op) = Some a \<and> sv_heap s a = Some c \<and> (sc_dead c \<or> sc_replied c \<and> answers op))"
  shows "sv_exec op (Some s) = Inr (R_Logical False, s)"
  using assms by (cases op) (auto simp: exec_defs cmd_ok_message answers_def split: if_splits)

text \<open>
  C29: An id that R must not use any more is refused without effect: every entry point called on a
  call that is unknown, already deleted or dead returns FALSE and leaves the server unchanged, and
  so do the answering ones (reply, send, finish) on a call that has been answered.
\<close>

theorem server_stale_call_refused:
  assumes "\<not> sv_closed s" and "cmd_ok op"
    and "m_find (sv_active s) (cmd_id op) = None \<or>
      (\<exists>a c. m_find (sv_active s) (cmd_id op) = Some a \<and> sv_heap s a = Some c \<and> (sc_dead c \<or> sc_replied c \<and> answers op))"
  shows "sv_exec op (Some s) = Inr (R_Logical False, s)"
  using assms by (rule exec_refused)

theorem server_stale_call_refused_witness:
  "sv_exec (Sv_reply 7 (R_Raw ''r'') 0 R_NilValue None) (Some (sw_server requested)) = Inr (R_Logical False, sw_server requested)"
proof -
  have "cmd_ok (Sv_reply 7 (R_Raw ''r'') 0 R_NilValue None)" by (simp add: cmd_ok_def is_raw_def)
  moreover have "m_find (sv_active (sw_server requested)) (cmd_id (Sv_reply 7 (R_Raw ''r'') 0 R_NilValue None)) = None"
    by (simp add: cmd_id_def requested_def served_defs Let_def)
  ultimately show ?thesis using server_stale_call_refused [OF requested_state(2)] by blast
qed

lemma add_trailing_md_eq:
  "sx_trailing_md (add_trailing_md md ctx) = sx_trailing_md ctx @ (case md of None \<Rightarrow> [] | Some m \<Rightarrow> m)"
proof -
  have "sx_trailing_md (foldl (\<lambda>ctx kv. ctx\<lparr>sx_trailing_md := sx_trailing_md ctx @ [kv]\<rparr>) ctx m) = sx_trailing_md ctx @ m" for m
    by (induction m arbitrary: ctx) simp_all
  then show ?thesis by (simp add: add_trailing_md_def split: option.split)
qed

text \<open>An open call that R was given and has not answered.\<close>

lemma open_call:
  assumes "sv_reach w" and "s = sw_server w" and "\<not> sv_closed s" and "m_find (sv_active s) i = Some a"
    and "sv_heap s a = Some c" and "\<not> sc_replied c" and "\<not> sc_dead c"
  shows "\<not> sv_shutting s" and "\<not> sv_cq_shut s" and "\<not> sc_finish_posted c"
    and "sc_write_inflight c \<longleftrightarrow> sc_write_queue c \<noteq> []"
proof -
  from reach_sinv_ex [OF assms(1)] obtain n where inv: "sv_inv n s" by (auto simp: assms(2))
  note hp = sv_invD(1) [OF inv]
  from sheap_okD(2) [OF hp, of i a] assms(4,5) have "sc_id c \<noteq> 0" by auto
  from sheap_okD(5) [OF hp assms(5) this] have ok: "call_wf c" "call_live (sv_shutting s) c"
    by (simp_all add: stored_ok_def call_ok_def)
  from sv_invD(4) [OF inv] assms(3) show sh: "\<not> sv_shutting s" "\<not> sv_cq_shut s" by (auto simp: slog_ok_def)
  from ok assms(6) show fp: "\<not> sc_finish_posted c" by (auto simp: call_wf_def)
  show "sc_write_inflight c \<longleftrightarrow> sc_write_queue c \<noteq> []"
    using ok assms(7) sh fp by (auto simp: call_wf_def call_live_def)
qed



text \<open>
  C28: Finishing a call ends it with the requested status and no further message of its own.  With
  \<open>drain\<close> the queued messages stay queued in front of the status; without it they are discarded,
  all but the one that is already being written, which cannot be recalled.  If nothing is being
  written the status is posted at once with the trailing metadata.
\<close>

theorem server_finish_drains_or_discards:
  assumes "sv_reach w" and "s = sw_server w" and "\<not> sv_closed s" and "m_find (sv_active s) (u64_of_double cid) = Some a"
    and "sv_heap s a = Some c" and "sc_delivered c" and "\<not> sc_replied c" and "\<not> sc_dead c"
    and "if code = 0 then text = [] else message = R_String (text # rest) nms"
    and "md' = sx_trailing_md (sc_ctx c) @ (case md of None \<Rightarrow> [] | Some m \<Rightarrow> m)"
  shows "\<exists>s' c'. grpc_r_server2_finish (Some s) cid code message md drain = Inr (R_Logical True, s') \<and>
    sv_heap s' a = Some c' \<and> sc_replied c' \<and> \<not> sc_has_final_write c' \<and> sc_final_status c' = (code, text) \<and>
    sc_write_queue c' = (if drain then sc_write_queue c else take 1 (sc_write_queue c)) \<and>
    sv_log s' = sv_log s @ (if sc_write_queue c = [] then [(a, SOp_Finish (code, text) md', False)] else [])"
proof -
  note o = open_call [OF assms(1-5,7,8)]
  let ?q = "if drain then sc_write_queue c else take 1 (sc_write_queue c)"
  let ?c = "c\<lparr>sc_replied := True, sc_write_queue := ?q, sc_ctx := add_trailing_md md (sc_ctx c),
    sc_has_final_write := False, sc_final_status := (code, text)\<rparr>"
  let ?s = "sv_store a (pump_locked a (s, ?c))"
  have d: "(if \<not> drain then discard_queue (c\<lparr>sc_replied := True\<rparr>) else Inr (c\<lparr>sc_replied := True\<rparr>)) =
      Inr (c\<lparr>sc_replied := True, sc_write_queue := ?q\<rparr>)"
    using o(4) by (simp add: discard_queue_def split: list.split)
  have r: "grpc_r_server2_finish (Some s) cid code message md drain = Inr (R_Logical True, ?s)"
    using assms(3-9) by (cases "code = 0") (simp_all add: exec_defs is_string_def string_elt0_def Let_def d)
  have "?q = [] \<longleftrightarrow> sc_write_queue c = []" by simp
  with o assms(8,10) have "sv_log ?s = sv_log s @ (if sc_write_queue c = [] then [(a, SOp_Finish (code, text) md', False)] else [])"
    by (simp add: pump_locked_def sv_store_def sv_post_def add_trailing_md_eq)
  moreover have "\<exists>c'. sv_heap ?s a = Some c' \<and> sc_replied c' \<and> \<not> sc_has_final_write c' \<and> sc_final_status c' = (code, text) \<and>
      sc_write_queue c' = ?q"
    by (simp add: pump_locked_def sv_store_def sv_post_def)
  ultimately show ?thesis using r by blast
qed

theorem server_finish_drains_or_discards_witness:
  "\<exists>s' c'. grpc_r_server2_finish (Some (sw_server streaming)) 1 9 (R_String [''no''] None) None False = Inr (R_Logical True, s') \<and>
     sv_heap s' 0 = Some c' \<and> sc_write_queue c' = [''a''] \<and> sc_final_status c' = (9, ''no'')"
proof -
  from streaming_call obtain c where c: "sv_heap (sw_server streaming) 0 = Some c" "sc_delivered c" "\<not> sc_replied c"
    "\<not> sc_dead c" and q: "sc_write_queue c = [''a'', ''b'']" by blast
  have a: "m_find (sv_active (sw_server streaming)) (u64_of_double 1) = Some 0"
    using streaming_state(3) by (simp add: u64_of_double_def)
  have t: "if (9::int) = 0 then ''no'' = [] else R_String [''no''] None = R_String (''no'' # []) None" by simp
  from server_finish_drains_or_discards [OF reach_streaming refl streaming_state(2) a c t refl, of None False] q
  show ?thesis by auto
qed

section \<open>Polling\<close>

text \<open>
  C14: A poll of an open server that does not wait returns the first \<open>maxn\<close> queued events that
  match the filter, in arrival order; the others stay queued in their order, and afterwards the
  wake handle is readable exactly if events are left.
\<close>

theorem server_poll_takes_batch:
  assumes "sv_reach w" and "s = sw_server w" and "\<not> sv_closed s"
    and "P = matches se_id (map_option u64_of_double only_id)"
  shows "\<exists>s'. server_poll (Some s) maxn 0 only_id turns = Some (Inr (take (nat maxn) (filter P (sv_ready s)), s')) \<and>
    filter P (sv_ready s') = drop (nat maxn) (filter P (sv_ready s)) \<and>
    filter (\<lambda>e. \<not> P e) (sv_ready s') = filter (\<lambda>e. \<not> P e) (sv_ready s) \<and>
    mset (take (nat maxn) (filter P (sv_ready s))) + mset (sv_ready s') = mset (sv_ready s) \<and>
    (wake_readable (sv_wake s') \<longleftrightarrow> sv_ready s' \<noteq> [])"
proof -
  let ?t = "take_matching P (nat maxn) (sv_ready s)"
  from sv_poll_good [OF reach_sinv(1) [OF assms(1), folded assms(2)], of "map_option u64_of_double only_id" maxn, folded assms(4)]
  obtain h where p: "sv_poll_locked (map_option u64_of_double only_id) maxn s = (fst ?t, s\<lparr>sv_ready := snd ?t, sv_wake := h\<rparr>)"
    "sarmed (s\<lparr>sv_ready := snd ?t, sv_wake := h\<rparr>)" by blast
  with assms(3) mset_take_matching [of P "nat maxn" "sv_ready s"] show ?thesis
    by (intro exI [of _ "s\<lparr>sv_ready := snd ?t, sv_wake := h\<rparr>"])
      (simp add: server_poll_eq sv_wait_def fst_take_matching filter_snd_take_matching filter_not_snd_take_matching sarmed_def)
qed

theorem server_poll_takes_batch_witness:
  "\<exists>s'. server_poll (Some (sw_server requested)) 5 0 None [] = Some (Inr (sv_ready (sw_server requested), s')) \<and>
    sv_ready s' = [] \<and> (wake_readable (sv_wake s') \<longleftrightarrow> sv_ready s' \<noteq> [])"
proof -
  have len: "length (sv_ready (sw_server requested)) = 1" by (simp add: requested_def served_defs Let_def)
  have P: "(\<lambda>e. True) = matches se_id (map_option u64_of_double None)" by (simp add: matches_def fun_eq_iff)
  from server_poll_takes_batch [OF reach_requested refl requested_state(2) P, of 5 "[]"] len show ?thesis by simp
qed

text \<open>
  C22: A poll of the server that waits loses no wake-up: if a matching event is queued while it
  waits, even between its last look at the deque and the call of \<^verbatim>\<open>poll()\<close>, it returns that event,
  also when it waits without a timeout and nothing else ever happens.
\<close>

theorem server_no_lost_wakeup:
  assumes "sv_reach w" and "s = sw_server w" and "\<not> sv_closed s"
    and "\<not> sv_found (map_option u64_of_double only_id) s"
    and "deliverable sv_enabled sv_handle tcs (sv_drain s)"
    and "rfold sv_handle tcs (sv_drain s) = Inr s1" and "sv_found (map_option u64_of_double only_id) s1"
    and "timeout < 0" and "1 \<le> maxn"
  shows "\<exists>batch s'. server_poll (Some s) maxn timeout only_id
      (\<lparr>wt_left = 0, wt_completions = tcs, wt_outcome = None, wt_late = []\<rparr> # turns) = Some (Inr (batch, s')) \<and>
    batch \<noteq> [] \<and> (\<forall>e \<in> set batch. matches se_id (map_option u64_of_double only_id) e)"
proof -
  let ?want = "map_option u64_of_double only_id"
  note inv = reach_sinv [OF assms(1), folded assms(2)]
  let ?w = "\<lparr>wt_left = 0, wt_completions = tcs, wt_outcome = None, wt_late = []\<rparr>"
  have wait: "wait_loop (sv_found ?want) sv_drain sv_handle sv_wake timeout (?w # turns) s = Some (Inr s1)"
    using svq.arrival_ends_wait [of s ?want timeout ?w s1 s1 turns] sv_good_wake [OF inv(1)] assms by simp
  have "swait_inv (sw_queued w) (sw_taken w) (length (sv_ready s)) s" using inv by (simp add: swait_inv_def)
  from svq.completions_safe [OF svq.inv_drain [OF this] assms(5)] assms(6)
  have "sv_good s1" by (simp add: swait_inv_def)
  from sv_poll_good [OF this, of ?want maxn] obtain s' where
    p: "sv_poll_locked ?want maxn s1 = (take (nat maxn) (filter (matches se_id ?want) (sv_ready s1)), s')"
    by (auto simp: fst_take_matching)
  have "filter (matches se_id ?want) (sv_ready s1) \<noteq> []"
    using assms(7) by (auto simp: sv_found_def have_match_def list_ex_iff filter_empty_conv)
  with p wait assms(3,8,9) show ?thesis by (auto simp: server_poll_eq sv_wait_def dest: in_set_takeD)
qed

lemma accepted_world: "sv_reach (returned (Sv_tag 0 SV_accept) (arrived True []) (started 1 2))"
  by (intro reach_returned reach_started) simp

theorem server_no_lost_wakeup_witness:
  "\<exists>batch s'. server_poll (Some (sw_server (returned (Sv_tag 0 SV_accept) (arrived True []) (started 1 2)))) 1 (-1) (Some 1)
      [\<lparr>wt_left = 0, wt_completions = [(Sv_tag 0 SV_read, arrived True ''q'')], wt_outcome = None, wt_late = []\<rparr>] =
      Some (Inr (batch, s')) \<and> batch \<noteq> []"
proof -
  let ?w = "returned (Sv_tag 0 SV_accept) (arrived True []) (started 1 2)"
  let ?tcs = "[(Sv_tag 0 SV_read, arrived True ''q'')]"
  have op: "\<not> sv_closed (sw_server ?w)" "\<not> sv_found (map_option u64_of_double (Some 1)) (sw_server ?w)"
    by (simp_all add: served_defs Let_def sv_found_def have_match_def)
  have d: "deliverable sv_enabled sv_handle ?tcs (sv_drain (sw_server ?w))"
    by (simp add: served_defs Let_def sv_drain_def)
  obtain s1 where s1: "rfold sv_handle ?tcs (sv_drain (sw_server ?w)) = Inr s1" "sv_found (map_option u64_of_double (Some 1)) s1"
    by (simp add: served_defs Let_def sv_drain_def sv_found_def have_match_def matches_def request_event_def)
  from server_no_lost_wakeup [OF accepted_world refl op d s1, of "-1" 1 "[]"] show ?thesis by auto
qed

text \<open>A poll of the server with a positive timeout comes back too, for the same reason.\<close>

lemma server_poll_times_out:
  assumes "sv_reach w" and "s = sw_server w" and "\<not> sv_closed s" and "turns_ok sv_enabled sv_drain sv_handle turns s"
    and "0 < timeout" and "turns \<noteq> []" and "wt_left (last turns) \<le> 0"
    and "timeout < 2 ^ 31" and "\<forall>t \<in> set turns. wt_left t \<le> timeout"
  shows "\<exists>batch s'. server_poll (Some s) maxn timeout only_id turns = Some (Inr (batch, s')) \<and>
    (wake_readable (sv_wake s') \<longleftrightarrow> sv_ready s' \<noteq> [])"
proof -
  note inv = reach_sinv [OF assms(1), folded assms(2)]
  have "sv_wait timeout (map_option u64_of_double only_id) turns s \<noteq> None"
    using wait_loop_returns [OF assms(5-9), of "sv_found (map_option u64_of_double only_id)" sv_drain sv_handle sv_wake s] assms(5)
    by (simp add: sv_wait_def)
  from sv_poll_returns [OF inv(1,3) assms(3,4) this] show ?thesis by (simp add: sarmed_def)
qed

section \<open>Closing\<close>

text \<open>
  C8: Closing an open server ends.  Whatever the library returns, in whatever order and with
  whatever outcome (an accept may still succeed and add a tag), the completion thread handles at
  most the outstanding tags plus the outstanding accepts; when none is left it stops, every call
  object has been deleted exactly once, no operation was started on the way, exactly the two descriptors of
  the wake handle are closed, once each, and the external pointer is cleared; every later entry point raises, and a second close
  does nothing.  As long as something is outstanding the close goes on waiting.
\<close>

theorem server_close_complete:
  assumes "sv_reach w" and "s = sw_server w" and "\<not> sv_closed s"
    and "deliverable sv_enabled sv_handle tcs (rserver_shutdown_begin s)"
  shows "\<exists>s1. rfold sv_handle tcs (rserver_shutdown_begin s) = Inr s1 \<and>
    length tcs \<le> length (sv_cq s) + length (filter (\<lambda>t. sv_tag_kind t = SV_accept) (sv_cq s)) \<and>
    (if sv_cq s1 \<noteq> [] then rserver_shutdown tcs s = None
     else (\<exists>s'. rserver_shutdown tcs s = Some (Inr (s', [wh_r (sv_wake s), wh_w (sv_wake s)])) \<and> sv_heap s' = Map.empty \<and> sv_active s' = [] \<and>
         sv_log s' = sv_log s \<and> wh_r (sv_wake s') = -1 \<and> wh_w (sv_wake s') = -1) \<and>
       grpc_r_server2_close tcs (Some s) = Some (Inr (R_NilValue, None))) \<and>
    (\<forall>op. sv_exec op None = Inl (Rf_error ''grpc server is closed'')) \<and>
    (\<forall>tcs'. grpc_r_server2_close tcs' None = Some (Inr (R_NilValue, None)))"
proof -
  from rserver_shutdown_ok [OF reach_sinv(1) [OF assms(1), folded assms(2)] assms(3,4)] obtain s1 where
    s1: "rfold sv_handle tcs (rserver_shutdown_begin s) = Inr s1" "length tcs + closing_weight s1 \<le> closing_weight s"
    "if sv_cq s1 \<noteq> [] then rserver_shutdown tcs s = None
     else \<exists>s'. rserver_shutdown tcs s = Some (Inr (s', [wh_r (sv_wake s), wh_w (sv_wake s)])) \<and> sv_closed s' \<and> sv_heap s' = Map.empty \<and> sv_active s' = [] \<and>
       sv_cq s' = [] \<and> sv_log s' = sv_log s \<and> wh_r (sv_wake s') = -1 \<and> wh_w (sv_wake s') = -1" by blast
  have "sv_exec op None = Inl (Rf_error ''grpc server is closed'')" for op
    by (cases op) (simp_all add: exec_defs)
  with s1 show ?thesis
    by (intro exI [of _ s1]) (auto simp: closing_weight_def naccepts_def grpc_r_server2_close_def rserver_finalizer_def)
qed

theorem server_close_complete_witness:
  "grpc_r_server2_close [(Sv_tag 1 SV_accept, arrived False []), (Sv_tag 0 SV_done, arrived True []),
      (Sv_tag 0 SV_write, arrived False [])] (Some (sw_server streaming)) = Some (Inr (R_NilValue, None))"
proof -
  let ?tcs = "[(Sv_tag 1 SV_accept, arrived False []), (Sv_tag 0 SV_done, arrived True []), (Sv_tag 0 SV_write, arrived False [])]"
  have d: "deliverable sv_enabled sv_handle ?tcs (rserver_shutdown_begin (sw_server streaming))"
    and e: "\<forall>s1. rfold sv_handle ?tcs (rserver_shutdown_begin (sw_server streaming)) = Inr s1 \<longrightarrow> sv_cq s1 = []"
    by (simp_all add: streaming_def requested_def served_defs Let_def rserver_shutdown_begin_def)
  from server_close_complete [OF reach_streaming refl streaming_state(2) d] e show ?thesis by auto
qed

section \<open>Accepting\<close>

text \<open>
  C20: After a call has been accepted, has ended or has been answered, the server is listening
  again as far as its limits allow: unless it is shutting down, \<open>accept_window\<close> accepts are
  outstanding or calls and accepts together reach \<open>max_active\<close>.
\<close>

theorem server_refills_accepts:
  assumes "sv_reach w" and "s = sw_server w" and "sv_enabled (Sv_tag a k, cp) s"
    and "k = SV_accept \<and> sp_ok cp \<or> k = SV_done \<or> k = SV_finish"
    and "sv_handle (Sv_tag a k, cp) s = Inr s'"
  shows "sv_shutting s' \<or> sv_accept_window s' \<le> sv_accepts_outstanding s' \<or>
    sv_max_active s' \<le> int (m_size (sv_active s')) + sv_accepts_outstanding s'"
proof -
  note inv = reach_sinv [OF assms(1), folded assms(2)]
  from reach_sinv_ex [OF assms(1)] obtain n where n: "sv_inv n s" by (auto simp: assms(2))
  from assms(3) have t: "Sv_tag a k \<in> set (sv_cq s)" by (simp add: sv_enabled_def)
  have "\<exists>s0. s' = post_accepts_locked s0"
  proof (cases "k = SV_accept")
    case True
    with t accept_counts(2) [OF n] have "sv_heap s a = Some (sv_call_init\<lparr>sc_pending := 1\<rparr>)" by (auto simp: slot_ok_def)
    from run_accept_ok [OF this, of cp] assms(4,5) True show ?thesis by auto
  next
    case False
    from t have "0 < scnt s a k" by (simp add: scnt_def count_list_pos_iff)
    then obtain c where c: "sv_heap s a = Some c" using sheap_okD(6) [OF sv_invD(1) [OF n], of a k] by (cases "sv_heap s a") auto
    from False assms(4) have "k = SV_done \<or> k = SV_finish" by simp
    with sv_handle_section [OF c, of k cp] assms(5) show ?thesis by (auto simp: refills_def)
  qed
  then obtain s0 where "s' = post_accepts_locked s0" by blast
  with post_accepts_full [of s0] have w: "\<not> accepts_wanted s'" by simp
  from sv_handle_good [OF inv(1,3) assms(3)] assms(5) obtain m where "sv_inv m s'" by (auto simp: sv_good_def)
  then have "m_size (sv_active s') < 2 ^ 31" using sv_invD(2) [of m s'] by (auto simp: slimits_ok_def)
  with w show ?thesis by (auto simp: accepts_wanted_def int_of_size_small)
qed

theorem server_refills_accepts_witness:
  "\<exists>s'. sv_handle (Sv_tag 0 SV_done, arrived True []) (sw_server requested) = Inr s' \<and>
     (sv_shutting s' \<or> sv_accept_window s' \<le> sv_accepts_outstanding s' \<or>
      sv_max_active s' \<le> int (m_size (sv_active s')) + sv_accepts_outstanding s')"
proof -
  have e: "sv_enabled (Sv_tag 0 SV_done, arrived True []) (sw_server requested)"
    by (simp add: sv_enabled_def requested_state)
  obtain s' where s': "sv_handle (Sv_tag 0 SV_done, arrived True []) (sw_server requested) = Inr s'"
    by (simp add: requested_def served_defs Let_def)
  from server_refills_accepts [OF reach_requested refl e _ s'] s' show ?thesis by blast
qed



section \<open>The end of a call\<close>

lemma over_refused:
  assumes "sv_good s" and "\<not> sv_closed s" and "cmd_ok op"
    and "\<And>b c. sv_heap s b = Some c \<Longrightarrow> sc_id c = cmd_id op \<Longrightarrow> sc_dead c"
  shows "sv_exec op (Some s) = Inr (R_Logical False, s)"
proof (rule exec_refused [OF assms(2,3)])
  from assms(1) obtain n where "sv_inv n s" by (auto simp: sv_good_def)
  note act = sheap_okD(2) [OF sv_invD(1) [OF this], of "cmd_id op"]
  show "m_find (sv_active s) (cmd_id op) = None \<or>
      (\<exists>a c. m_find (sv_active s) (cmd_id op) = Some a \<and> sv_heap s a = Some c \<and> (sc_dead c \<or> sc_replied c \<and> answers op))"
  proof (cases "m_find (sv_active s) (cmd_id op)")
    case (Some b)
    with act [of b] obtain c where "sv_heap s b = Some c" "sc_id c = cmd_id op" by blast
    with assms(4) Some show ?thesis by blast
  qed simp
qed

text \<open>After a completion the objects with the call's id are the one that was worked on, if it is still stored.\<close>

lemma section_objects:
  assumes hp: "sheap_ok s" and c: "sv_heap s a = Some c" "sc_id c \<noteq> 0"
    and t: "sv_touches a (sc_id c) (sv_taken_off a k s) (fst p)"
    and b: "sv_heap (refills k (maybe_free_locked a p)) b = Some c'" "sc_id c' = sc_id c"
  shows "b = a \<and> c' = snd p \<and> sc_pending (snd p) \<noteq> 0"
proof (cases "b = a")
  case True
  with maybe_free_calls [of a p b c'] refills_calls [OF b(1)] b(2) c(2) show ?thesis by auto
next
  case False
  with maybe_free_calls [of a p b c'] refills_calls [OF b(1)] b(2) c(2) have "sv_heap s b = Some c'"
    using sv_touches_frame(6) [OF t] by simp
  with sheap_unique [OF hp this c(1) b(2)] b(2) c(2) False show ?thesis by simp
qed

text \<open>
  C19: R learns that a call is over.  When the library reports the end of a call whose request was
  queued for R and which R has not answered, a cancellation is queued for it then and there, whether
  the call object stays or is deleted in the same section; none was queued before, and from the
  state that results every command on that call is refused.  No cancellation is queued for a call
  that was answered or whose request was never queued.
\<close>

theorem server_cancellation_reported:
  assumes "sv_reach w" and "s = sw_server w" and "sv_enabled (Sv_tag a SV_done, cp) s" and "sv_heap s a = Some c"
    and "sv_handle (Sv_tag a SV_done, cp) s = Inr s'"
  shows "sv_ready s' = sv_ready s @ (if sc_delivered c \<and> \<not> sc_replied c then [plain_event 1 (sc_id c)] else []) \<and>
    (sc_delivered c \<longleftrightarrow> 0 \<in> set (types_of (sc_id c) (sw_queued w))) \<and>
    1 \<notin> set (types_of (sc_id c) (sw_queued w)) \<and>
    (sc_delivered c \<and> \<not> sc_replied c \<and> \<not> sv_closed s \<longrightarrow>
       (\<forall>op. cmd_ok op \<and> cmd_id op = sc_id c \<longrightarrow> sv_exec op (Some s') = Inr (R_Logical False, s')))"
proof -
  note g = reach_sinv [OF assms(1), folded assms(2)]
  from reach_sinv_ex [OF assms(1)] obtain n where inv: "sv_inv n s" by (auto simp: assms(2))
  note hp = sv_invD(1) [OF inv]
  from assms(3) have t: "0 < scnt s a SV_done" by (simp add: sv_enabled_def scnt_def count_list_pos_iff)
  have nz: "sc_id c \<noteq> 0" using sheap_okD(4) [OF hp assms(4)] t by (auto simp: slot_ok_def)
  let ?ts = "types_of (sc_id c) (sw_queued w)"
  from shist_okD(4) [OF g(3) assms(4) nz] have st: "stored_hist ?ts (scnt s a SV_done) c" .
  have z: "0 \<in> set ?ts \<longleftrightarrow> ?ts \<noteq> []" using shist_okD(3) [OF g(3), of "sc_id c"] by (cases ?ts) (auto simp: protocol_ok_def)
  let ?p = "done_section (sv_taken_off a SV_done s, sv_popped c)"
  from sv_handle_section [OF assms(4), of SV_done cp] assms(5)
  have s': "s' = refills SV_done (maybe_free_locked a ?p)" by (simp add: call_section_def)
  have rd: "sv_ready s' = sv_ready s @ (if sc_delivered c \<and> \<not> sc_replied c then [plain_event 1 (sc_id c)] else [])"
    by (simp add: s' done_section_def push_ready)
  have tch: "sv_touches a (sc_id c) (sv_taken_off a SV_done s) (fst ?p)"
    using call_section_frame(1) [where a = a and k = SV_done and cp = cp and c = "sv_popped c" and s = "sv_taken_off a SV_done s"]
    by (simp add: call_section_def)
  have "sv_exec op (Some s') = Inr (R_Logical False, s')"
    if o': "sc_delivered c \<and> \<not> sc_replied c" "\<not> sv_closed s" "cmd_ok op" "cmd_id op = sc_id c" for op
  proof (rule over_refused [OF _ _ o'(3)])
    from sv_handle_good [OF g(1,3) assms(3)] assms(5) show "sv_good s'" by auto
    from sv_handle_advances [OF assms(5)] o'(2) show "\<not> sv_closed s'" by (simp add: sv_advances_def)
    fix b c' assume "sv_heap s' b = Some c'" "sc_id c' = cmd_id op"
    with section_objects [OF hp assms(4) nz tch, of b c'] o'(1,4) show "sc_dead c'"
      by (simp add: s' done_section_def)
  qed
  with rd st t z show ?thesis by (auto simp: stored_hist_def)
qed

text \<open>The end of a call whose request R has: its last outstanding tag, so the object is deleted too.\<close>

theorem server_cancellation_reported_witness:
  "\<exists>s'. sv_handle (Sv_tag 0 SV_done, arrived True []) (sw_server requested) = Inr s' \<and>
     sv_ready s' = sv_ready (sw_server requested) @ [plain_event 1 1] \<and>
     sv_heap s' 0 = None \<and> sv_exec (Sv_read 1) (Some s') = Inr (R_Logical False, s')"
proof -
  have en: "sv_enabled (Sv_tag 0 SV_done, arrived True []) (sw_server requested)"
    using requested_state(1,5) by (simp add: sv_enabled_def)
  obtain c where c: "sv_heap (sw_server requested) 0 = Some c" "sc_delivered c" "\<not> sc_replied c" "sc_id c = 1"
    by (simp add: requested_def served_defs Let_def)
  obtain s' where s': "sv_handle (Sv_tag 0 SV_done, arrived True []) (sw_server requested) = Inr s'" "sv_heap s' 0 = None"
    by (simp add: requested_def served_defs Let_def)
  have "cmd_ok (Sv_read 1) \<and> cmd_id (Sv_read 1) = 1" by (simp add: cmd_ok_def cmd_id_def u64_of_double_def)
  with server_cancellation_reported [OF reach_requested refl en c(1) s'(1)] c s' requested_state(2) show ?thesis by auto
qed

text \<open>
  C31: R can be handed a request that is over before it sees it.  When the library reports the end
  of a call before its first read completes, and the read then succeeds, the request is queued for R
  and the call object is deleted in the same section: no object of that id and no outstanding tag of
  it is left, no cancellation has been queued for it, and every command R gives for it is refused.
\<close>

theorem server_late_request:
  assumes "sv_reach w" and "s = sw_server w" and "sv_heap s a = Some c" and "sc_id c \<noteq> 0"
    and "\<not> sc_delivered c" and "\<not> sc_dead c" and "Sv_tag a SV_done \<notin> set (sv_cq s)"
    and "sv_enabled (Sv_tag a SV_read, cp) s" and "sp_ok cp" and "sv_handle (Sv_tag a SV_read, cp) s = Inr s'"
  shows "sv_ready s' = sv_ready s @ [request_event (sc_id c) cp] \<and>
    types_of (sc_id c) (sw_queued w) = [] \<and>
    (\<forall>b c'. sv_heap s' b = Some c' \<longrightarrow> sc_id c' \<noteq> sc_id c) \<and> (\<forall>k. Sv_tag a k \<notin> set (sv_cq s')) \<and>
    (\<not> sv_closed s \<longrightarrow> (\<forall>op. cmd_ok op \<and> cmd_id op = sc_id c \<longrightarrow> sv_exec op (Some s') = Inr (R_Logical False, s')))"
proof -
  note g = reach_sinv [OF assms(1), folded assms(2)]
  from reach_sinv_ex [OF assms(1)] obtain n where inv: "sv_inv n s" by (auto simp: assms(2))
  note hp = sv_invD(1) [OF inv]
  from sheap_okD(5) [OF hp assms(3,4)] have ok: "call_wf c" "call_tags (scnt s a) c" by (simp_all add: stored_ok_def call_ok_def)
  from assms(7,8) have n: "scnt s a SV_done = 0" "0 < scnt s a SV_read"
    by (simp_all add: scnt_def count_list_0_iff sv_enabled_def count_list_pos_iff)
  have pend: "sc_pending c = 1" using ok n assms(5) by (auto simp: call_tags_def call_wf_def split: if_splits)
  let ?p = "read_section cp (sv_taken_off a SV_read s, sv_popped c)"
  from sv_handle_section [OF assms(3), of SV_read cp] assms(10)
  have s': "s' = refills SV_read (maybe_free_locked a ?p)" by (simp add: call_section_def)
  have rd: "sv_ready s' = sv_ready s @ [request_event (sc_id c) cp]"
    using assms(5,6,9) by (simp add: s' read_section_def Let_def push_ready)
  have tch: "sv_touches a (sc_id c) (sv_taken_off a SV_read s) (fst ?p)"
    using call_section_frame(1) [where a = a and k = SV_read and cp = cp and c = "sv_popped c" and s = "sv_taken_off a SV_read s"]
    by (simp add: call_section_def)
  have p0: "sc_pending (snd ?p) = 0" using pend by (simp add: read_section_def Let_def)
  have gone: "sc_id c' \<noteq> sc_id c" if "sv_heap s' b = Some c'" for b c'
    using section_objects [OF hp assms(3,4) tch, of b c'] p0 that by (auto simp: s')
  from sv_handle_good [OF g(1,3) assms(8)] assms(10) have g': "sv_good s'" by auto
  have "sv_heap s' a = None" using p0 by (simp add: s' refills_def maybe_free_locked_def split_beta Let_def)
  with g' have tags: "Sv_tag a k \<notin> set (sv_cq s')" for k
    using sheap_okD(6) [of s' a k] by (auto simp: sv_good_def scnt_def count_list_0_iff dest!: sv_invD(1))
  from shist_okD(4) [OF g(3) assms(3,4)] assms(5) have "types_of (sc_id c) (sw_queued w) = []" by (simp add: stored_hist_def)
  moreover have "sv_exec op (Some s') = Inr (R_Logical False, s')" if "\<not> sv_closed s" "cmd_ok op" "cmd_id op = sc_id c" for op
    by (rule over_refused [OF g' _ that(2)]) (use that sv_handle_advances [OF assms(10)] gone in \<open>auto simp: sv_advances_def\<close>)
  ultimately show ?thesis using rd gone tags by blast
qed

text \<open>A call is accepted and its client is gone before its first message has been read.\<close>

theorem server_late_request_witness:
  "\<exists>s'. sv_handle (Sv_tag 0 SV_read, arrived True ''q'')
      (sw_server (returned (Sv_tag 0 SV_done) (arrived True []) (returned (Sv_tag 0 SV_accept) (arrived True []) (started 1 2)))) = Inr s' \<and>
     map se_type (sv_ready s') = [0] \<and> sv_exec (Sv_send 1 ''m'') (Some s') = Inr (R_Logical False, s')"
proof -
  let ?w = "returned (Sv_tag 0 SV_done) (arrived True []) (returned (Sv_tag 0 SV_accept) (arrived True []) (started 1 2))"
  have r: "sv_reach ?w" by (intro reach_returned reach_started) simp
  obtain c where c: "sv_heap (sw_server ?w) 0 = Some c" "sc_id c = 1" "\<not> sc_delivered c" "\<not> sc_dead c"
    by (simp add: served_defs Let_def)
  have q: "Sv_tag 0 SV_done \<notin> set (sv_cq (sw_server ?w))" "sv_enabled (Sv_tag 0 SV_read, arrived True ''q'') (sw_server ?w)"
    "\<not> sv_closed (sw_server ?w)" "sv_ready (sw_server ?w) = []" by (simp_all add: served_defs Let_def)
  obtain s' where s': "sv_handle (Sv_tag 0 SV_read, arrived True ''q'') (sw_server ?w) = Inr s'" by (simp add: served_defs Let_def)
  have "cmd_ok (Sv_send 1 ''m'') \<and> cmd_id (Sv_send 1 ''m'') = 1" "sp_ok (arrived True ''q'')" "sc_id c \<noteq> 0"
    using c(2) by (simp_all add: cmd_ok_def cmd_id_def u64_of_double_def arrived_def)
  with server_late_request [OF r refl c(1) _ c(3,4) q(1,2) _ s'] c(2) q(3,4) s' show ?thesis by auto
qed

end
