(* ===== verification/Server_Fifo.thy ===== *)
theory Server_Fifo
  imports Server_Calls "HOL-Library.Sublist"
begin

text \<open>
  The messages of a call reach the library in the order in which R's sends were accepted, each
  exactly once, and a terminal status never overtakes a message that is still to be written.  An
  abortive finish may drop the tail of the accepted sends, a dead call all that is not written.
\<close>

section \<open>What was written\<close>

definition swritten :: "addr \<Rightarrow> (addr \<times> sv_op \<times> bool) list \<Rightarrow> string list" where
  "swritten a l = concat (map (\<lambda>(b, op, _). case op of SOp_Write m \<Rightarrow> if b = a then [m] else [] | _ \<Rightarrow> []) l)"

lemma swritten_simps [simp]:
  "swritten a [] = []" "swritten a (l @ l') = swritten a l @ swritten a l'"
  "swritten a [(b, op, z)] = (case op of SOp_Write m \<Rightarrow> if b = a then [m] else [] | _ \<Rightarrow> [])"
  by (simp_all add: swritten_def)

definition swaiting :: "sv_call \<Rightarrow> string list" where
  "swaiting c = (if sc_write_inflight c then tl (sc_write_queue c) else sc_write_queue c)"

definition sfifo :: "addr \<Rightarrow> string list \<Rightarrow> rserver \<times> sv_call \<Rightarrow> bool" where
  "sfifo a sent = (\<lambda>(s, c). prefix (swritten a (sv_log s)) sent \<and>
     (\<not> sc_dead c \<longrightarrow> prefix (swritten a (sv_log s) @ swaiting c) sent) \<and>
     (\<not> sc_dead c \<and> \<not> sc_replied c \<longrightarrow> swritten a (sv_log s) @ swaiting c = sent))"

lemma pump_others [simp]: "b \<noteq> a \<Longrightarrow> swritten b (sv_log (fst (pump_locked a p))) = swritten b (sv_log (fst p))"
  by (cases p) (simp add: pump_locked_def sv_post_def)

lemma sfifo_pump: "sfifo a sent p \<Longrightarrow> sfifo a sent (pump_locked a p)"
proof (cases p)
  case (Pair s c)
  moreover assume "sfifo a sent p"
  ultimately show ?thesis
    by (cases "sc_write_queue c")
      (auto simp: sfifo_def pump_locked_def sv_post_def swaiting_def prefix_def)
qed

lemma sfifo_same:
  assumes "sfifo a sent (s, c)" and "sv_log s' = sv_log s" and "sc_dead c \<longrightarrow> sc_dead c'"
    and "sc_replied c \<longrightarrow> sc_replied c'" and "swaiting c' = swaiting c"
  shows "sfifo a sent (s', c')"
  using assms by (auto simp: sfifo_def)

lemma push_log [simp]: "sv_log (push_event_locked e s) = sv_log s"
  by (simp add: push_event_locked_def sv_signal_def)

section \<open>One completion\<close>

lemma sfifo_section:
  assumes f: "sfifo a sent (s, c)" and w: "k = SV_write \<Longrightarrow> sc_write_inflight c \<and> sc_write_queue c \<noteq> []"
  shows "sfifo a sent (call_section a k cp (s, c))"
proof (cases k)
  case SV_read
  then show ?thesis
    by (auto simp: call_section_def read_section_def Let_def swaiting_def intro!: sfifo_same [OF f])
next
  case SV_write
  with w have q: "sc_write_inflight c" "sc_write_queue c \<noteq> []" by simp_all
  show ?thesis
  proof (cases "sp_ok cp \<and> \<not> sc_dead c")
    case True
    have "sfifo a sent (s', c\<lparr>sc_write_inflight := False, sc_write_queue := tl (sc_write_queue c)\<rparr>)"
      if "sv_log s' = sv_log s" for s'
      using q that by (intro sfifo_same [OF f]) (simp_all add: swaiting_def)
    with True SV_write show ?thesis
      by (simp add: call_section_def write_section_def Let_def sfifo_pump)
  next
    case False
    with SV_write f show ?thesis
      by (auto simp: call_section_def write_section_def Let_def sfifo_def)
  qed
next
  case SV_done
  then show ?thesis
    by (auto simp: call_section_def done_section_def swaiting_def intro!: sfifo_same [OF f])
qed (use f in \<open>simp_all add: call_section_def\<close>)

lemma section_others:
  "b \<noteq> a \<Longrightarrow> swritten b (sv_log (fst (call_section a k cp (s, c)))) = swritten b (sv_log s)"
  by (cases k) (simp_all add: call_section_def read_section_def write_section_def done_section_def Let_def)

section \<open>The whole server\<close>

definition sfifo_ok :: "(addr \<times> string) list \<Rightarrow> rserver \<Rightarrow> bool" where
  "sfifo_ok sent s \<longleftrightarrow>
     (\<forall>a. prefix (swritten a (sv_log s)) (sent_to a sent)) \<and>
     (\<forall>a c. sv_heap s a = Some c \<longrightarrow> sfifo a (sent_to a sent) (s, c)) \<and>
     (\<forall>a. sv_next_addr s \<le> a \<longrightarrow> sent_to a sent = [])"

lemma sfifo_okD:
  assumes "sfifo_ok sent s"
  shows "prefix (swritten a (sv_log s)) (sent_to a sent)"
    and "sv_heap s a = Some c \<Longrightarrow> sfifo a (sent_to a sent) (s, c)"
    and "sv_next_addr s \<le> a \<Longrightarrow> sent_to a sent = []"
  using assms unfolding sfifo_ok_def by blast+

lemma sfifo_ok_cong:
  assumes "sv_log s' = sv_log s" and "sv_heap s' = sv_heap s" and "sv_next_addr s' = sv_next_addr s"
  shows "sfifo_ok sent s' = sfifo_ok sent s"
  by (simp add: sfifo_ok_def sfifo_def assms)

lemma sfifo_ok_store:
  assumes ok: "sfifo_ok sent s" and a: "a < sv_next_addr s" and f: "sfifo a (sent_to a (sent @ extra)) (s1, c1)"
    and others: "\<And>b. b \<noteq> a \<Longrightarrow> swritten b (sv_log s1) = swritten b (sv_log s)"
    and m: "fst ` set extra \<subseteq> {a}"
    and s': "sv_log s' = sv_log s1" "sv_next_addr s' = sv_next_addr s"
      "sv_heap s' = (sv_heap s)(a \<mapsto> c1) \<or> sv_heap s' = (sv_heap s)(a := None)"
  shows "sfifo_ok (sent @ extra) s'"
proof -
  have m': "sent_to b extra = []" if "b \<noteq> a" for b using m that by (auto simp: sent_to_def filter_empty_conv)
  have "prefix (swritten b (sv_log s1)) (sent_to b (sent @ extra))" for b
    using f sfifo_okD(1) [OF ok, of b] others [of b] m' [of b] by (cases "b = a") (simp_all add: sfifo_def)
  moreover have "sfifo b (sent_to b (sent @ extra)) (s', c)" if "sv_heap s' b = Some c" for b c
  proof (cases "b = a")
    case True
    with that s' f show ?thesis by (auto simp: sfifo_def)
  next
    case False
    with that s'(3) have "sv_heap s b = Some c" by auto
    from sfifo_okD(2) [OF ok this] others [OF False] m' [OF False] s'(1) show ?thesis by (simp add: sfifo_def)
  qed
  moreover have "sent_to b (sent @ extra) = []" if "sv_next_addr s' \<le> b" for b
  proof -
    have "b \<noteq> a" using that a s'(2) by auto
    with sfifo_okD(3) [OF ok, of b] that m' s'(2) show ?thesis by simp
  qed
  ultimately show ?thesis unfolding sfifo_ok_def s'(1) by blast
qed

lemma sfifo_post_accepts: "sfifo_ok sent s \<Longrightarrow> sfifo_ok sent (post_accepts_locked s)"
proof (induction s rule: post_accepts_locked.induct)
  case (1 s)
  show ?case
  proof (cases "accepts_wanted s")
    case False
    with 1 show ?thesis by (subst post_accepts_locked.simps) simp
  next
    case True
    have n: "swritten (sv_next_addr s) (sv_log s) = []" "sent_to (sv_next_addr s) sent = []"
      using sfifo_okD(1,3) [OF 1(2), of "sv_next_addr s"] by auto
    have "sfifo_ok sent (post_accept s)"
      using 1(2) n unfolding sfifo_ok_def sfifo_def
      by (auto simp: post_accept_def Let_def sv_post_def swaiting_def sv_call_init_def)
    with 1(1) [OF True] True show ?thesis by (subst post_accepts_locked.simps) simp
  qed
qed

lemma sfifo_handle:
  assumes ok: "sfifo_ok sent s" and inv: "sv_inv n s" and t: "fst tc \<in> set (sv_cq s)" and h: "sv_handle tc s = Inr s'"
  shows "sfifo_ok sent s'"
proof -
  note hp = sv_invD(1) [OF inv]
  obtain a k cp where tc: "tc = (Sv_tag a k, cp)" by (metis prod.collapse sv_tag.collapse)
  with t have t': "Sv_tag a k \<in> set (sv_cq s)" by simp
  then have n: "0 < scnt s a k" by (simp add: scnt_def count_list_pos_iff)
  then obtain c where c: "sv_heap s a = Some c" using sheap_okD(6) [OF hp, of a k] by (cases "sv_heap s a") auto
  note f = sfifo_okD(2) [OF ok c] and lt = sheap_okD(3) [OF hp c]
  show ?thesis
  proof (cases "k = SV_accept")
    case True
    with accept_counts(2) [OF inv] t' c have sl: "c = sv_call_init\<lparr>sc_pending := 1\<rparr>" by (auto simp: slot_ok_def)
    have "sfifo a (sent_to a (sent @ [])) (accepted_state a s, accepted_call s)"
      using f by (auto simp: sl sfifo_def swaiting_def accepted_call_def accepted_state_def sv_call_init_def)
    then have "sfifo_ok (sent @ []) (accepted_state a s)"
      by (rule sfifo_ok_store [OF ok lt]) (auto simp: accepted_state_def)
    moreover have "sfifo_ok (sent @ []) ((sv_taken_off a SV_accept s)\<lparr>sv_accepts_outstanding := sv_accepts_outstanding s - 1,
        sv_heap := (sv_heap s)(a := None)\<rparr>)"
      by (rule sfifo_ok_store [OF ok lt, of "[]" s c]) (use f in auto)
    ultimately show ?thesis
      using run_accept_ok [OF c [unfolded sl], of cp] h tc True by (auto simp: sfifo_post_accepts split: if_splits)
  next
    case False
    have nz: "sc_id c \<noteq> 0" using sheap_okD(4) [OF hp c] n False by (auto simp: slot_ok_def)
    have w: "k = SV_write \<Longrightarrow> sc_write_inflight c \<and> sc_write_queue c \<noteq> []"
      using sheap_okD(5) [OF hp c nz] n by (auto simp: stored_ok_def call_ok_def call_tags_def call_wf_def)
    let ?p = "call_section a k cp (sv_taken_off a k s, sv_popped c)"
    have s': "s' = refills k (maybe_free_locked a ?p)"
      using sv_handle_section [OF c False, of cp] w h tc by auto
    have "sfifo a (sent_to a sent) (sv_taken_off a k s, sv_popped c)"
      by (rule sfifo_same [OF f]) (simp_all add: swaiting_def)
    from sfifo_section [OF this, of k cp] w have g: "sfifo a (sent_to a (sent @ [])) (fst ?p, snd ?p)" by simp
    have fr: "sv_next_addr (fst ?p) = sv_next_addr s" "sv_heap (fst ?p) = sv_heap s"
      using call_section_frame(1) [where a = a and k = k and cp = cp and c = "sv_popped c" and s = "sv_taken_off a k s"]
      by (auto simp: sv_touches_def)
    have "sfifo_ok (sent @ []) (maybe_free_locked a ?p)"
      by (rule sfifo_ok_store [OF ok lt g])
        (auto simp: maybe_free_locked_def sv_store_def split_beta Let_def fr section_others)
    then show ?thesis by (simp add: s' refills_def sfifo_post_accepts)
  qed
qed

section \<open>The entry points\<close>

lemma with_call_cases:
  assumes "with_call s cid f = Inr (v, s')"
  obtains (unknown) "m_find (sv_active s) (u64_of_double cid) = None" "v = R_Logical False" "s' = s"
  | (known) a c where "m_find (sv_active s) (u64_of_double cid) = Some a" "sv_heap s a = Some c" "f a c = Inr (v, s')"
  using assms by (auto simp: with_call_def rbind_Inr_iff deref_Inr_iff split: option.splits)

lemma pump_store_fifo:
  assumes ok: "sfifo_ok sent s" and inv: "sv_inv n s" and c: "sv_heap s a = Some c"
    and f: "sfifo a (sent_to a (sent @ extra)) (s, c')" and m: "fst ` set extra \<subseteq> {a}"
  shows "sfifo_ok (sent @ extra) (sv_store a (pump_locked a (s, c')))"
proof -
  let ?p = "pump_locked a (s, c')"
  from sfifo_pump [OF f] have g: "sfifo a (sent_to a (sent @ extra)) (fst ?p, snd ?p)" by simp
  have fr: "sv_next_addr (fst ?p) = sv_next_addr s" "sv_heap (fst ?p) = sv_heap s"
    by (auto simp: pump_locked_def sv_post_def)
  show ?thesis
    by (rule sfifo_ok_store [OF ok sheap_okD(3) [OF sv_invD(1) [OF inv] c] g _ m])
      (auto simp: sv_store_def split_beta fr)
qed

lemma pump_store_same:
  assumes "sfifo_ok sent s" and "sv_inv n s" and c: "sv_heap s a = Some c"
    and "sc_dead c' = sc_dead c" and "sc_replied c \<longrightarrow> sc_replied c'" and "swaiting c' = swaiting c"
  shows "sfifo_ok sent (sv_store a (pump_locked a (s, c')))"
  using pump_store_fifo [OF assms(1,2) c, of "[]" c'] sfifo_same [OF sfifo_okD(2) [OF assms(1) c], of s c'] assms(4-)
  by simp

lemma sfifo_send:
  assumes ok: "sfifo_ok sent s" and inv: "sv_inv n s" and op: "\<not> sv_closed s"
    and ex: "grpc_r_server2_send (Some s) cid bytes = Inr (v, s')"
  shows "sfifo_ok (sent @ sv_accepted (Sv_send cid bytes) v s) s'"
proof -
  from ex op have "with_call s cid (\<lambda>a c.
       if \<not> sc_delivered c \<or> sc_dead c \<or> sc_replied c then Inr (R_Logical False, s)
       else if sc_write_cap c \<le> length (sc_write_queue c) then Inr (R_Logical False, s)
       else let c = c\<lparr>sc_write_queue := sc_write_queue c @ [bytes]\<rparr>
            in Inr (R_Logical True, sv_store a (pump_locked a (s, c)))) = Inr (v, s')"
    by (simp add: grpc_r_server2_send_def get_server_def)
  then show ?thesis
  proof (cases rule: with_call_cases)
    case unknown
    with ok show ?thesis by (simp add: sv_accepted_def)
  next
    case (known a c)
    show ?thesis
    proof (cases "v = R_Logical True")
      case True
      with known(3) have c: "\<not> sc_dead c" "\<not> sc_replied c"
        "s' = sv_store a (pump_locked a (s, c\<lparr>sc_write_queue := sc_write_queue c @ [bytes]\<rparr>))"
        by (auto simp: Let_def split: if_splits)
      have nz: "sc_id c \<noteq> 0" using sheap_okD(2) [OF sv_invD(1) [OF inv], of _ a] known(1,2) by auto
      from sheap_okD(5) [OF sv_invD(1) [OF inv] known(2) nz] have "sc_write_inflight c \<Longrightarrow> sc_write_queue c \<noteq> []"
        by (auto simp: stored_ok_def call_ok_def call_wf_def)
      then have "swaiting (c\<lparr>sc_write_queue := sc_write_queue c @ [bytes]\<rparr>) = swaiting c @ [bytes]" by (simp add: swaiting_def)
      with sfifo_okD(2) [OF ok known(2)] c have
        "sfifo a (sent_to a (sent @ [(a, bytes)])) (s, c\<lparr>sc_write_queue := sc_write_queue c @ [bytes]\<rparr>)"
        by (auto simp: sfifo_def)
      from pump_store_fifo [OF ok inv known(2) this] c(3) True known(1) show ?thesis by (simp add: sv_accepted_def)
    next
      case False
      with known ok show ?thesis by (auto simp: sv_accepted_def Let_def split: if_splits)
    qed
  qed
qed

lemma sfifo_reply:
  assumes ok: "sfifo_ok sent s" and inv: "sv_inv n s" and op: "\<not> sv_closed s"
    and ex: "grpc_r_server2_reply (Some s) cid response code message md = Inr (v, s')"
  shows "sfifo_ok sent s'"
proof -
  have fin: "sfifo_ok sent (sv_store a (pump_locked a (s, c\<lparr>sc_replied := True, sc_ctx := x, sc_final_write := w,
      sc_has_final_write := b, sc_final_status := y\<rparr>)))" if "sv_heap s a = Some c" for a c x w b y
    using that by (intro pump_store_same [OF ok inv that]) (simp_all add: swaiting_def)
  have err: "sfifo_ok sent (sv_store a (pump_locked a (s, c\<lparr>sc_replied := True, sc_ctx := x,
      sc_has_final_write := b, sc_final_status := y\<rparr>)))" if "sv_heap s a = Some c" for a c x b y
    using that by (intro pump_store_same [OF ok inv that]) (simp_all add: swaiting_def)
  from ex op ok show ?thesis
    by (auto simp: grpc_r_server2_reply_def get_server_def Let_def rbind_Inr_iff fin err elim!: with_call_cases
        split: if_splits)
qed

lemma sfifo_finish:
  assumes ok: "sfifo_ok sent s" and inv: "sv_inv n s" and op: "\<not> sv_closed s"
    and ex: "grpc_r_server2_finish (Some s) cid code message md drain = Inr (v, s')"
  shows "sfifo_ok sent s'"
proof -
  have fin: "sfifo_ok sent (sv_store a (pump_locked a (s, c1\<lparr>sc_ctx := x, sc_has_final_write := b, sc_final_status := y\<rparr>)))"
    if c: "sv_heap s a = Some c" and c1: "(if \<not> drain then discard_queue (c\<lparr>sc_replied := True\<rparr>) else Inr (c\<lparr>sc_replied := True\<rparr>)) = Inr c1"
    for a c c1 x b y
  proof -
    from c1 have "sc_replied c1" "sc_dead c1 = sc_dead c" "prefix (swaiting c1) (swaiting c)"
      by (auto simp: discard_queue_def swaiting_def split: if_splits list.splits)
    then have "sc_replied c1" "sc_dead c1 = sc_dead c" and
      sub: "prefix (swritten a (sv_log s) @ swaiting c1) xs" if "prefix (swritten a (sv_log s) @ swaiting c) xs" for xs
      using prefix_order.trans [OF _ that, of "swritten a (sv_log s) @ swaiting c1"] by simp_all
    moreover have "swaiting (c1\<lparr>sc_ctx := x, sc_has_final_write := b, sc_final_status := y\<rparr>) = swaiting c1"
      by (simp add: swaiting_def)
    ultimately have "sfifo a (sent_to a (sent @ [])) (s, c1\<lparr>sc_ctx := x, sc_has_final_write := b, sc_final_status := y\<rparr>)"
      using sfifo_okD(2) [OF ok c] by (auto simp: sfifo_def intro: sub)
    from pump_store_fifo [OF ok inv c this] show ?thesis by simp
  qed
  from ex op ok show ?thesis
    by (auto simp: grpc_r_server2_finish_def get_server_def Let_def rbind_Inr_iff fin elim!: with_call_cases
        split: if_splits)
qed

lemma sfifo_read_cancel:
  assumes ok: "sfifo_ok sent s" and inv: "sv_inv n s" and op: "\<not> sv_closed s"
  shows "grpc_r_server2_read (Some s) cid = Inr (v, s') \<Longrightarrow> sfifo_ok sent s'"
    and "grpc_r_server2_cancel (Some s) cid = Inr (v, s') \<Longrightarrow> sfifo_ok sent s'"
proof -
  have st: "sfifo_ok sent (sv_store a (s1, c1))" if c: "sv_heap s a = Some c" and
    s1: "sv_next_addr s1 = sv_next_addr s" "sv_heap s1 = sv_heap s" "\<And>b. swritten b (sv_log s1) = swritten b (sv_log s)" and
    c1: "sc_dead c1 = sc_dead c" "sc_replied c1 = sc_replied c" "swaiting c1 = swaiting c" for a c s1 c1
  proof -
    have "sfifo a (sent_to a (sent @ [])) (s1, c1)" using sfifo_okD(2) [OF ok c] s1 c1 by (simp add: sfifo_def)
    from sfifo_ok_store [OF ok sheap_okD(3) [OF sv_invD(1) [OF inv] c] this s1(3)] s1 show ?thesis
      by (simp add: sv_store_def)
  qed
  have r: "sfifo_ok sent (sv_store a (sv_post a SV_read SOp_Read s, c\<lparr>sc_read_inflight := True, sc_pending := sc_pending c + 1\<rparr>))"
    if "sv_heap s a = Some c" for a c
    using that by (intro st [OF that]) (simp_all add: sv_post_def swaiting_def)
  have x: "sfifo_ok sent (sv_store a (s, c\<lparr>sc_ctx := y\<rparr>))" if "sv_heap s a = Some c" for a c y
    using that by (intro st [OF that]) (simp_all add: swaiting_def)
  show "grpc_r_server2_read (Some s) cid = Inr (v, s') \<Longrightarrow> sfifo_ok sent s'"
    using op ok by (auto simp: grpc_r_server2_read_def get_server_def Let_def r elim!: with_call_cases split: if_splits)
  show "grpc_r_server2_cancel (Some s) cid = Inr (v, s') \<Longrightarrow> sfifo_ok sent s'"
    using op ok by (auto simp: grpc_r_server2_cancel_def get_server_def x elim!: with_call_cases split: if_splits)
qed

lemma sfifo_exec:
  assumes "sfifo_ok sent s" and "sv_inv n s" and ex: "sv_exec op (Some s) = Inr (v, s')"
  shows "sfifo_ok (sent @ sv_accepted op v s) s'"
  using ex sfifo_reply [OF assms(1,2) exec_sopen [OF ex]] sfifo_finish [OF assms(1,2) exec_sopen [OF ex]]
    sfifo_send [OF assms(1,2) exec_sopen [OF ex]] sfifo_read_cancel [OF assms(1,2) exec_sopen [OF ex]]
  by (cases op) (simp_all add: sv_exec_def sv_accepted_def [of "Sv_reply _ _ _ _ _"] sv_accepted_def [of "Sv_read _"]
      sv_accepted_def [of "Sv_cancel _"] sv_accepted_def [of "Sv_finish _ _ _ _ _"])

section \<open>Every reachable state\<close>

lemma sv_good_inv: "sv_good s \<Longrightarrow> (\<And>n. sv_inv n s \<Longrightarrow> P) \<Longrightarrow> P"
  by (auto simp: sv_good_def)

interpretation svf: safe_queue "sv_found want" sv_drain sv_handle sv_wake "\<lambda>s. wake_ok (sv_wake s)"
  sv_enabled "\<lambda>s. swait_inv h d k s \<and> sfifo_ok sent s" sv_extends for want h d k sent
proof unfold_locales
  fix s s' t
  show "swait_inv h d k s \<and> sfifo_ok sent s \<Longrightarrow> swait_inv h d k (sv_drain s) \<and> sfifo_ok sent (sv_drain s)"
    using svq.inv_drain [of h d k s] sfifo_ok_cong [of "sv_drain s" s] by (simp add: sv_drain_def)
  show "\<exists>s'. sv_handle t s = Inr s' \<and> swait_inv h d k s' \<and> sfifo_ok sent s'"
    if w: "swait_inv h d k s \<and> sfifo_ok sent s" and en: "sv_enabled t s"
  proof -
    from svq.handle_safe [OF conjunct1 [OF w] en] obtain s' where s': "sv_handle t s = Inr s'" "swait_inv h d k s'" by blast
    from w obtain n where "sv_inv n s" by (auto simp: swait_inv_def sv_good_def)
    with sfifo_handle [OF conjunct2 [OF w] this _ s'(1)] en s' show ?thesis by (auto simp: sv_enabled_def)
  qed
  show "sv_handle t s = Inr s' \<Longrightarrow> sv_extends s s'" by (rule svq.extends_handle)
  show "sv_extends s (sv_drain s)" by (rule svq.extends_drain)
qed (auto simp: sv_extends_def)

definition sfifo_world :: "sv_world \<Rightarrow> bool" where
  "sfifo_world w \<longleftrightarrow> sworld_ok w \<and> sfifo_ok (sw_sent w) (sw_server w)"

lemma sfifo_poll:
  assumes "sv_good s" and "sfifo_ok sent s" and "sv_poll_locked only_id maxn s = (b, s')"
  shows "sfifo_ok sent s'"
  using sv_poll_good [OF assms(1), of only_id maxn] assms(2,3) sfifo_ok_cong [of s' s] by auto

lemma sfifo_world_step:
  assumes ok: "sfifo_world w" and st: "sv_step w w'"
  shows "sfifo_world w'"
proof -
  from ok have wk: "sworld_ok w" and ff: "sfifo_ok (sw_sent w) (sw_server w)" by (simp_all add: sfifo_world_def)
  from wk have g: "sv_good (sw_server w)" and hist: "shist_ok (sw_queued w) (sw_taken w) (sw_server w)"
    by (simp_all add: sworld_ok_def)
  from g obtain n where inv: "sv_inv n (sw_server w)" by (auto simp: sv_good_def)
  from st have "sfifo_ok (sw_sent w') (sw_server w')"
  proof cases
    case (called op v s')
    with sfifo_exec [OF ff inv called(3)] show ?thesis by simp
  next
    case (completed tc s')
    with sfifo_handle [OF ff inv _ completed(3)] show ?thesis by (simp add: sv_enabled_def)
  next
    case (polled turns timeout want s1 reads maxn batch s' mk)
    from polled(4) have wait: "sv_wait timeout want turns (sw_server w) = Some (Inr s1)" by (simp add: sv_wait_reads_wait)
    have "swait_inv (sw_queued w) (sw_taken w) (length (sv_ready (sw_server w))) (sw_server w)"
      using g hist by (simp add: swait_inv_def)
    from svf.wait_safe [OF conjI [OF this ff] polled(3), of want timeout] wait g ff
    have "sv_good s1" "sfifo_ok (sw_sent w) s1" by (auto simp: sv_wait_def swait_inv_def split: if_splits)
    from sfifo_poll [OF this polled(5)] polled(1) show ?thesis by simp
  next
    case closing
    with ff sfifo_ok_cong [of "rserver_shutdown_begin (sw_server w)" "sw_server w"] show ?thesis
      by (simp add: rserver_shutdown_begin_def)
  qed
  with sworld_step [OF wk st] show ?thesis by (simp add: sfifo_world_def)
qed

lemma sfifo_created:
  assumes "sv_created w"
  shows "sfifo_world w"
proof -
  from assms obtain r wr cap port o' where
    cr: "grpc_r_server2_create (Some (r, wr, cap)) (Some port) o' = (Inr (sw_server w), [])"
    by (auto simp: sv_created_def)
  have "\<exists>s0. fst (grpc_r_server2_create (Some (r, wr, cap)) (Some port) o') = Inr (post_accepts_locked s0) \<and>
      sv_log s0 = [] \<and> sv_heap s0 = Map.empty"
    by (simp add: grpc_r_server2_create_def Let_def wake_open_def) (intro conjI impI exI, (rule refl | simp)+)
  with cr obtain s0 where "sw_server w = post_accepts_locked s0" "sv_log s0 = []" "sv_heap s0 = Map.empty" by auto
  moreover from this have "sfifo_ok [] s0" by (simp add: sfifo_ok_def)
  ultimately show ?thesis
    using assms svw.inv_init [OF assms] sfifo_post_accepts [of "[]" s0] by (simp add: sfifo_world_def sv_created_def)
qed

interpretation svwf: bounded_system sv_created sv_step "\<lambda>_. 0" 1 sfifo_world
proof unfold_locales
  fix w w'
  show "sv_created w \<Longrightarrow> sfifo_world w" by (rule sfifo_created)
  show "sfifo_world w \<Longrightarrow> sv_step w w' \<Longrightarrow> sfifo_world w'" by (rule sfifo_world_step)
qed simp

text \<open>
  C10: Messages are written in the order in which R's sends were accepted, each exactly once: for
  every call that ever existed the writes started on the library are a prefix of the accepted
  sends; for an open call they are followed by exactly the messages that wait in its queue; and
  when the terminal operation of a call that was not cut short is posted, nothing of its queue is
  left to be written.
\<close>

theorem server_writes_in_order:
  assumes "sv_reach w" and "s = sw_server w"
  shows "(\<forall>a. prefix (swritten a (sv_log s)) (sent_to a (sw_sent w))) \<and>
    (\<forall>a c. sv_heap s a = Some c \<and> \<not> sc_dead c \<and> \<not> sc_replied c \<longrightarrow>
       sent_to a (sw_sent w) = swritten a (sv_log s) @
         (if Sv_tag a SV_write \<in> set (sv_cq s) then tl (sc_write_queue c) else sc_write_queue c)) \<and>
    (\<forall>a c. sv_heap s a = Some c \<and> sc_finish_posted c \<longrightarrow> sc_write_queue c = [] \<and> Sv_tag a SV_write \<notin> set (sv_cq s))"
proof (intro conjI allI impI)
  from svwf.reachable_inv [OF assms(1)] have ff: "sfifo_ok (sw_sent w) s" and g: "sv_good s"
    by (simp_all add: sfifo_world_def sworld_ok_def assms(2))
  from g obtain n where inv: "sv_inv n s" by (auto simp: sv_good_def)
  note hp = sv_invD(1) [OF inv]
  have call: "call_wf c \<and> call_tags (scnt s a) c \<or> sc_id c = 0 \<and> slot_ok (scnt s a) c" if "sv_heap s a = Some c" for a c
    using sheap_okD(4,5) [OF hp that] by (cases "sc_id c = 0") (auto simp: stored_ok_def call_ok_def)
  have wi: "sc_write_inflight c \<longleftrightarrow> Sv_tag a SV_write \<in> set (sv_cq s)" if "sv_heap s a = Some c" for a c
  proof -
    have "sc_write_inflight c \<longleftrightarrow> 0 < scnt s a SV_write"
      using call [OF that] by (auto simp: call_tags_def slot_ok_def sv_call_init_def)
    then show ?thesis by (simp add: scnt_def count_list_pos_iff)
  qed
  show "prefix (swritten a (sv_log s)) (sent_to a (sw_sent w))" for a by (rule sfifo_okD(1) [OF ff])
  show "sent_to a (sw_sent w) = swritten a (sv_log s) @
      (if Sv_tag a SV_write \<in> set (sv_cq s) then tl (sc_write_queue c) else sc_write_queue c)"
    if c: "sv_heap s a = Some c \<and> \<not> sc_dead c \<and> \<not> sc_replied c" for a c
    using sfifo_okD(2) [OF ff, of a c] c wi [of a c] by (simp add: sfifo_def swaiting_def)
  fix a c assume c: "sv_heap s a = Some c \<and> sc_finish_posted c"
  then show "sc_write_queue c = []" "Sv_tag a SV_write \<notin> set (sv_cq s)"
    using call [of a c] wi [of a c] by (auto simp: call_wf_def slot_ok_def sv_call_init_def)
qed

theorem server_writes_in_order_witness:
  "sent_to 0 (sw_sent streaming) = [''a'', ''b''] \<and> prefix (swritten 0 (sv_log (sw_server streaming))) [''a'', ''b'']"
proof -
  have "sent_to 0 (sw_sent streaming) = [''a'', ''b'']"
    by (simp add: streaming_def requested_def served_defs Let_def sent_to_def)
  with server_writes_in_order [OF reach_streaming refl] show ?thesis by metis
qed

end
