(* ===== verification/Server_Streams.thy ===== *)
theory Server_Streams
  imports Server_Fifo
begin

text \<open>
  The messages that the library hands over with completed reads of a call are queued for R one by
  one, unchanged and in that order: the first as the request, the others as stream messages.
\<close>

section \<open>What is read is what is queued\<close>

definition requests_of :: "u64 \<Rightarrow> sv_event list \<Rightarrow> string list" where
  "requests_of i evs = map se_request (filter (\<lambda>e. se_type e \<in> {0, 2}) (filter (\<lambda>e. se_id e = i) evs))"

lemma requests_of_simps [simp]: "requests_of i [] = []" "requests_of i (xs @ ys) = requests_of i xs @ requests_of i ys"
  by (simp_all add: requests_of_def)

definition sreads :: "sv_event list \<Rightarrow> (u64 \<times> string list option) list \<Rightarrow> rserver \<Rightarrow> bool" where
  "sreads h g s \<longleftrightarrow>
     (\<forall>i. prefix (requests_of i h) (map message_text (reads_of i g))) \<and>
     (\<forall>a c. sv_heap s a = Some c \<longrightarrow> sc_id c \<noteq> 0 \<longrightarrow> \<not> sc_dead c \<longrightarrow>
        requests_of (sc_id c) h = map message_text (reads_of (sc_id c) g)) \<and>
     (\<forall>x \<in> set g. unat (fst x) < unat (sv_next_id s))"

lemma sreadsD:
  assumes "sreads h g s"
  shows "prefix (requests_of i h) (map message_text (reads_of i g))"
    and "sv_heap s a = Some c \<Longrightarrow> sc_id c \<noteq> 0 \<Longrightarrow> \<not> sc_dead c \<Longrightarrow> requests_of (sc_id c) h = map message_text (reads_of (sc_id c) g)"
    and "x \<in> set g \<Longrightarrow> unat (fst x) < unat (sv_next_id s)"
  using assms unfolding sreads_def by blast+

text \<open>What one completion queues.\<close>

lemma section_requests:
  "\<exists>evs. sv_ready (fst (call_section a k cp (s, c))) = sv_ready s @ evs \<and>
    requests_of i evs = (if k = SV_read \<and> sp_ok cp \<and> \<not> sc_dead c \<and> i = sc_id c then [message_text (sp_dump cp)] else [])"
proof (cases k)
  case SV_read
  then show ?thesis
    by (intro exI [of _ "if sp_ok cp \<and> \<not> sc_dead c
          then [if sc_delivered c then stream_msg_event (sc_id c) cp else request_event (sc_id c) cp]
          else if sc_delivered c \<and> \<not> sc_dead c then [plain_event 3 (sc_id c)] else []"])
      (auto simp: call_section_def read_section_def Let_def push_ready requests_of_def stream_msg_event_def request_event_def
        plain_event_def message_text_def)
next
  case SV_write
  then show ?thesis
    by (intro exI [of _ "if sp_ok cp \<and> \<not> sc_dead c \<and> tl (sc_write_queue c) = [] \<and> \<not> sc_replied c
          then [plain_event 4 (sc_id c)] else []"])
      (auto simp: call_section_def write_section_def Let_def push_ready requests_of_def plain_event_def)
next
  case SV_done
  then show ?thesis
    by (intro exI [of _ "if sc_delivered c \<and> \<not> sc_replied c then [plain_event 1 (sc_id c)] else []"])
      (auto simp: call_section_def done_section_def push_ready requests_of_def plain_event_def)
qed (simp_all add: call_section_def)

lemma section_dead: "sc_dead c \<Longrightarrow> sc_dead (snd (call_section a k cp (s, c)))"
  by (cases k) (simp_all add: call_section_def read_section_def write_section_def done_section_def Let_def pump_locked_def)

lemma sreads_call:
  assumes sr: "sreads h g s" and inv: "sv_inv n s" and t: "Sv_tag a k \<in> set (sv_cq s)" and k: "k \<noteq> SV_accept"
    and hd: "sv_handle (Sv_tag a k, cp) s = Inr s'"
  shows "sreads (h @ drop (length (sv_ready s)) (sv_ready s')) (g @ sv_filled (Sv_tag a k, cp) s) s'"
proof -
  note hp = sv_invD(1) [OF inv]
  from t have n: "0 < scnt s a k" by (simp add: scnt_def count_list_pos_iff)
  then obtain c where c: "sv_heap s a = Some c" using sheap_okD(6) [OF hp, of a k] by (cases "sv_heap s a") auto
  have nz: "sc_id c \<noteq> 0" using sheap_okD(4) [OF hp c] n k by (auto simp: slot_ok_def)
  let ?p = "call_section a k cp (sv_taken_off a k s, sv_popped c)" and ?evs = "drop (length (sv_ready s)) (sv_ready s')"
  have "k = SV_write \<Longrightarrow> sc_write_queue c \<noteq> []"
    using sheap_okD(5) [OF hp c nz] n by (auto simp: stored_ok_def call_ok_def call_tags_def call_wf_def)
  with sv_handle_section [OF c k, of cp] hd have s': "s' = refills k (maybe_free_locked a ?p)" by simp
  have rq: "requests_of i ?evs = (if k = SV_read \<and> sp_ok cp \<and> \<not> sc_dead c \<and> i = sc_id c then [message_text (sp_dump cp)] else [])" for i
    using section_requests [of a k cp "sv_taken_off a k s" "sv_popped c" i] by (auto simp: s')
  have fl: "reads_of i (sv_filled (Sv_tag a k, cp) s) = (if k = SV_read \<and> sp_ok cp \<and> i = sc_id c then [sp_dump cp] else [])" for i
    by (auto simp: sv_filled_def c)
  have tch: "sv_touches a (sc_id c) (sv_taken_off a k s) (fst ?p)" "sc_id (snd ?p) = sc_id c"
    using call_section_frame [where a = a and c = "sv_popped c" and s = "sv_taken_off a k s" and k = k and cp = cp] by simp_all
  have nid: "sv_next_id s' = sv_next_id s" using sv_touches_frame(2) [OF tch(1)] by (simp add: s')
  have eq: "requests_of (sc_id c) h = map message_text (reads_of (sc_id c) g)" if "\<not> sc_dead c" by (rule sreadsD(2) [OF sr c nz that])
  show ?thesis
    unfolding sreads_def nid
  proof (intro conjI allI impI ballI)
    fix i show "prefix (requests_of i (h @ ?evs)) (map message_text (reads_of i (g @ sv_filled (Sv_tag a k, cp) s)))"
      using sreadsD(1) [OF sr, of i] eq by (auto simp: rq fl)
  next
    fix b c' assume b: "sv_heap s' b = Some c'" "sc_id c' \<noteq> 0" "\<not> sc_dead c'"
    show "requests_of (sc_id c') (h @ ?evs) = map message_text (reads_of (sc_id c') (g @ sv_filled (Sv_tag a k, cp) s))"
    proof (cases "sc_id c' = sc_id c")
      case True
      from section_objects [OF hp c nz tch(1), of b c'] b(1) True have "c' = snd ?p" by (simp add: s')
      with b(3) section_dead [of "sv_popped c" a k cp "sv_taken_off a k s"] have "\<not> sc_dead c" by auto
      with eq True show ?thesis by (simp add: rq fl)
    next
      case False
      have "b \<noteq> a" using False b(1,2) maybe_free_calls [of a ?p b c'] refills_calls [of k "maybe_free_locked a ?p" b c'] tch(2)
        by (auto simp: s')
      with b(1,2) maybe_free_calls [of a ?p b c'] refills_calls [of k "maybe_free_locked a ?p" b c'] have "sv_heap s b = Some c'"
        using sv_touches_frame(6) [OF tch(1)] by (simp add: s')
      with sreadsD(2) [OF sr this] b(2,3) False show ?thesis by (simp add: rq fl)
    qed
  next
    fix x assume x: "x \<in> set (g @ sv_filled (Sv_tag a k, cp) s)"
    have "unat (sc_id c) < unat (sv_next_id s)" using sv_invD(3) [OF inv] c nz by (auto simp: sids_ok_def)
    moreover have "sv_filled (Sv_tag a k, cp) s = (if k = SV_read \<and> sp_ok cp then [(sc_id c, sp_dump cp)] else [])"
      by (simp add: sv_filled_def c)
    then have "fst x = sc_id c" if "x \<in> set (sv_filled (Sv_tag a k, cp) s)" using that by auto
    ultimately show "unat (fst x) < unat (sv_next_id s)" using x sreadsD(3) [OF sr, of x] by (metis UnE set_append)
  qed
qed

text \<open>An accept brings a call of which nothing has been read.\<close>

lemma sreads_accept:
  assumes sr: "sreads h g s" and inv: "sv_inv n s" and hist: "shist_ok h d s" and t: "Sv_tag a SV_accept \<in> set (sv_cq s)"
    and id: "unat (sv_next_id s) < 2 ^ 64 - 1" and hd: "sv_handle (Sv_tag a SV_accept, cp) s = Inr s'"
  shows "sreads (h @ drop (length (sv_ready s)) (sv_ready s')) (g @ sv_filled (Sv_tag a SV_accept, cp) s) s'"
proof -
  from accept_counts(2) [OF inv t] have sl: "sv_heap s a = Some (sv_call_init\<lparr>sc_pending := 1\<rparr>)" by (auto simp: slot_ok_def)
  note h' = run_accept_ok [OF sl, of cp, unfolded hd]
  have fl: "sv_filled (Sv_tag a SV_accept, cp) s = []" by (simp add: sv_filled_def)
  show ?thesis
  proof (cases "sp_ok cp")
    case True
    with h' have s': "s' = post_accepts_locked (accepted_state a s)" by simp
    have rd: "sv_ready s' = sv_ready s" "sv_next_id s' = sv_next_id s + 1" by (simp_all add: s' accepted_state_def)
    have nid: "unat (sv_next_id s + 1) = unat (sv_next_id s) + 1" using id by (rule unat_plus_one_u64)
    have new: "requests_of (sv_next_id s) h = []" "reads_of (sv_next_id s) g = []"
      using shist_okD(2) [OF hist] sreadsD(3) [OF sr] by (fastforce simp: requests_of_def reads_of_def filter_empty_conv)+
    have "requests_of (sc_id c') h = map message_text (reads_of (sc_id c') g)"
      if b: "sv_heap s' b = Some c'" "sc_id c' \<noteq> 0" "\<not> sc_dead c'" for b c'
    proof (cases "b = a")
      case True
      with post_accepts_calls [of "accepted_state a s" b c'] b(1,2) have "c' = accepted_call s" by (simp add: s' accepted_state_def)
      then have "sc_id c' = sv_next_id s" by (simp add: accepted_call_def)
      with new show ?thesis by simp
    next
      case False
      with post_accepts_calls [of "accepted_state a s" b c'] b(1,2) have "sv_heap s b = Some c'" by (simp add: s' accepted_state_def)
      from sreadsD(2) [OF sr this b(2,3)] show ?thesis .
    qed
    with sreadsD(1,3) [OF sr] show ?thesis unfolding sreads_def fl rd by (auto simp: nid less_Suc_eq)
  next
    case False
    with h' have s': "s' = (sv_taken_off a SV_accept s)\<lparr>sv_accepts_outstanding := sv_accepts_outstanding s - 1,
      sv_heap := (sv_heap s)(a := None)\<rparr>" by simp
    with sr show ?thesis by (auto simp: sreads_def fl)
  qed
qed

lemma sreads_handle:
  assumes "sreads h g s" and "sv_good s" and "shist_ok h d s" and en: "sv_enabled tc s" and h: "sv_handle tc s = Inr s'"
  shows "sreads (h @ drop (length (sv_ready s)) (sv_ready s')) (g @ sv_filled tc s) s'"
proof -
  from assms(2) obtain n where inv: "sv_inv n s" by (auto simp: sv_good_def)
  obtain a k cp where tc: "tc = (Sv_tag a k, cp)" by (metis prod.collapse sv_tag.collapse)
  from en tc have "Sv_tag a k \<in> set (sv_cq s)" "unat (sv_next_id s) < 2 ^ 64 - 1" by (simp_all add: sv_enabled_def)
  with sreads_call [OF assms(1) inv, of a k cp s'] sreads_accept [OF assms(1) inv assms(3), of a cp s'] h tc show ?thesis
    by (cases "k = SV_accept") simp_all
qed

lemma sreads_cong:
  assumes sr: "sreads h g s" and "sv_next_id s' = sv_next_id s"
    and "\<And>a c. sv_heap s' a = Some c \<Longrightarrow> \<exists>c0. sv_heap s a = Some c0 \<and> sc_id c0 = sc_id c \<and> sc_dead c0 = sc_dead c"
  shows "sreads h g s'"
proof -
  have "requests_of (sc_id c) h = map message_text (reads_of (sc_id c) g)"
    if "sv_heap s' a = Some c" "sc_id c \<noteq> 0" "\<not> sc_dead c" for a c
    using assms(3) [OF that(1)] sreadsD(2) [OF sr, of a] that(2,3) by auto
  with sreadsD(1,3) [OF sr] assms(2) show ?thesis by (simp add: sreads_def)
qed

section \<open>Every reachable state\<close>

interpretation svr: observed_queue "sv_found want" sv_drain sv_handle sv_wake "\<lambda>s. wake_ok (sv_wake s)" sv_enabled sv_filled
  "\<lambda>s g. swait_inv h d k s \<and> sreads (h @ drop k (sv_ready s)) (g0 @ g) s" for want h d k g0
proof unfold_locales
  fix s g t
  let ?I = "\<lambda>s g. swait_inv h d k s \<and> sreads (h @ drop k (sv_ready s)) (g0 @ g) s"
  show "?I (sv_drain s) g" if I: "?I s g"
  proof -
    from I have "sreads (h @ drop k (sv_ready s)) (g0 @ g) (sv_drain s)" by (auto simp: sv_drain_def intro: sreads_cong [of _ _ s])
    with I svq.inv_drain [of h d k s] show ?thesis by (simp add: sv_drain_def)
  qed
  show "\<exists>s'. sv_handle t s = Inr s' \<and> ?I s' (g @ sv_filled t s)" if I: "?I s g" and en: "sv_enabled t s"
  proof -
    from svq.handle_safe [OF conjunct1 [OF I] en] obtain s' where s': "sv_handle t s = Inr s'" "swait_inv h d k s'" by blast
    from I have g: "sv_good s" "k \<le> length (sv_ready s)" "shist_ok (h @ drop k (sv_ready s)) d s" by (simp_all add: swait_inv_def)
    from sv_handle_advances [OF s'(1)] obtain evs where "sv_ready s' = sv_ready s @ evs" by (auto simp: sv_advances_def)
    with sreads_handle [OF conjunct2 [OF I] g(1,3) en s'(1)] g(2) s' show ?thesis by auto
  qed
qed

definition sreads_world :: "sv_world \<Rightarrow> bool" where
  "sreads_world w \<longleftrightarrow> sworld_ok w \<and> sreads (sw_queued w) (sw_reads w) (sw_server w)"

lemma sreads_wait:
  assumes ok: "sreads_world w" and t: "turns_ok sv_enabled sv_drain sv_handle turns (sw_server w)"
    and s1: "sv_wait_reads timeout want turns (sw_server w) = Some (Inr (s1, reads))"
  shows "sv_good s1 \<and> sreads (sw_queued w @ drop (length (sv_ready (sw_server w))) (sv_ready s1)) (sw_reads w @ reads) s1"
proof (cases "timeout = 0")
  case True
  with s1 ok show ?thesis by (simp add: sv_wait_reads_def sreads_world_def sworld_ok_def)
next
  case False
  let ?k = "length (sv_ready (sw_server w))"
  have "swait_inv (sw_queued w) (sw_taken w) ?k (sw_server w) \<and>
      sreads (sw_queued w @ drop ?k (sv_ready (sw_server w))) (sw_reads w @ []) (sw_server w)"
    using ok by (simp add: sreads_world_def sworld_ok_def swait_inv_def)
  from svr.observed_wait_inv [OF this t, of want timeout s1 reads] s1 False show ?thesis
    by (simp add: sv_wait_reads_def swait_inv_def)
qed

lemma sreads_world_step:
  assumes ok: "sreads_world w" and st: "sv_step w w'"
  shows "sreads_world w'"
proof -
  from ok have wk: "sworld_ok w" and sr: "sreads (sw_queued w) (sw_reads w) (sw_server w)" by (simp_all add: sreads_world_def)
  from wk have g: "sv_good (sw_server w)" and hist: "shist_ok (sw_queued w) (sw_taken w) (sw_server w)"
    by (simp_all add: sworld_ok_def)
  from st have "sreads (sw_queued w') (sw_reads w') (sw_server w')"
  proof cases
    case (called op v s')
    from exec_silent [OF called(3)] have "sreads (sw_queued w) (sw_reads w) s'"
      by (intro sreads_cong [OF sr]) (auto simp: silent_def)
    with called(1) show ?thesis by simp
  next
    case (completed tc s')
    with sreads_handle [OF sr g hist completed(2,3)] show ?thesis by simp
  next
    case (polled turns timeout want s1 reads maxn batch s' mk)
    from sreads_wait [OF ok polled(3,4)] have g1: "sv_good s1"
      and r1: "sreads (sw_queued w @ drop (length (sv_ready (sw_server w))) (sv_ready s1)) (sw_reads w @ reads) s1" by simp_all
    from sv_poll_good [OF g1, of want maxn] polled(5) have "sv_heap s' = sv_heap s1" "sv_next_id s' = sv_next_id s1" by auto
    with sreads_cong [OF r1, of s'] polled(1) show ?thesis by simp
  next
    case closing
    with sreads_cong [OF sr, of "rserver_shutdown_begin (sw_server w)"] show ?thesis by (simp add: rserver_shutdown_begin_def)
  qed
  with sworld_step [OF wk st] show ?thesis by (simp add: sreads_world_def)
qed

lemma sreads_created:
  assumes "sv_created w"
  shows "sreads_world w"
proof -
  have "sfifo_world w" using assms by (rule sfifo_created)
  then have ok: "sworld_ok w" by (simp add: sfifo_world_def)
  from assms have e: "sw_queued w = []" "sw_reads w = []" by (simp_all add: sv_created_def)
  from ok e show ?thesis by (simp add: sreads_world_def sreads_def)
qed

interpretation svwr: bounded_system sv_created sv_step "\<lambda>_. 0" 1 sreads_world
proof unfold_locales
  fix w w'
  show "sv_created w \<Longrightarrow> sreads_world w" by (rule sreads_created)
  show "sreads_world w \<Longrightarrow> sv_step w w' \<Longrightarrow> sreads_world w'" by (rule sreads_world_step)
qed simp

end
