(* ===== verification/Shim.thy ===== *)
theory Shim
  imports Rgrpc_Prelude
begin

text \<open>
  The lifetime layer: \<^verbatim>\<open>src/shim.cpp\<close> (one gRPC initialisation for the life of the library, and the
  channel, completion queue and server objects of the first increment), the routine table of
  \<^verbatim>\<open>src/routines.h\<close> that \<^verbatim>\<open>src/init.cpp\<close> registers, and the stub build of \<^verbatim>\<open>src/stub.cpp\<close>.

  External pointers are \<open>addr option\<close>: \<open>None\<close> is a cleared one.  The objects live in a store, so
  that deleting twice or using a deleted object shows as a fault.  \<open>sh_grpc_refs\<close> counts the
  \<^verbatim>\<open>grpc_init\<close> calls that are not undone, and \<open>sh_acts\<close> lists what was done to the parts of a
  server, in order.
\<close>

section \<open>Data\<close>

text \<open>A completion queue as the shim sees it: shut down or not, and how many events are outstanding.\<close>

record shim_cq =
  q_shut :: bool
  q_events :: nat

record spike_server =
  ss_cq :: "shim_cq option"
  ss_server :: bool
  ss_port :: int

datatype shim_obj = Obj_channel string | Obj_cq shim_cq | Obj_server spike_server

datatype shim_act = Server_Shutdown | Cq_Shutdown | Cq_Drained | Server_Destroyed | Cq_Destroyed | Service_Destroyed

record shim =
  sh_library_up :: bool
  sh_grpc_refs :: nat
  sh_objs :: "addr \<rightharpoonup> shim_obj"
  sh_next :: addr
  sh_acts :: "shim_act list"

section \<open>Availability, version and library lifetime\<close>

definition grpc_r_available :: sexp where
  "grpc_r_available = R_Logical True"

definition grpc_r_library_init :: "shim \<Rightarrow> shim" where
  "grpc_r_library_init s = s\<lparr>sh_grpc_refs := sh_grpc_refs s + 1, sh_library_up := True\<rparr>"

definition grpc_r_library_shutdown :: "shim \<Rightarrow> sexp \<times> shim" where
  "grpc_r_library_shutdown s =
     (R_NilValue,
      if sh_library_up s then s\<lparr>sh_library_up := False, sh_grpc_refs := sh_grpc_refs s - 1\<rparr> else s)"

text \<open>\<open>version\<close> is what \<^verbatim>\<open>grpc::Version()\<close> returns.\<close>

definition grpc_r_version :: "string \<Rightarrow> sexp" where
  "grpc_r_version version = R_String [version] None"

text \<open>\<^verbatim>\<open>R_init_rgrpc\<close> registers the routines and initialises; \<^verbatim>\<open>R_unload_rgrpc\<close> shuts down.\<close>

definition R_init_rgrpc :: "shim \<Rightarrow> shim" where
  "R_init_rgrpc s = grpc_r_library_init s"

definition R_unload_rgrpc :: "shim \<Rightarrow> shim" where
  "R_unload_rgrpc s = snd (grpc_r_library_shutdown s)"

section \<open>Channels\<close>

definition delete_obj :: "addr \<Rightarrow> shim \<Rightarrow> shim res" where
  "delete_obj p s = rbind (deref (sh_objs s) p) (\<lambda>_. Inr (s\<lparr>sh_objs := (sh_objs s)(p := None)\<rparr>))"

definition new_obj :: "shim_obj \<Rightarrow> shim \<Rightarrow> addr \<times> shim" where
  "new_obj ob s = (sh_next s, s\<lparr>sh_objs := (sh_objs s)(sh_next s \<mapsto> ob), sh_next := sh_next s + 1\<rparr>)"

definition channel_finalizer :: "addr option \<Rightarrow> shim \<Rightarrow> (addr option \<times> shim) res" where
  "channel_finalizer xp s =
     (case xp of
        None \<Rightarrow> Inr (None, s)
      | Some p \<Rightarrow> rbind (delete_obj p s) (\<lambda>s. Inr (None, s)))"

definition grpc_r_channel_create :: "string \<Rightarrow> shim \<Rightarrow> addr option \<times> shim" where
  "grpc_r_channel_create target s = (let (p, s) = new_obj (Obj_channel target) s in (Some p, s))"

definition grpc_r_channel_destroy :: "addr option \<Rightarrow> shim \<Rightarrow> (sexp \<times> addr option \<times> shim) res" where
  "grpc_r_channel_destroy xp s = rbind (channel_finalizer xp s) (\<lambda>(xp, s). Inr (R_NilValue, xp, s))"

section \<open>Completion queues\<close>

text \<open>
  \<^verbatim>\<open>cq->Next(&tag, &ok)\<close>: true with an event; false once the queue is shut down and empty; \<open>None\<close>
  when it blocks, because it is empty and not shut down.
\<close>

definition cq_next :: "shim_cq \<Rightarrow> (bool \<times> shim_cq) option" where
  "cq_next q =
     (if 0 < q_events q then Some (True, q\<lparr>q_events := q_events q - 1\<rparr>)
      else if q_shut q then Some (False, q) else None)"

function cq_drain :: "shim_cq \<Rightarrow> shim_cq option" where
  "cq_drain q = (case cq_next q of None \<Rightarrow> None | Some (more_events, q') \<Rightarrow> if more_events then cq_drain q' else Some q')"
  by pat_completeness auto
termination
  by (relation "measure q_events") (auto simp: cq_next_def split: if_splits)

declare cq_drain.simps [simp del]

definition deref_cq :: "addr \<Rightarrow> shim \<Rightarrow> shim_cq res" where
  "deref_cq p s = rbind (deref (sh_objs s) p) (\<lambda>ob. case ob of Obj_cq q \<Rightarrow> Inr q | _ \<Rightarrow> Inl Use_after_free)"

text \<open>The finalizers return \<open>None\<close> when the drain loop blocks for ever.\<close>

definition cq_finalizer :: "addr option \<Rightarrow> shim \<Rightarrow> (addr option \<times> shim) res option" where
  "cq_finalizer xp s =
     (case xp of
        None \<Rightarrow> Some (Inr (None, s))
      | Some p \<Rightarrow>
          (case deref_cq p s of
             Inl e \<Rightarrow> Some (Inl e)
           | Inr q \<Rightarrow>
               map_option (\<lambda>_. rbind (delete_obj p s) (\<lambda>s. Inr (None, s))) (cq_drain (q\<lparr>q_shut := True\<rparr>))))"

definition grpc_r_cq_create :: "shim \<Rightarrow> addr option \<times> shim" where
  "grpc_r_cq_create s = (let (p, s) = new_obj (Obj_cq \<lparr>q_shut = False, q_events = 0\<rparr>) s in (Some p, s))"

definition grpc_r_cq_destroy :: "addr option \<Rightarrow> shim \<Rightarrow> (sexp \<times> addr option \<times> shim) res option" where
  "grpc_r_cq_destroy xp s = map_option (\<lambda>r. rbind r (\<lambda>(xp, s). Inr (R_NilValue, xp, s))) (cq_finalizer xp s)"

section \<open>Servers\<close>

definition act :: "shim_act list \<Rightarrow> shim \<Rightarrow> shim" where
  "act as s = s\<lparr>sh_acts := sh_acts s @ as\<rparr>"

definition deref_server :: "addr \<Rightarrow> shim \<Rightarrow> spike_server res" where
  "deref_server p s = rbind (deref (sh_objs s) p) (\<lambda>ob. case ob of Obj_server v \<Rightarrow> Inr v | _ \<Rightarrow> Inl Use_after_free)"

text \<open>
  The members of a \<^verbatim>\<open>spike_server\<close> are destroyed in the reverse order of their declaration; a
  pointer that was reset has nothing left to destroy.  \<^verbatim>\<open>Server::Shutdown()\<close> without a deadline waits
  for the calls in progress; no call is ever requested on a \<^verbatim>\<open>spike_server\<close>, so there is none to wait
  for and the model lets it return at once.
\<close>

definition delete_server :: "addr \<Rightarrow> spike_server \<Rightarrow> shim \<Rightarrow> shim res" where
  "delete_server p v s =
     rbind (delete_obj p s) (\<lambda>s.
       Inr (act ((if ss_server v then [Server_Destroyed] else []) @
                 (if ss_cq v \<noteq> None then [Cq_Destroyed] else []) @ [Service_Destroyed]) s))"

definition server_finalizer :: "addr option \<Rightarrow> shim \<Rightarrow> (addr option \<times> shim) res option" where
  "server_finalizer xp s =
     (case xp of
        None \<Rightarrow> Some (Inr (None, s))
      | Some p \<Rightarrow>
          (case deref_server p s of
             Inl e \<Rightarrow> Some (Inl e)
           | Inr v \<Rightarrow>
               let s = (if ss_server v then act [Server_Shutdown] s else s)
               in case (case ss_cq v of
                          None \<Rightarrow> Some s
                        | Some q \<Rightarrow> map_option (\<lambda>_. act [Cq_Shutdown, Cq_Drained] s) (cq_drain (q\<lparr>q_shut := True\<rparr>))) of
                    None \<Rightarrow> None
                  | Some s \<Rightarrow>
                      let s = (if ss_server v then act [Server_Destroyed] s else s);
                          s = (if ss_cq v \<noteq> None then act [Cq_Destroyed] s else s);
                          v = v\<lparr>ss_server := False, ss_cq := None\<rparr>
                      in Some (rbind (delete_server p v s) (\<lambda>s. Inr (None, s)))))"

text \<open>\<open>built\<close> is what \<^verbatim>\<open>BuildAndStart\<close> does: \<open>None\<close>, or the port.\<close>

definition grpc_r_server_create :: "string \<Rightarrow> int option \<Rightarrow> shim \<Rightarrow> (addr option \<times> shim) res \<times> shim" where
  "grpc_r_server_create address built s =
     (let (p, s) = new_obj (Obj_server \<lparr>ss_cq = Some \<lparr>q_shut = False, q_events = 0\<rparr>, ss_server = built \<noteq> None,
                              ss_port = (case built of None \<Rightarrow> 0 | Some port \<Rightarrow> port)\<rparr>) s
      in case built of
           None \<Rightarrow>
             (case rbind (deref_server p s) (\<lambda>v. delete_server p v s) of
                Inl e \<Rightarrow> (Inl e, s)
              | Inr s \<Rightarrow> (Inl (Rf_error (''gRPC server failed to start on '' @ [CHR 0x27] @ address @ [CHR 0x27])), s))
         | Some port \<Rightarrow> (Inr (Some p, s), s))"

definition grpc_r_server_port :: "addr option \<Rightarrow> shim \<Rightarrow> sexp res" where
  "grpc_r_server_port xp s =
     (case xp of
        None \<Rightarrow> Inl (Rf_error ''server already destroyed'')
      | Some p \<Rightarrow> rbind (deref_server p s) (\<lambda>v. Inr (R_Integer (ss_port v))))"

definition grpc_r_server_destroy :: "addr option \<Rightarrow> shim \<Rightarrow> (sexp \<times> addr option \<times> shim) res option" where
  "grpc_r_server_destroy xp s = map_option (\<lambda>r. rbind r (\<lambda>(xp, s). Inr (R_NilValue, xp, s))) (server_finalizer xp s)"

section \<open>The routine table and the two builds\<close>

type_synonym routine = "string \<times> nat"

definition RGRPC_GRPC_ROUTINES :: "routine list" where
  "RGRPC_GRPC_ROUTINES =
     [(''grpc_r_version'', 0), (''grpc_r_channel_create'', 1), (''grpc_r_channel_destroy'', 1),
      (''grpc_r_cq_create'', 0), (''grpc_r_cq_destroy'', 1), (''grpc_r_server_create'', 1),
      (''grpc_r_server_port'', 1), (''grpc_r_server_destroy'', 1), (''grpc_r_client_create'', 8),
      (''grpc_r_client_state'', 1), (''grpc_r_client_close'', 1), (''grpc_r_client_fd'', 1),
      (''grpc_r_client_pending'', 1), (''grpc_r_client_poll'', 4), (''grpc_r_call_start'', 6),
      (''grpc_r_call_cancel'', 2), (''grpc_r_server2_create'', 11), (''grpc_r_server2_close'', 1),
      (''grpc_r_server2_fd'', 1), (''grpc_r_server2_port'', 1), (''grpc_r_server2_pending'', 1),
      (''grpc_r_server2_reply'', 6), (''grpc_r_server2_poll'', 4), (''grpc_r_stream_start'', 7),
      (''grpc_r_stream_send'', 3), (''grpc_r_stream_writes_done'', 2), (''grpc_r_server2_read'', 2),
      (''grpc_r_server2_cancel'', 2), (''grpc_r_server2_send'', 3), (''grpc_r_server2_finish'', 6)]"

definition RGRPC_ROUTINES :: "routine list" where
  "RGRPC_ROUTINES = [(''grpc_r_available'', 0), (''grpc_r_library_shutdown'', 0)] @ RGRPC_GRPC_ROUTINES"

text \<open>The argument lists that the macros \<^verbatim>\<open>RGRPC_ARGS_n\<close> can spell.\<close>

definition RGRPC_ARGS :: "nat list" where
  "RGRPC_ARGS = [0, 1, 2, 3, 4, 6, 7, 8, 11]"

text \<open>\<open>None\<close> is the closing entry \<^verbatim>\<open>{NULL, NULL, 0}\<close>.\<close>

definition call_methods :: "routine option list" where
  "call_methods = map Some RGRPC_ROUTINES @ [None]"

text \<open>The routines that the three files of the full build define, with the parameters they declare.\<close>

definition shim_routines :: "routine list" where
  "shim_routines =
     [(''grpc_r_available'', 0), (''grpc_r_library_shutdown'', 0), (''grpc_r_version'', 0),
      (''grpc_r_channel_create'', 1), (''grpc_r_channel_destroy'', 1), (''grpc_r_cq_create'', 0),
      (''grpc_r_cq_destroy'', 1), (''grpc_r_server_create'', 1), (''grpc_r_server_port'', 1),
      (''grpc_r_server_destroy'', 1)]"

definition client_routines :: "routine list" where
  "client_routines =
     [(''grpc_r_client_create'', 8), (''grpc_r_client_state'', 1), (''grpc_r_client_close'', 1),
      (''grpc_r_client_fd'', 1), (''grpc_r_client_pending'', 1), (''grpc_r_call_start'', 6),
      (''grpc_r_call_cancel'', 2), (''grpc_r_stream_start'', 7), (''grpc_r_stream_send'', 3),
      (''grpc_r_stream_writes_done'', 2), (''grpc_r_client_poll'', 4)]"

definition server_routines :: "routine list" where
  "server_routines =
     [(''grpc_r_server2_create'', 11), (''grpc_r_server2_close'', 1), (''grpc_r_server2_fd'', 1),
      (''grpc_r_server2_port'', 1), (''grpc_r_server2_pending'', 1), (''grpc_r_server2_reply'', 6),
      (''grpc_r_server2_read'', 2), (''grpc_r_server2_cancel'', 2), (''grpc_r_server2_send'', 3),
      (''grpc_r_server2_finish'', 6), (''grpc_r_server2_poll'', 4)]"

definition no_grpc :: "sexp res" where
  "no_grpc = Inl (Rf_error (''rgrpc was installed without gRPC C++; '' @
     ''reinstall from source with gRPC C++ available '' @ ''(see grpc_available())''))"

definition stub_available :: sexp where
  "stub_available = R_Logical False"

definition stub_library_init :: "shim \<Rightarrow> shim" where
  "stub_library_init s = s"

definition stub_library_shutdown :: "shim \<Rightarrow> sexp \<times> shim" where
  "stub_library_shutdown s = (R_NilValue, s)"

text \<open>A call of a registered routine in the stub build; \<open>None\<close>: there is no such routine.\<close>

definition stub_call :: "string \<Rightarrow> nat \<Rightarrow> sexp res option" where
  "stub_call name n =
     (if (name, n) = (''grpc_r_available'', 0) then Some (Inr stub_available)
      else if (name, n) = (''grpc_r_library_shutdown'', 0) then Some (Inr R_NilValue)
      else if (name, n) \<in> set RGRPC_GRPC_ROUTINES then Some no_grpc
      else None)"

section \<open>Draining ends\<close>

lemma cq_drain_eq: "cq_drain q = (if q_shut q then Some (q\<lparr>q_events := 0\<rparr>) else None)"
proof (induction q rule: cq_drain.induct)
  case (1 q)
  show ?case
  proof (cases "0 < q_events q")
    case True
    with 1 show ?thesis by (subst cq_drain.simps) (simp add: cq_next_def)
  next
    case False
    then show ?thesis by (subst cq_drain.simps) (simp add: cq_next_def)
  qed
qed

lemma cq_finalizer_eq:
  "cq_finalizer (Some p) s = Some (case deref_cq p s of Inl e \<Rightarrow> Inl e
     | Inr q \<Rightarrow> rbind (delete_obj p s) (\<lambda>s. Inr (None, s)))"
  by (simp add: cq_finalizer_def cq_drain_eq split: sum.split)

lemma server_finalizer_eq:
  assumes "sh_objs s p = Some (Obj_server v)"
  shows "server_finalizer (Some p) s = Some (Inr (None, s\<lparr>sh_objs := (sh_objs s)(p := None),
    sh_acts := sh_acts s @ (if ss_server v then [Server_Shutdown] else []) @ (if ss_cq v \<noteq> None then [Cq_Shutdown, Cq_Drained] else []) @
      (if ss_server v then [Server_Destroyed] else []) @ (if ss_cq v \<noteq> None then [Cq_Destroyed] else []) @ [Service_Destroyed]\<rparr>))"
  using assms
  by (cases "ss_cq v") (simp_all add: server_finalizer_def deref_server_def delete_server_def delete_obj_def act_def
      cq_drain_eq Let_def)

section \<open>Every sequence of uses\<close>

datatype handle_kind = H_channel | H_cq | H_server

text \<open>What R holds: the external pointers it was given, with the kind of object behind each.\<close>

record shim_world =
  sm_shim :: shim
  sm_handles :: "(handle_kind \<times> addr option) list"

text \<open>
  What R may do: create an object, and run the finalizer of any external pointer at any time and
  as often as it likes (an explicit destroy, a garbage collection, the end of the session).
\<close>

datatype shim_cmd = Channel_create string | Cq_create | Server_create string "int option" | Finalize nat

definition finalize :: "handle_kind \<Rightarrow> addr option \<Rightarrow> shim \<Rightarrow> (addr option \<times> shim) res option" where
  "finalize k xp s =
     (case k of H_channel \<Rightarrow> Some (channel_finalizer xp s) | H_cq \<Rightarrow> cq_finalizer xp s | H_server \<Rightarrow> server_finalizer xp s)"

definition shim_exec :: "shim_cmd \<Rightarrow> shim_world \<Rightarrow> shim_world res option" where
  "shim_exec cmd w =
     (case cmd of
        Channel_create target \<Rightarrow>
          (case grpc_r_channel_create target (sm_shim w) of
             (xp, s) \<Rightarrow> Some (Inr (w\<lparr>sm_shim := s, sm_handles := sm_handles w @ [(H_channel, xp)]\<rparr>)))
      | Cq_create \<Rightarrow>
          (case grpc_r_cq_create (sm_shim w) of
             (xp, s) \<Rightarrow> Some (Inr (w\<lparr>sm_shim := s, sm_handles := sm_handles w @ [(H_cq, xp)]\<rparr>)))
      | Server_create address built \<Rightarrow>
          (case grpc_r_server_create address built (sm_shim w) of
             (Inr (xp, s), _) \<Rightarrow> Some (Inr (w\<lparr>sm_shim := s, sm_handles := sm_handles w @ [(H_server, xp)]\<rparr>))
           | (Inl (Rf_error _), s) \<Rightarrow> Some (Inr (w\<lparr>sm_shim := s\<rparr>))
           | (Inl e, _) \<Rightarrow> Some (Inl e))
      | Finalize h \<Rightarrow>
          (if h < length (sm_handles w)
           then case finalize (fst (sm_handles w ! h)) (snd (sm_handles w ! h)) (sm_shim w) of
                  None \<Rightarrow> None
                | Some (Inl e) \<Rightarrow> Some (Inl e)
                | Some (Inr (xp, s)) \<Rightarrow>
                    Some (Inr (w\<lparr>sm_shim := s, sm_handles := (sm_handles w)[h := (fst (sm_handles w ! h), xp)]\<rparr>))
           else Some (Inr w)))"

fun shim_run :: "shim_cmd list \<Rightarrow> shim_world \<Rightarrow> shim_world res option" where
  "shim_run [] w = Some (Inr w)"
| "shim_run (cmd # cmds) w =
     (case shim_exec cmd w of None \<Rightarrow> None | Some (Inl e) \<Rightarrow> Some (Inl e) | Some (Inr w) \<Rightarrow> shim_run cmds w)"

definition shim_start :: shim_world where
  "shim_start = \<lparr>sm_shim = \<lparr>sh_library_up = True, sh_grpc_refs = 1, sh_objs = Map.empty, sh_next = 0, sh_acts = []\<rparr>,
     sm_handles = []\<rparr>"

definition kind_of :: "shim_obj \<Rightarrow> handle_kind" where
  "kind_of ob = (case ob of Obj_channel _ \<Rightarrow> H_channel | Obj_cq _ \<Rightarrow> H_cq | Obj_server _ \<Rightarrow> H_server)"

text \<open>Live objects and external pointers that are not cleared correspond one to one, by kind.\<close>

definition shim_ok :: "shim_world \<Rightarrow> bool" where
  "shim_ok w \<longleftrightarrow>
     (\<forall>k p. (k, Some p) \<in> set (sm_handles w) \<longleftrightarrow> (\<exists>ob. sh_objs (sm_shim w) p = Some ob \<and> kind_of ob = k)) \<and>
     (\<forall>h h' p. h < length (sm_handles w) \<and> h' < length (sm_handles w) \<and> snd (sm_handles w ! h) = Some p \<and>
        snd (sm_handles w ! h') = Some p \<longrightarrow> h = h') \<and>
     (\<forall>p. sh_next (sm_shim w) \<le> p \<longrightarrow> sh_objs (sm_shim w) p = None)"

lemma shim_okD:
  assumes "shim_ok w"
  shows "(k, Some p) \<in> set (sm_handles w) \<longleftrightarrow> (\<exists>ob. sh_objs (sm_shim w) p = Some ob \<and> kind_of ob = k)"
    and "h < length (sm_handles w) \<Longrightarrow> h' < length (sm_handles w) \<Longrightarrow> snd (sm_handles w ! h) = Some p \<Longrightarrow>
      snd (sm_handles w ! h') = Some p \<Longrightarrow> h = h'"
    and "sh_next (sm_shim w) \<le> p \<Longrightarrow> sh_objs (sm_shim w) p = None"
  using assms unfolding shim_ok_def by blast+

lemma shim_ok_new:
  assumes ok: "shim_ok w" and s: "sh_objs s = (sh_objs (sm_shim w))(sh_next (sm_shim w) \<mapsto> ob)"
    "sh_next s = sh_next (sm_shim w) + 1"
  shows "shim_ok (w\<lparr>sm_shim := s, sm_handles := sm_handles w @ [(kind_of ob, Some (sh_next (sm_shim w)))]\<rparr>)"
proof -
  let ?n = "sh_next (sm_shim w)"
  have fresh: "snd x \<noteq> Some ?n" if "x \<in> set (sm_handles w)" for x
    using shim_okD(1) [OF ok, of "fst x" ?n] shim_okD(3) [OF ok, of ?n] that by (cases x) auto
  have fresh_at: "snd (sm_handles w ! i) \<noteq> Some ?n" if "i < length (sm_handles w)" for i
    using fresh [OF nth_mem [OF that]] .
  show ?thesis
    unfolding shim_ok_def
  proof (intro conjI allI impI)
    fix k p
    show "(k, Some p) \<in> set (sm_handles (w\<lparr>sm_shim := s, sm_handles := sm_handles w @ [(kind_of ob, Some ?n)]\<rparr>)) \<longleftrightarrow>
        (\<exists>ob'. sh_objs (sm_shim (w\<lparr>sm_shim := s, sm_handles := sm_handles w @ [(kind_of ob, Some ?n)]\<rparr>)) p = Some ob' \<and> kind_of ob' = k)"
      using shim_okD(1) [OF ok, of k p] fresh [of "(k, Some p)"] by (auto simp: s)
  next
    fix p assume "sh_next (sm_shim (w\<lparr>sm_shim := s, sm_handles := sm_handles w @ [(kind_of ob, Some ?n)]\<rparr>)) \<le> p"
    with shim_okD(3) [OF ok, of p] show "sh_objs (sm_shim (w\<lparr>sm_shim := s, sm_handles := sm_handles w @ [(kind_of ob, Some ?n)]\<rparr>)) p = None"
      by (simp add: s)
  next
    fix h h' p
    assume "h < length (sm_handles (w\<lparr>sm_shim := s, sm_handles := sm_handles w @ [(kind_of ob, Some ?n)]\<rparr>)) \<and>
      h' < length (sm_handles (w\<lparr>sm_shim := s, sm_handles := sm_handles w @ [(kind_of ob, Some ?n)]\<rparr>)) \<and>
      snd (sm_handles (w\<lparr>sm_shim := s, sm_handles := sm_handles w @ [(kind_of ob, Some ?n)]\<rparr>) ! h) = Some p \<and>
      snd (sm_handles (w\<lparr>sm_shim := s, sm_handles := sm_handles w @ [(kind_of ob, Some ?n)]\<rparr>) ! h') = Some p"
    then show "h = h'"
      using shim_okD(2) [OF ok, of h h' p] fresh_at [of h] fresh_at [of h']
      by (auto simp: nth_append less_Suc_eq split: if_splits)
  qed
qed

text \<open>Whatever its kind, a finalizer deletes the live object behind its pointer, or does nothing.\<close>

lemma finalize_ok:
  assumes "\<forall>p. xp = Some p \<longrightarrow> (\<exists>ob. sh_objs s p = Some ob \<and> kind_of ob = k)"
  shows "\<exists>as. finalize k xp s = Some (Inr (None,
    s\<lparr>sh_objs := (case xp of None \<Rightarrow> sh_objs s | Some p \<Rightarrow> (sh_objs s)(p := None)), sh_acts := sh_acts s @ as\<rparr>))"
proof (cases xp)
  case None
  then show ?thesis
    by (intro exI [of _ "[]"]) (simp add: finalize_def channel_finalizer_def cq_finalizer_def server_finalizer_def split: handle_kind.split)
next
  case (Some p)
  with assms obtain ob where ob: "sh_objs s p = Some ob" "kind_of ob = k" by blast
  show ?thesis
  proof (cases ob)
    case (Obj_channel t)
    with ob Some show ?thesis
      by (intro exI [of _ "[]"]) (auto simp: finalize_def kind_of_def channel_finalizer_def delete_obj_def)
  next
    case (Obj_cq q)
    with ob Some show ?thesis
      by (intro exI [of _ "[]"]) (auto simp: finalize_def kind_of_def cq_finalizer_eq deref_cq_def delete_obj_def)
  next
    case (Obj_server v)
    with ob Some show ?thesis by (auto simp: finalize_def kind_of_def server_finalizer_eq)
  qed
qed

lemma shim_ok_clear:
  assumes ok: "shim_ok w" and h: "h < length (sm_handles w)" and kx: "sm_handles w ! h = (k, xp)"
    and s: "sh_objs s = (case xp of None \<Rightarrow> sh_objs (sm_shim w) | Some p \<Rightarrow> (sh_objs (sm_shim w))(p := None))"
      "sh_next s = sh_next (sm_shim w)"
  shows "shim_ok (w\<lparr>sm_shim := s, sm_handles := (sm_handles w)[h := (k, None)]\<rparr>)"
proof -
  have mem: "(j, Some q) \<in> set ((sm_handles w)[h := (k, None)]) \<longleftrightarrow> (j, Some q) \<in> set (sm_handles w) \<and> xp \<noteq> Some q" for j q
  proof
    assume "(j, Some q) \<in> set ((sm_handles w)[h := (k, None)])"
    then obtain i where i: "i < length (sm_handles w)" "(sm_handles w)[h := (k, None)] ! i = (j, Some q)"
      by (auto simp: in_set_conv_nth)
    then have "i \<noteq> h" by (auto simp: nth_list_update)
    with i have e: "sm_handles w ! i = (j, Some q)" by simp
    with i(1) \<open>i \<noteq> h\<close> shim_okD(2) [OF ok i(1) h, of q] kx show "(j, Some q) \<in> set (sm_handles w) \<and> xp \<noteq> Some q"
      by (metis nth_mem snd_conv)
  next
    assume "(j, Some q) \<in> set (sm_handles w) \<and> xp \<noteq> Some q"
    then obtain i where "i < length (sm_handles w)" "sm_handles w ! i = (j, Some q)" "xp \<noteq> Some q" by (auto simp: in_set_conv_nth)
    with kx show "(j, Some q) \<in> set ((sm_handles w)[h := (k, None)])"
      by (metis length_list_update nth_list_update_neq nth_mem prod.inject)
  qed
  have ob: "(\<exists>ob. sh_objs s q = Some ob \<and> kind_of ob = j) \<longleftrightarrow> (\<exists>ob. sh_objs (sm_shim w) q = Some ob \<and> kind_of ob = j) \<and> xp \<noteq> Some q" for q j
    by (cases xp) (auto simp: s)
  have "sh_objs s q = None" if "sh_next s \<le> q" for q
    using shim_okD(3) [OF ok, of q] that by (cases xp) (auto simp: s)
  moreover have "i = i'" if "i < length (sm_handles w)" "i' < length (sm_handles w)"
    "snd ((sm_handles w)[h := (k, None)] ! i) = Some p" "snd ((sm_handles w)[h := (k, None)] ! i') = Some p" for i i' p
  proof -
    have "i \<noteq> h" "i' \<noteq> h" using that h by auto
    with that(3,4) have "snd (sm_handles w ! i) = Some p" "snd (sm_handles w ! i') = Some p" by simp_all
    with shim_okD(2) [OF ok that(1,2)] show ?thesis by blast
  qed
  ultimately show ?thesis
    unfolding shim_ok_def using shim_okD(1) [OF ok] by (simp add: mem ob)
qed

lemma shim_exec_ok:
  assumes ok: "shim_ok w"
  shows "\<exists>w'. shim_exec cmd w = Some (Inr w') \<and> shim_ok w'"
proof (cases cmd)
  case (Channel_create target)
  with shim_ok_new [OF ok, of _ "Obj_channel target"] show ?thesis
    by (simp add: shim_exec_def grpc_r_channel_create_def new_obj_def kind_of_def)
next
  case Cq_create
  with shim_ok_new [OF ok, of _ "Obj_cq \<lparr>q_shut = False, q_events = 0\<rparr>"] show ?thesis
    by (simp add: shim_exec_def grpc_r_cq_create_def new_obj_def kind_of_def)
next
  case (Server_create address built)
  show ?thesis
  proof (cases built)
    case None
    have "shim_ok (w\<lparr>sm_shim := (sm_shim w)\<lparr>sh_next := Suc (sh_next (sm_shim w)),
        sh_objs := (sh_objs (sm_shim w))(sh_next (sm_shim w) := None), sh_acts := x\<rparr>\<rparr>)" for x
      using ok shim_okD(3) [OF ok, of "sh_next (sm_shim w)"] unfolding shim_ok_def by (auto simp: fun_upd_idem)
    with None Server_create show ?thesis
      by (simp add: shim_exec_def grpc_r_server_create_def new_obj_def deref_server_def delete_server_def delete_obj_def act_def)
  next
    case (Some port)
    with Server_create shim_ok_new [OF ok, of _ "Obj_server \<lparr>ss_cq = Some \<lparr>q_shut = False, q_events = 0\<rparr>, ss_server = True, ss_port = port\<rparr>"]
    show ?thesis by (simp add: shim_exec_def grpc_r_server_create_def new_obj_def kind_of_def)
  qed
next
  case (Finalize h)
  show ?thesis
  proof (cases "h < length (sm_handles w)")
    case True
    obtain k xp where kx: "sm_handles w ! h = (k, xp)" by fastforce
    have "\<forall>p. xp = Some p \<longrightarrow> (\<exists>ob. sh_objs (sm_shim w) p = Some ob \<and> kind_of ob = k)"
      using shim_okD(1) [OF ok, of k] nth_mem [OF True] kx by metis
    from finalize_ok [OF this] obtain as where f: "finalize k xp (sm_shim w) = Some (Inr (None, (sm_shim w)
        \<lparr>sh_objs := (case xp of None \<Rightarrow> sh_objs (sm_shim w) | Some p \<Rightarrow> (sh_objs (sm_shim w))(p := None)),
         sh_acts := sh_acts (sm_shim w) @ as\<rparr>))" by blast
    from shim_ok_clear [OF ok True kx] f True Finalize kx show ?thesis by (simp add: shim_exec_def)
  next
    case False
    with ok Finalize show ?thesis by (simp add: shim_exec_def)
  qed
qed

lemma shim_run_ok: "shim_ok w \<Longrightarrow> \<exists>w'. shim_run cmds w = Some (Inr w') \<and> shim_ok w'"
proof (induction cmds arbitrary: w)
  case (Cons cmd cmds)
  from shim_exec_ok [OF Cons.prems, of cmd] Cons.IH show ?case by fastforce
qed simp

section \<open>Properties\<close>

text \<open>
  C36: However R creates, destroys and finalizes channels, completion queues and servers, nothing
  is deleted twice or used after it was deleted, no finalizer blocks for ever, also when a server
  fails to start; and at every moment exactly the objects behind external pointers that are not
  cleared are alive, so once R has let go of all of them nothing is leaked.
\<close>

theorem shim_lifetimes:
  "\<exists>w. shim_run cmds shim_start = Some (Inr w) \<and>
     (\<forall>p. sh_objs (sm_shim w) p \<noteq> None \<longleftrightarrow> Some p \<in> snd ` set (sm_handles w))"
proof -
  have "shim_ok shim_start" by (simp add: shim_ok_def shim_start_def)
  from shim_run_ok [OF this] obtain w where w: "shim_run cmds shim_start = Some (Inr w)" "shim_ok w" by blast
  have "sh_objs (sm_shim w) p \<noteq> None \<longleftrightarrow> Some p \<in> snd ` set (sm_handles w)" for p
    using shim_okD(1) [OF w(2), of _ p] by (force simp: image_iff)
  with w(1) show ?thesis by blast
qed

text \<open>
  C37: A server is torn down in the order its members need: the server is shut down first, then its
  completion queue is shut down and drained to the end, then the server is destroyed, then the
  queue, and the service last; the pointer is cleared and a second destroy does nothing.
\<close>

theorem shim_server_teardown:
  assumes "sh_objs s p = Some (Obj_server v)" and "ss_server v" and "ss_cq v = Some q"
  shows "\<exists>s'. grpc_r_server_destroy (Some p) s = Some (Inr (R_NilValue, None, s')) \<and> sh_objs s' p = None \<and>
    sh_acts s' = sh_acts s @ [Server_Shutdown, Cq_Shutdown, Cq_Drained, Server_Destroyed, Cq_Destroyed, Service_Destroyed] \<and>
    grpc_r_server_destroy None s' = Some (Inr (R_NilValue, None, s')) \<and>
    grpc_r_server_port None s' = Inl (Rf_error ''server already destroyed'')"
  using server_finalizer_eq [OF assms(1)] assms(2,3)
  by (simp add: grpc_r_server_destroy_def server_finalizer_def grpc_r_server_port_def)

theorem shim_server_teardown_witness:
  "\<exists>s'. grpc_r_server_destroy (Some 0) \<lparr>sh_library_up = True, sh_grpc_refs = 1,
       sh_objs = [0 \<mapsto> Obj_server \<lparr>ss_cq = Some \<lparr>q_shut = False, q_events = 3\<rparr>, ss_server = True, ss_port = 50051\<rparr>],
       sh_next = 1, sh_acts = []\<rparr> = Some (Inr (R_NilValue, None, s')) \<and>
     sh_acts s' = [Server_Shutdown, Cq_Shutdown, Cq_Drained, Server_Destroyed, Cq_Destroyed, Service_Destroyed]"
proof -
  let ?v = "\<lparr>ss_cq = Some \<lparr>q_shut = False, q_events = 3\<rparr>, ss_server = True, ss_port = 50051\<rparr>"
  let ?s = "\<lparr>sh_library_up = True, sh_grpc_refs = 1, sh_objs = [0 \<mapsto> Obj_server ?v], sh_next = 1, sh_acts = []\<rparr>"
  have "sh_objs ?s 0 = Some (Obj_server ?v)" "ss_server ?v" "ss_cq ?v = Some \<lparr>q_shut = False, q_events = 3\<rparr>" by simp_all
  from shim_server_teardown [OF this] show ?thesis by auto
qed

text \<open>
  The package holds exactly one gRPC initialisation from loading to the first shutdown, and
  releases it exactly once, however often the exit finalizer and the unload hook run after that.
\<close>

theorem library_released_once:
  assumes "\<not> sh_library_up s"
  shows "sh_grpc_refs (R_init_rgrpc s) = sh_grpc_refs s + 1 \<and> sh_library_up (R_init_rgrpc s) \<and>
    sh_grpc_refs (((\<lambda>s. snd (grpc_r_library_shutdown s)) ^^ n) (R_unload_rgrpc (R_init_rgrpc s))) = sh_grpc_refs s \<and>
    \<not> sh_library_up (((\<lambda>s. snd (grpc_r_library_shutdown s)) ^^ n) (R_unload_rgrpc (R_init_rgrpc s)))"
proof -
  let ?u = "R_unload_rgrpc (R_init_rgrpc s)"
  have u: "\<not> sh_library_up ?u" "sh_grpc_refs ?u = sh_grpc_refs s"
    by (simp_all add: R_unload_rgrpc_def R_init_rgrpc_def grpc_r_library_init_def grpc_r_library_shutdown_def)
  have "((\<lambda>s. snd (grpc_r_library_shutdown s)) ^^ n) ?u = ?u"
    by (induction n) (simp_all add: grpc_r_library_shutdown_def u(1))
  with u show ?thesis by (simp add: R_init_rgrpc_def grpc_r_library_init_def)
qed

theorem library_released_once_witness:
  "let s = \<lparr>sh_library_up = False, sh_grpc_refs = 0, sh_objs = Map.empty, sh_next = 0, sh_acts = []\<rparr>
   in sh_grpc_refs (((\<lambda>s. snd (grpc_r_library_shutdown s)) ^^ 2) (R_unload_rgrpc (R_init_rgrpc s))) = 0"
proof -
  let ?s = "\<lparr>sh_library_up = False, sh_grpc_refs = 0, sh_objs = Map.empty, sh_next = 0, sh_acts = []\<rparr>"
  have "\<not> sh_library_up ?s" by simp
  from library_released_once [OF this, of 2] show ?thesis by (simp add: Let_def)
qed

text \<open>
  Both builds fit the table that is registered with R: the names are distinct, every arity has
  an argument-list macro, the table ends with the closing entry, the full build defines exactly
  the registered routines with the registered numbers of parameters, and in the stub build each of
  them exists too: availability is FALSE, the shutdown does nothing and all others raise.
\<close>

theorem routine_tables_agree:
  "distinct (map fst RGRPC_ROUTINES) \<and> set (map snd RGRPC_ROUTINES) = set RGRPC_ARGS \<and>
   call_methods = map Some RGRPC_ROUTINES @ [None] \<and>
   mset (shim_routines @ client_routines @ server_routines) = mset RGRPC_ROUTINES \<and>
   map (\<lambda>(name, n). stub_call name n) RGRPC_ROUTINES =
     [Some (Inr (R_Logical False)), Some (Inr R_NilValue)] @ replicate (length RGRPC_GRPC_ROUTINES) (Some no_grpc)"
proof (intro conjI)
  show "distinct (map fst RGRPC_ROUTINES)" by (simp add: RGRPC_ROUTINES_def RGRPC_GRPC_ROUTINES_def)
  show "set (map snd RGRPC_ROUTINES) = set RGRPC_ARGS"
    by (simp add: RGRPC_ROUTINES_def RGRPC_GRPC_ROUTINES_def RGRPC_ARGS_def insert_commute)
  show "call_methods = map Some RGRPC_ROUTINES @ [None]" by (simp add: call_methods_def)
  show "mset (shim_routines @ client_routines @ server_routines) = mset RGRPC_ROUTINES"
    by (simp add: RGRPC_ROUTINES_def RGRPC_GRPC_ROUTINES_def shim_routines_def client_routines_def server_routines_def)
  have g: "stub_call (fst r) (snd r) = Some no_grpc" if "r \<in> set RGRPC_GRPC_ROUTINES" for r
  proof -
    have "r \<noteq> (''grpc_r_available'', 0)" "r \<noteq> (''grpc_r_library_shutdown'', 0)"
      using that by (auto simp: RGRPC_GRPC_ROUTINES_def)
    with that show ?thesis by (simp add: stub_call_def)
  qed
  have "map (\<lambda>(name, n). stub_call name n) RGRPC_GRPC_ROUTINES = replicate (length RGRPC_GRPC_ROUTINES) (Some no_grpc)"
    by (rule replicate_eqI) (auto simp: split_beta g)
  then show "map (\<lambda>(name, n). stub_call name n) RGRPC_ROUTINES =
     [Some (Inr (R_Logical False)), Some (Inr R_NilValue)] @ replicate (length RGRPC_GRPC_ROUTINES) (Some no_grpc)"
    by (simp add: RGRPC_ROUTINES_def stub_call_def stub_available_def)
qed

end
