(* ===== verification/Interop.thy ===== *)
theory Interop
  imports Conversions "HOL-Library.Sublist"
begin

text \<open>
  The C++ peers of the interoperability test: the helpers of \<^verbatim>\<open>tools/interop/cpp_common.h\<close>, the
  server \<^verbatim>\<open>cpp_server.cc\<close> and the client \<^verbatim>\<open>cpp_client.cc\<close>.  Each of the two programs drives one
  completion queue by hand, so what successive calls of \<^verbatim>\<open>cq.Next\<close> deliver is an argument: a list of
  events, \<open>None\<close> for a call that returns false.  Where the list ends, \<^verbatim>\<open>Next\<close> blocks.  The generated
  protobuf code is a parameter: \<open>ser\<close> and \<open>parse\<close> stand for \<^verbatim>\<open>SerializeToString\<close> and
  \<^verbatim>\<open>ParseFromString\<close>.
\<close>

section \<open>Shared helpers\<close>

text \<open>A byte buffer is seen through \<^verbatim>\<open>Dump\<close>: \<open>None\<close> when it fails, as on an empty buffer.\<close>

type_synonym byte_buffer = "string list option"

definition to_buffer :: "string \<Rightarrow> byte_buffer" where
  "to_buffer data = Some [data]"

definition from_buffer :: "byte_buffer \<Rightarrow> string" where
  "from_buffer buf = (case buf of None \<Rightarrow> [] | Some slices \<Rightarrow> foldl (\<lambda>out s. out @ s) [] slices)"

text \<open>\<^verbatim>\<open>std::to_string\<close>, and what \<^verbatim>\<open>operator<<\<close> prints for an integer.\<close>

fun digits :: "nat \<Rightarrow> string" where
  "digits n = (if n < 10 then [char_of (48 + n)] else digits (n div 10) @ [char_of (48 + n mod 10)])"

declare digits.simps [simp del]

definition to_string :: "int \<Rightarrow> string" where
  "to_string i = (if i < 0 then CHR ''-'' # digits (nat (- i)) else digits (nat i))"

record checker =
  ck_failures :: int
  ck_out :: "string list"

definition checker_init :: checker where
  "checker_init = \<lparr>ck_failures = 0, ck_out = []\<rparr>"

definition check :: "('a \<Rightarrow> string) \<Rightarrow> string \<Rightarrow> 'a \<Rightarrow> 'a \<Rightarrow> checker \<Rightarrow> checker" where
  "check sh name got want c =
     (let ok = (got = want);
          c = (if \<not> ok then c\<lparr>ck_failures := ck_failures c + 1\<rparr> else c)
      in c\<lparr>ck_out := ck_out c @ [''CPP '' @ (if ok then ''ok'' else ''FAIL'') @ '' '' @ name @
             '' got='' @ sh got @ '' want='' @ sh want]\<rparr>)"

definition check_str :: "string \<Rightarrow> string \<Rightarrow> string \<Rightarrow> checker \<Rightarrow> checker" where
  "check_str = check (\<lambda>s. s)"

definition check_int :: "string \<Rightarrow> int \<Rightarrow> int \<Rightarrow> checker \<Rightarrow> checker" where
  "check_int = check to_string"

definition checker_finish :: "string \<Rightarrow> checker \<Rightarrow> int \<times> checker" where
  "checker_finish who c =
     (if ck_failures c \<noteq> 0
      then (1, c\<lparr>ck_out := ck_out c @ [''CPP FAILED: '' @ to_string (ck_failures c) @ '' check(s) in '' @ who]\<rparr>)
      else (0, c\<lparr>ck_out := ck_out c @ [''CPP all ok'']\<rparr>))"

section \<open>Messages and events\<close>

text \<open>The fields of the messages that the peers use.\<close>

record item =
  it_name :: string
  it_count :: "64 word"

record echo_request =
  rq_text :: string
  rq_items :: "item list"
  rq_labels :: "string \<rightharpoonup> string"
  rq_number :: "32 word"

record echo_reply =
  rp_text :: string
  rp_items :: "item list"
  rp_labels :: "string \<rightharpoonup> string"
  rp_responder :: string

definition echo_request_init :: echo_request where
  "echo_request_init = \<lparr>rq_text = [], rq_items = [], rq_labels = Map.empty, rq_number = 0\<rparr>"

definition echo_reply_init :: echo_reply where
  "echo_reply_init = \<lparr>rp_text = [], rp_items = [], rp_labels = Map.empty, rp_responder = []\<rparr>"

type_synonym peer_status = "int \<times> string"

text \<open>One event of the completion queue, with what the library has filled in by then.\<close>

record peer_event =
  pv_tag :: nat
  pv_ok :: bool
  pv_method :: string
  pv_buf :: byte_buffer
  pv_status :: peer_status

text \<open>What the variables hold when nothing was delivered: default values.\<close>

definition no_event :: peer_event where
  "no_event = \<lparr>pv_tag = 0, pv_ok = False, pv_method = [], pv_buf = None, pv_status = (0, [])\<rparr>"

type_synonym peer_events = "peer_event option list"

text \<open>The loop \<^verbatim>\<open>while (cq.Next(&drain, &dok)) {}\<close>.\<close>

fun drain_events :: "peer_events \<Rightarrow> peer_events option" where
  "drain_events [] = None"
| "drain_events (None # evs) = Some evs"
| "drain_events (Some e # evs) = drain_events evs"

section \<open>The server\<close>

datatype peer_op =
    P_RequestCall
  | P_Read
  | P_Write byte_buffer
  | P_WriteAndFinish byte_buffer peer_status
  | P_Finish peer_status
  | P_Shutdown
  | P_CqShutdown

definition kAccept :: nat where
  "kAccept = 1"

definition kOp :: nat where
  "kOp = 2"

fun next_is :: "nat \<Rightarrow> peer_events \<Rightarrow> (bool \<times> peer_event \<times> peer_events) option" where
  "next_is expect [] = None"
| "next_is expect (None # evs) = Some (False, no_event, evs)"
| "next_is expect (Some e # evs) = Some (pv_ok e \<and> pv_tag e = expect, e, evs)"

definition ends_with :: "string \<Rightarrow> string \<Rightarrow> bool" where
  "ends_with s suf \<longleftrightarrow> length suf \<le> length s \<and> take (length suf) (drop (length s - length suf) s) = suf"

text \<open>Post an operation and wait for it, whatever its outcome.\<close>

definition post_and_wait :: "peer_op \<Rightarrow> peer_events \<Rightarrow> peer_op list \<Rightarrow> peer_op list \<times> peer_events option" where
  "post_and_wait op evs ops = (ops @ [op], map_option (\<lambda>(_, _, evs). evs) (next_is kOp evs))"

definition echo_answer :: "echo_request \<Rightarrow> echo_reply" where
  "echo_answer req =
     echo_reply_init\<lparr>rp_text := rq_text req, rp_items := rq_items req, rp_labels := rq_labels req,
       rp_responder := ''cpp''\<rparr>"

definition stream_answer :: "echo_request \<Rightarrow> int \<Rightarrow> echo_reply" where
  "stream_answer req i =
     echo_reply_init\<lparr>rp_text := rq_text req @ ''-'' @ to_string i, rp_responder := ''cpp''\<rparr>"

text \<open>The loop over the replies; \<open>i\<close> stays below the 32-bit bound, so it does not overflow.\<close>

function echo_stream ::
  "(echo_reply \<Rightarrow> string) \<Rightarrow> echo_request \<Rightarrow> bool \<Rightarrow> int \<Rightarrow> peer_events \<Rightarrow> peer_op list \<Rightarrow>
   peer_op list \<times> peer_events option" where
  "echo_stream ser req ok i evs ops =
     (if ok \<and> i < sint (rq_number req)
      then let ops = ops @ [P_Write (to_buffer (ser (stream_answer req i)))]
           in case next_is kOp evs of
                None \<Rightarrow> (ops, None)
              | Some (ok, _, evs) \<Rightarrow> echo_stream ser req ok (i + 1) evs ops
      else (ops, Some evs))"
  by pat_completeness auto
termination
  by (relation "measure (\<lambda>(ser, req, ok, i, evs, ops). nat (sint (rq_number req) - i))") auto

declare echo_stream.simps [simp del]

text \<open>The status codes FAILED_PRECONDITION and UNIMPLEMENTED are 9 and 12.\<close>

definition serve_call ::
  "(echo_reply \<Rightarrow> string) \<Rightarrow> (string \<Rightarrow> echo_request) \<Rightarrow> string \<Rightarrow> byte_buffer \<Rightarrow> peer_events \<Rightarrow> peer_op list \<Rightarrow>
   peer_op list \<times> peer_events option" where
  "serve_call ser parse method buf evs ops =
     (let req = parse (from_buffer buf)
      in if ends_with method ''/Echo''
         then post_and_wait (P_WriteAndFinish (to_buffer (ser (echo_answer req))) (0, [])) evs ops
         else if ends_with method ''/EchoStream''
         then case echo_stream ser req True 0 evs ops of
                (ops, None) \<Rightarrow> (ops, None)
              | (ops, Some evs) \<Rightarrow> post_and_wait (P_Finish (0, [])) evs ops
         else if ends_with method ''/Fail''
         then post_and_wait (P_Finish (9, ''interop failure'')) evs ops
         else post_and_wait (P_Finish (12, method)) evs ops)"

lemma next_is_shrinks: "next_is t evs = Some (ok, e, evs') \<Longrightarrow> length evs' < length evs"
  by (cases "(t, evs)" rule: next_is.cases) auto

lemma echo_stream_shrinks: "echo_stream ser req ok i evs ops = (ops', Some evs') \<Longrightarrow> length evs' \<le> length evs"
proof (induction ser req ok i evs ops rule: echo_stream.induct)
  case (1 ser req ok i evs ops)
  show ?case
  proof (cases "ok \<and> i < sint (rq_number req)")
    case True
    with 1(2) obtain ok2 e evs2 where n: "next_is kOp evs = Some (ok2, e, evs2)"
      and r: "echo_stream ser req ok2 (i + 1) evs2 (ops @ [P_Write (to_buffer (ser (stream_answer req i)))]) = (ops', Some evs')"
      by (subst (asm) echo_stream.simps) (auto simp: Let_def split: option.splits)
    from 1(1) [OF True refl n refl refl r] next_is_shrinks [OF n] show ?thesis by simp
  next
    case False
    with 1(2) show ?thesis by (subst (asm) echo_stream.simps) simp
  qed
qed

lemma serve_call_shrinks: "serve_call ser parse method buf evs ops = (ops', Some evs') \<Longrightarrow> length evs' \<le> length evs"
  by (auto simp: serve_call_def post_and_wait_def Let_def split: if_splits prod.splits option.splits
      dest!: next_is_shrinks echo_stream_shrinks)

text \<open>The loop over the calls; the queue's events decrease with each accept.\<close>

function cpp_server_loop ::
  "(echo_reply \<Rightarrow> string) \<Rightarrow> (string \<Rightarrow> echo_request) \<Rightarrow> peer_events \<Rightarrow> peer_op list \<Rightarrow> peer_op list \<times> peer_events option" where
  "cpp_server_loop ser parse evs ops =
     (let ops = ops @ [P_RequestCall]
      in case next_is kAccept evs of
           None \<Rightarrow> (ops, None)
         | Some (accepted, e, evs1) \<Rightarrow>
             if \<not> accepted then (ops, Some evs1)
             else
               let ops = ops @ [P_Read]
               in case next_is kOp evs1 of
                    None \<Rightarrow> (ops, None)
                  | Some (got, e2, evs2) \<Rightarrow>
                      if \<not> got then cpp_server_loop ser parse evs2 ops
                      else (case serve_call ser parse (pv_method e) (pv_buf e2) evs2 ops of
                              (ops, None) \<Rightarrow> (ops, None)
                            | (ops, Some evs3) \<Rightarrow> cpp_server_loop ser parse evs3 ops))"
  by pat_completeness auto
termination
  by (relation "measure (\<lambda>(ser, parse, evs, ops). length evs)")
    (auto dest!: next_is_shrinks serve_call_shrinks [OF sym])

declare cpp_server_loop.simps [simp del]

text \<open>
  \<^verbatim>\<open>main\<close> of the server: \<open>argv\<close> are the arguments after the program name, \<open>built\<close> tells whether
  \<^verbatim>\<open>BuildAndStart\<close> gave a server.  The result is the exit code (\<open>None\<close>: still running), what was
  printed on the standard output, and the operations.
\<close>

definition cpp_server_main ::
  "(echo_reply \<Rightarrow> string) \<Rightarrow> (string \<Rightarrow> echo_request) \<Rightarrow> string list \<Rightarrow> bool \<Rightarrow> peer_events \<Rightarrow>
   int option \<times> string list \<times> peer_op list" where
  "cpp_server_main ser parse argv built evs =
     (if argv = [] then (Some 2, [], [])
      else if \<not> built then (Some 1, [], [])
      else case cpp_server_loop ser parse evs [] of
             (ops, None) \<Rightarrow> (None, [''ready''], ops)
           | (ops, Some evs) \<Rightarrow>
               (map_option (\<lambda>_. 0) (drain_events evs), [''ready''], ops @ [P_Shutdown, P_CqShutdown]))"

section \<open>The client\<close>

datatype peer_call =
    C_Unary string byte_buffer
  | C_StartCall string
  | C_Write byte_buffer
  | C_WritesDone
  | C_Read
  | C_Finish

definition make_request :: echo_request where
  "make_request =
     (let req = echo_request_init\<lparr>rq_text := ''hello''\<rparr>;
          req = req\<lparr>rq_items := rq_items req @ [\<lparr>it_name = ''a'', it_count = 1\<rparr>]\<rparr>;
          req = req\<lparr>rq_items := rq_items req @ [\<lparr>it_name = ''b'', it_count = 2\<rparr>]\<rparr>;
          req = req\<lparr>rq_labels := (rq_labels req)(''k'' \<mapsto> ''v'')\<rparr>
      in req\<lparr>rq_number := 3\<rparr>)"

fun await_tag :: "nat \<Rightarrow> peer_events \<Rightarrow> (bool \<times> peer_event \<times> peer_events) option" where
  "await_tag expect [] = None"
| "await_tag expect (None # evs) = Some (False, no_event, evs)"
| "await_tag expect (Some e # evs) = Some (pv_ok e \<and> pv_tag e = expect, e, evs)"

text \<open>\<^verbatim>\<open>static_cast<int>(count)\<close> keeps the low 32 bits.\<close>

definition int_of_count :: "64 word \<Rightarrow> int" where
  "int_of_count w = sint (ucast w :: 32 word)"

definition item_checks :: "echo_reply \<Rightarrow> checker \<Rightarrow> checker" where
  "item_checks reply c =
     (if int_of_size (length (rp_items reply)) = 2
      then let c = check_str ''unary.item0'' (it_name (rp_items reply ! 0)) ''a'' c
           in check_int ''unary.count1'' (int_of_count (it_count (rp_items reply ! 1))) 2 c
      else c)"

text \<open>The unary part: \<open>None\<close> when one of the waits blocks.\<close>

definition unary_part :: "(string \<Rightarrow> echo_reply) \<Rightarrow> peer_events \<Rightarrow> checker \<Rightarrow> checker option" where
  "unary_part parse evs c =
     (case await_tag 1 evs of
        None \<Rightarrow> None
      | Some (ok, e, evs) \<Rightarrow>
          let c = check_str ''unary.completed'' (if ok then ''yes'' else ''no'') ''yes'' c;
              c = check_int ''unary.status'' (fst (pv_status e)) 0 c;
              reply = parse (from_buffer (pv_buf e));
              c = check_str ''unary.text'' (rp_text reply) ''hello'' c;
              c = check_str ''unary.responder'' (rp_responder reply) ''r'' c;
              c = check_int ''unary.items'' (int_of_size (length (rp_items reply))) 2 c;
              c = item_checks reply c;
              c = check_str ''unary.label'' (case rp_labels reply ''k'' of None \<Rightarrow> ''<missing>'' | Some v \<Rightarrow> v) ''v'' c
          in map_option (\<lambda>_. c) (drain_events evs))"

text \<open>The reading loop of the streaming part.\<close>

fun read_loop :: "(string \<Rightarrow> echo_reply) \<Rightarrow> peer_events \<Rightarrow> string \<Rightarrow> peer_call list \<Rightarrow> string \<times> peer_call list \<times> peer_events option" where
  "read_loop parse [] joined ops = (joined, ops @ [C_Read], None)"
| "read_loop parse (None # evs) joined ops = (joined, ops @ [C_Read], Some evs)"
| "read_loop parse (Some e # evs) joined ops =
     (let ops = ops @ [C_Read]
      in if \<not> (pv_ok e \<and> pv_tag e = 2) then (joined, ops, Some evs)
         else
           let reply = parse (from_buffer (pv_buf e));
               joined = (if joined \<noteq> [] then joined @ '','' else joined);
               joined = joined @ rp_text reply
           in read_loop parse evs joined ops)"

text \<open>\<^verbatim>\<open>ok = ok && await_tag(...)\<close>: after a failure nothing is taken off the queue.\<close>

definition and_await :: "bool \<Rightarrow> peer_events \<Rightarrow> (bool \<times> peer_events) option" where
  "and_await ok evs = (if ok then map_option (\<lambda>(ok, _, evs). (ok, evs)) (await_tag 2 evs) else Some (False, evs))"

definition stream_part ::
  "(string \<Rightarrow> echo_reply) \<Rightarrow> string \<Rightarrow> peer_events \<Rightarrow> checker \<Rightarrow> peer_call list \<Rightarrow> (checker \<times> peer_call list) option" where
  "stream_part parse wire evs c ops =
     (case and_await True evs of
        None \<Rightarrow> None
      | Some (ok, evs) \<Rightarrow>
         (case and_await ok evs of
            None \<Rightarrow> None
          | Some (ok, evs) \<Rightarrow>
             (case and_await ok evs of
                None \<Rightarrow> None
              | Some (ok, evs) \<Rightarrow>
                  let ops = ops @ [C_StartCall ''/interop.v1.Interop/EchoStream'', C_Write (to_buffer wire), C_WritesDone];
                      c = check_str ''stream.started'' (if ok then ''yes'' else ''no'') ''yes'' c
                  in case read_loop parse evs [] ops of
                       (joined, ops, None) \<Rightarrow> None
                     | (joined, ops, Some evs) \<Rightarrow>
                         let ops = ops @ [C_Finish]
                         in case await_tag 2 evs of
                              None \<Rightarrow> None
                            | Some (_, e, evs) \<Rightarrow>
                                let c = check_str ''stream.texts'' joined ''hello-0,hello-1,hello-2'' c;
                                    c = check_int ''stream.status'' (fst (pv_status e)) 0 c
                                in map_option (\<lambda>_. (c, ops)) (drain_events evs))))"

definition fail_part :: "peer_events \<Rightarrow> checker \<Rightarrow> checker option" where
  "fail_part evs c =
     (case await_tag 3 evs of
        None \<Rightarrow> None
      | Some (_, e, evs) \<Rightarrow>
          let c = check_int ''fail.status'' (fst (pv_status e)) 9 c;
              c = check_str ''fail.message'' (snd (pv_status e)) ''interop failure'' c
          in map_option (\<lambda>_. c) (drain_events evs))"

text \<open>
  \<^verbatim>\<open>main\<close> of the client: each of the three parts has a completion queue of its own.  The result is
  the exit code, what was printed, and the calls made; \<open>None\<close>: it blocks.
\<close>

definition cpp_client_main ::
  "(echo_request \<Rightarrow> string) \<Rightarrow> (string \<Rightarrow> echo_reply) \<Rightarrow> string list \<Rightarrow> peer_events \<Rightarrow> peer_events \<Rightarrow> peer_events \<Rightarrow>
   (int \<times> string list \<times> peer_call list) option" where
  "cpp_client_main ser parse argv evs1 evs2 evs3 =
     (if argv = [] then Some (2, [], [])
      else
        let wire = ser make_request;
            ops = [C_Unary ''/interop.v1.Interop/Echo'' (to_buffer wire)]
        in case unary_part parse evs1 checker_init of
             None \<Rightarrow> None
           | Some c \<Rightarrow>
              (case stream_part parse wire evs2 c ops of
                 None \<Rightarrow> None
               | Some (c, ops) \<Rightarrow>
                   let ops = ops @ [C_Unary ''/interop.v1.Interop/Fail'' (to_buffer wire)]
                   in (case fail_part evs3 c of
                         None \<Rightarrow> None
                       | Some c \<Rightarrow>
                           let (code, c) = checker_finish ''cpp_client'' c
                           in Some (code, ck_out c, ops))))"

section \<open>Lemmas\<close>

lemma from_to_buffer [simp]: "from_buffer (to_buffer d) = d"
  by (simp add: from_buffer_def to_buffer_def)

lemma from_buffer_agrees: "from_buffer buf = snd (grpc_byte_buffer_to_string buf [])"
  by (simp add: from_buffer_def grpc_byte_buffer_to_string_def split: option.split)

lemma ends_with_suffix: "ends_with s suf \<longleftrightarrow> suffix suf s"
proof
  assume "ends_with s suf"
  then have "drop (length s - length suf) s = suf" by (simp add: ends_with_def)
  then show "suffix suf s" by (metis suffix_drop)
next
  assume "suffix suf s"
  then show "ends_with s suf" by (auto simp: ends_with_def suffix_def)
qed

lemma check_failures [simp]:
  "ck_failures (check_str name s s' c) = ck_failures c + (if s = s' then 0 else 1)"
  "ck_failures (check_int name i i' c) = ck_failures c + (if i = i' then 0 else 1)"
  by (simp_all add: check_str_def check_int_def check_def Let_def)

text \<open>An event that answers the operation waited for.\<close>

abbreviation answers_op :: "nat \<Rightarrow> peer_event \<Rightarrow> bool" where
  "answers_op t e \<equiv> pv_ok e \<and> pv_tag e = t"

lemma echo_stream_stop [simp]: "echo_stream ser req False i evs ops = (ops, Some evs)"
  by (simp add: echo_stream.simps)

lemma echo_stream_eq:
  assumes "m = min (nat (sint (rq_number req) - i)) (Suc (length (takeWhile (answers_op kOp) es)))" and "m \<le> length es"
  shows "echo_stream ser req True i (map Some es @ rest) ops =
    (ops @ map (\<lambda>k. P_Write (to_buffer (ser (stream_answer req (i + int k))))) [0..<m], Some (map Some (drop m es) @ rest))"
  using assms
proof (induction es arbitrary: i m ops)
  case Nil
  then have "\<not> i < sint (rq_number req)" by (auto simp: min_def split: if_splits)
  with Nil show ?case by (subst echo_stream.simps) simp
next
  case (Cons e es)
  let ?op = "P_Write (to_buffer (ser (stream_answer req i)))"
  show ?case
  proof (cases "i < sint (rq_number req)")
    case True
    then have step: "echo_stream ser req True i (map Some (e # es) @ rest) ops =
        echo_stream ser req (answers_op kOp e) (i + 1) (map Some es @ rest) (ops @ [?op])"
      by (subst echo_stream.simps) (simp add: Let_def)
    show ?thesis
    proof (cases "answers_op kOp e")
      case good: True
      define m' where "m' = min (nat (sint (rq_number req) - (i + 1))) (Suc (length (takeWhile (answers_op kOp) es)))"
      have "nat (sint (rq_number req) - i) = Suc (nat (sint (rq_number req) - (i + 1)))" using True by linarith
      with Cons.prems(1) good have m: "m = Suc m'" by (simp add: m'_def)
      have up: "[0..<Suc m'] = 0 # map Suc [0..<m']" by (simp add: map_Suc_upt upt_conv_Cons del: upt_Suc)
      from Cons.IH [OF m'_def, of "ops @ [?op]"] Cons.prems(2) m good step show ?thesis
        by (simp add: up o_def add_ac del: upt_Suc)
    next
      case False
      with Cons.prems(1) True have "m = 1" by simp
      moreover from False have "answers_op kOp e = False" by blast
      with step have "echo_stream ser req True i (map Some (e # es) @ rest) ops = (ops @ [?op], Some (map Some es @ rest))"
        by (simp only: echo_stream_stop)
      ultimately show ?thesis by simp
    qed
  next
    case False
    with Cons.prems(1) show ?thesis by (subst echo_stream.simps) simp
  qed
qed

lemma echo_not_stream: "suffix ''/EchoStream'' method \<Longrightarrow> \<not> suffix ''/Echo'' method"
  by (auto simp: suffix_def append_eq_append_conv2 Cons_eq_append_conv append_eq_Cons_conv)

lemma check_fail_lines [simp]:
  "filter (prefix ''CPP FAIL '') (ck_out (check_str name s s' c)) = filter (prefix ''CPP FAIL '') (ck_out c) @
     (if s = s' then [] else [''CPP FAIL '' @ name @ '' got='' @ s @ '' want='' @ s'])"
  "filter (prefix ''CPP FAIL '') (ck_out (check_int name i i' c)) = filter (prefix ''CPP FAIL '') (ck_out c) @
     (if i = i' then [] else [''CPP FAIL '' @ name @ '' got='' @ to_string i @ '' want='' @ to_string i'])"
  by (simp_all add: check_str_def check_int_def check_def Let_def)

lemma yes_no [simp]: "((if b then ''yes'' else ''no'') = ''yes'') \<longleftrightarrow> b"
  by simp

lemma checked:
  assumes "0 \<le> ck_failures c"
  shows "0 \<le> ck_failures (check_str name s s' c)" "0 \<le> ck_failures (check_int name i i' c)"
    "ck_failures (check_str name s s' c) = 0 \<longleftrightarrow> ck_failures c = 0 \<and> s = s'"
    "ck_failures (check_int name i i' c) = 0 \<longleftrightarrow> ck_failures c = 0 \<and> i = i'"
  using assms by simp_all

lemma items_checked:
  assumes "0 \<le> ck_failures c"
  shows "0 \<le> ck_failures (item_checks r c)"
    "ck_failures (item_checks r c) = 0 \<longleftrightarrow> ck_failures c = 0 \<and>
      (int_of_size (length (rp_items r)) = 2 \<longrightarrow> it_name (rp_items r ! 0) = ''a'' \<and> int_of_count (it_count (rp_items r ! 1)) = 2)"
  using assms by (auto simp: item_checks_def Let_def checked simp del: check_failures)

text \<open>What each part of the client has seen when none of its checks failed.\<close>

definition unary_good :: "(string \<Rightarrow> echo_reply) \<Rightarrow> peer_event \<Rightarrow> bool" where
  "unary_good parse e \<longleftrightarrow> (let r = parse (from_buffer (pv_buf e)) in
     answers_op 1 e \<and> fst (pv_status e) = 0 \<and> rp_text r = ''hello'' \<and> rp_responder r = ''r'' \<and>
     int_of_size (length (rp_items r)) = 2 \<and> it_name (rp_items r ! 0) = ''a'' \<and>
     int_of_count (it_count (rp_items r ! 1)) = 2 \<and> rp_labels r ''k'' = Some ''v'')"

lemma unary_part_good:
  assumes "unary_part parse evs c = Some c'" and "0 \<le> ck_failures c"
  shows "0 \<le> ck_failures c' \<and> (ck_failures c' = 0 \<longleftrightarrow> ck_failures c = 0 \<and> (\<exists>e evs'. evs = Some e # evs' \<and> unary_good parse e))"
proof (cases "(1::nat, evs)" rule: await_tag.cases)
  case (3 t e evs')
  with assms show ?thesis
    by (auto simp: unary_part_def Let_def checked items_checked unary_good_def simp del: check_failures split: option.splits)
qed (use assms in \<open>auto simp: unary_part_def Let_def checked items_checked no_event_def simp del: check_failures split: option.splits\<close>)

text \<open>The streaming part: the messages before the first event that is not a successful read, joined.\<close>

definition is_message :: "peer_event option \<Rightarrow> bool" where
  "is_message x = (case x of None \<Rightarrow> False | Some e \<Rightarrow> answers_op 2 e)"

definition join_text :: "string \<Rightarrow> string \<Rightarrow> string" where
  "join_text joined t = (if joined \<noteq> [] then joined @ '','' else joined) @ t"

definition text_of :: "(string \<Rightarrow> echo_reply) \<Rightarrow> peer_event option \<Rightarrow> string" where
  "text_of parse x = rp_text (parse (from_buffer (pv_buf (the x))))"

lemma read_loop_eq:
  "read_loop parse evs joined ops =
     (let ms = takeWhile is_message evs
      in (foldl join_text joined (map (text_of parse) ms), ops @ replicate (Suc (length ms)) C_Read,
          if length ms < length evs then Some (drop (Suc (length ms)) evs) else None))"
  by (induction parse evs joined ops rule: read_loop.induct)
    (simp_all add: is_message_def join_text_def text_of_def Let_def flip: replicate_append_same)

definition stream_good :: "(string \<Rightarrow> echo_reply) \<Rightarrow> peer_events \<Rightarrow> bool" where
  "stream_good parse evs \<longleftrightarrow>
     length evs > 3 \<and> list_all is_message (take 3 evs) \<and>
     (let evs = drop 3 evs; ms = takeWhile is_message evs; fin = evs ! Suc (length ms)
      in foldl join_text [] (map (text_of parse) ms) = ''hello-0,hello-1,hello-2'' \<and>
         (fin \<noteq> None \<longrightarrow> fst (pv_status (the fin)) = 0))"

lemma and_await_eq:
  "and_await False evs = Some (False, evs)"
  "and_await True [] = None"
  "and_await True (x # evs) = Some (is_message x, evs)"
  by (simp_all add: and_await_def is_message_def split: option.split)

lemma await_tag_Cons:
  "await_tag t (x # evs) =
     Some (case x of None \<Rightarrow> False | Some e \<Rightarrow> answers_op t e, case x of None \<Rightarrow> no_event | Some e \<Rightarrow> e, evs)"
  by (cases x) simp_all

lemma and_awaits:
  assumes "and_await True evs = Some (ok1, evs1)" and "and_await ok1 evs1 = Some (ok2, evs2)" and "and_await ok2 evs2 = Some (ok, evs3)"
  shows "(ok \<longleftrightarrow> 3 \<le> length evs \<and> list_all is_message (take 3 evs)) \<and> (ok \<longrightarrow> evs3 = drop 3 evs)"
  using assms
  by (cases evs; cases ok1; cases evs1; cases ok2; cases evs2) (auto simp: and_await_eq eval_nat_numeral)

lemma stream_part_good:
  assumes "stream_part parse wire evs c ops = Some (c', ops')" and "0 \<le> ck_failures c"
  shows "0 \<le> ck_failures c' \<and> (ck_failures c' = 0 \<longleftrightarrow> ck_failures c = 0 \<and> stream_good parse evs)"
proof -
  from assms(1) obtain ok1 evs1 ok2 evs2 ok evs3 where
    aw: "and_await True evs = Some (ok1, evs1)" "and_await ok1 evs1 = Some (ok2, evs2)" "and_await ok2 evs2 = Some (ok, evs3)"
    unfolding stream_part_def by (fastforce split: option.splits)
  define ms where "ms = takeWhile is_message evs3"
  from assms(1) obtain x evs4 where x: "drop (Suc (length ms)) evs3 = x # evs4"
    and c': "c' = check_int ''stream.status'' (fst (pv_status (case x of None \<Rightarrow> no_event | Some e \<Rightarrow> e))) 0
      (check_str ''stream.texts'' (foldl join_text [] (map (text_of parse) ms)) ''hello-0,hello-1,hello-2''
      (check_str ''stream.started'' (if ok then ''yes'' else ''no'') ''yes'' c))"
    unfolding stream_part_def by (cases "drop (Suc (length ms)) evs3")
      (auto simp: aw read_loop_eq await_tag_Cons Let_def ms_def split: if_split_asm option.split_asm)
  have nth: "evs3 ! Suc (length ms) = x" using x by (rule nth_via_drop)
  have ne: "evs3 \<noteq> []" using x by auto
  show ?thesis
    using and_awaits [OF aw] assms(2) nth ne
    by (auto simp: c' checked stream_good_def Let_def ms_def no_event_def simp del: check_failures split: option.splits)
qed

lemma fail_part_good:
  assumes "fail_part evs c = Some c'" and "0 \<le> ck_failures c"
  shows "0 \<le> ck_failures c' \<and> (ck_failures c' = 0 \<longleftrightarrow> ck_failures c = 0 \<and>
    (\<exists>e evs'. evs = Some e # evs' \<and> pv_status e = (9, ''interop failure'')))"
proof (cases evs)
  case (Cons x evs')
  with assms show ?thesis
    by (cases x) (auto simp: fail_part_def Let_def checked no_event_def prod_eq_iff simp del: check_failures)
qed (use assms in \<open>simp add: fail_part_def\<close>)

section \<open>Properties\<close>

text \<open>
  C40: The server peer answers a streaming call with the numbered replies in order and one final
  status: it writes \<open>text-0\<close>, \<open>text-1\<close> and so on up to the number requested, or up to and including
  the first write that fails, waits for each write before the next, and then finishes with OK,
  whatever the completions are.  The method is recognised by the end of its name, although \<open>/Echo\<close>
  is tried first.
\<close>

theorem echo_stream_replies:
  assumes "suffix ''/EchoStream'' method" and "req = parse (from_buffer buf)"
    and "m = min (nat (sint (rq_number req))) (Suc (length (takeWhile (answers_op kOp) es)))" and "m < length es"
  shows "serve_call ser parse method buf (map Some es @ rest) ops =
    (ops @ map (\<lambda>k. P_Write (to_buffer (ser (stream_answer req (int k))))) [0..<m] @ [P_Finish (0, [])],
     Some (map Some (drop (Suc m) es) @ rest))"
proof -
  have "echo_stream ser req True 0 (map Some es @ rest) ops =
      (ops @ map (\<lambda>k. P_Write (to_buffer (ser (stream_answer req (int k))))) [0..<m], Some (map Some (drop m es) @ rest))"
    using echo_stream_eq [of m req 0 es ser rest ops] assms(3,4) by simp
  moreover have "drop m es = es ! m # drop (Suc m) es" using assms(4) by (simp add: Cons_nth_drop_Suc)
  ultimately show ?thesis
    using echo_not_stream [OF assms(1)] assms(1,2) by (simp add: serve_call_def post_and_wait_def ends_with_suffix)
qed

theorem echo_stream_replies_witness:
  "serve_call rp_text (\<lambda>_. make_request) ''/interop.v1.Interop/EchoStream'' None
     (map Some (replicate 4 (no_event\<lparr>pv_ok := True, pv_tag := kOp\<rparr>)) @ []) [] =
   (map (\<lambda>k. P_Write (to_buffer (''hello-'' @ to_string (int k)))) [0..<3] @ [P_Finish (0, [])], Some [])"
proof -
  let ?es = "replicate 4 (no_event\<lparr>pv_ok := True, pv_tag := kOp\<rparr>)"
  have "suffix ''/EchoStream'' ''/interop.v1.Interop/EchoStream''" by (simp add: suffix_def)
  moreover have n: "3 = min (nat (sint (rq_number make_request))) (Suc (length (takeWhile (answers_op kOp) ?es)))"
    by (simp add: make_request_def Let_def takeWhile_replicate)
  ultimately show ?thesis
    using echo_stream_replies [of _ make_request "\<lambda>_. make_request" None 3 ?es rp_text "[]" "[]"]
    by (simp add: stream_answer_def make_request_def Let_def echo_reply_init_def echo_request_init_def)
qed

text \<open>
  C39: The verdict of the client peer: if it ends, it returns 0 exactly if the unary call completed
  with an OK status and every field of the reply was right, the stream started, its messages joined to
  the expected text and its status is OK, and the failing call reported its code and its message.  In
  that case the last line it prints says so; otherwise it returns 1.  The status of the stream is the
  one that arrives with the completion after the last message; if the queue ends before that
  completion it keeps its default, which is OK, since the code does not look at whether the Finish
  completed, so such a run passes too.
\<close>

theorem cpp_client_verdict:
  assumes "cpp_client_main ser parse [target] evs1 evs2 evs3 = Some (code, out, ops)"
    and "passed \<longleftrightarrow> (\<exists>e evs. evs1 = Some e # evs \<and> unary_good parse e) \<and> stream_good parse evs2 \<and>
      (\<exists>e evs. evs3 = Some e # evs \<and> pv_status e = (9, ''interop failure''))"
  shows "code = (if passed then 0 else 1) \<and> (passed \<longrightarrow> last out = ''CPP all ok'')"
proof -
  from assms(1) obtain c1 c2 ops2 c3 where
    c: "unary_part parse evs1 checker_init = Some c1" "stream_part parse (ser make_request) evs2 c1
        [C_Unary ''/interop.v1.Interop/Echo'' (to_buffer (ser make_request))] = Some (c2, ops2)" "fail_part evs3 c2 = Some c3"
    and out: "code = fst (checker_finish ''cpp_client'' c3)" "out = ck_out (snd (checker_finish ''cpp_client'' c3))"
    unfolding cpp_client_main_def by (fastforce simp: Let_def split: option.splits prod.splits)
  from unary_part_good [OF c(1)] have 1: "0 \<le> ck_failures c1 \<and> (ck_failures c1 = 0 \<longleftrightarrow> (\<exists>e evs. evs1 = Some e # evs \<and> unary_good parse e))"
    by (simp add: checker_init_def)
  from stream_part_good [OF c(2)] 1 fail_part_good [OF c(3)] assms(2) have "ck_failures c3 = 0 \<longleftrightarrow> passed" by blast
  with out show ?thesis by (simp add: checker_finish_def)
qed

theorem cpp_client_verdict_witness:
  "\<exists>out ops. cpp_client_main (\<lambda>_. []) (\<lambda>_. echo_reply_init) [''localhost:50051''] [Some no_event, None]
       [Some no_event, None, None, None] [None, None] = Some (1, out, ops)"
proof -
  obtain code out ops where run: "cpp_client_main (\<lambda>_. []) (\<lambda>_. echo_reply_init) [''localhost:50051''] [Some no_event, None]
       [Some no_event, None, None, None] [None, None] = Some (code, out, ops)"
    by (simp add: cpp_client_main_def unary_part_def stream_part_def fail_part_def and_await_def no_event_def Let_def split_beta)
  from cpp_client_verdict [OF run refl] have "code = 1" by simp
  with run show ?thesis by blast
qed

section \<open>The two peers against each other\<close>

text \<open>
  What the client's queues deliver when the library carries over, without loss, what the server
  wrote: a unary call completes with the final message and the status; a stream reports start,
  write and half-close, then each message, then the end of the messages, then the status.
\<close>

definition delivered :: "nat \<Rightarrow> byte_buffer \<Rightarrow> peer_status \<Rightarrow> peer_event" where
  "delivered t buf st = no_event\<lparr>pv_ok := True, pv_tag := t, pv_buf := buf, pv_status := st\<rparr>"

fun unary_events :: "nat \<Rightarrow> peer_op list \<Rightarrow> peer_events" where
  "unary_events t [P_WriteAndFinish buf st] = [Some (delivered t buf st), None]"
| "unary_events t [P_Finish st] = [Some (delivered t None st), None]"
| "unary_events t ops = []"

fun message_events :: "peer_op list \<Rightarrow> peer_events" where
  "message_events (P_Write buf # ops) = Some (delivered 2 buf (0, [])) # message_events ops"
| "message_events [P_Finish st] = [Some (no_event\<lparr>pv_tag := 2\<rparr>), Some (delivered 2 None st), None]"
| "message_events ops = []"

definition stream_events :: "peer_op list \<Rightarrow> peer_events" where
  "stream_events ops = replicate 3 (Some (delivered 2 None (0, []))) @ message_events ops"

definition server_answers :: "(echo_reply \<Rightarrow> string) \<Rightarrow> (string \<Rightarrow> echo_request) \<Rightarrow> string \<Rightarrow> string \<Rightarrow> peer_op list" where
  "server_answers ser parse wire method =
     fst (serve_call ser parse method (to_buffer wire) (map Some (replicate 4 (delivered kOp None (0, []))) @ []) [])"

lemma make_request_simps [simp]:
  "rq_text make_request = ''hello''" "rq_number make_request = 3" "rq_labels make_request = [''k'' \<mapsto> ''v'']"
  "rq_items make_request = [\<lparr>it_name = ''a'', it_count = 1\<rparr>, \<lparr>it_name = ''b'', it_count = 2\<rparr>]"
  by (simp_all add: make_request_def Let_def echo_request_init_def)

lemma answer_simps [simp]:
  "rp_text (echo_answer req) = rq_text req" "rp_items (echo_answer req) = rq_items req"
  "rp_labels (echo_answer req) = rq_labels req" "rp_responder (echo_answer req) = ''cpp''"
  "rp_text (stream_answer req i) = rq_text req @ ''-'' @ to_string i"
  by (simp_all add: echo_answer_def stream_answer_def)

lemma server_answers_eq:
  assumes "parse wire = make_request"
  shows "server_answers ser parse wire ''/interop.v1.Interop/Echo'' = [P_WriteAndFinish (to_buffer (ser (echo_answer make_request))) (0, [])]"
    "server_answers ser parse wire ''/interop.v1.Interop/Fail'' = [P_Finish (9, ''interop failure'')]"
    "server_answers ser parse wire ''/interop.v1.Interop/EchoStream'' =
       map (\<lambda>k. P_Write (to_buffer (ser (stream_answer make_request (int k))))) [0..<3] @ [P_Finish (0, [])]"
proof -
  have es: "3 = min (nat (sint (rq_number make_request) - 0)) (Suc (length (takeWhile (answers_op kOp) (replicate 4 (delivered kOp None (0, []))))))"
    by (simp add: takeWhile_replicate delivered_def)
  show "server_answers ser parse wire ''/interop.v1.Interop/Echo'' = [P_WriteAndFinish (to_buffer (ser (echo_answer make_request))) (0, [])]"
    "server_answers ser parse wire ''/interop.v1.Interop/Fail'' = [P_Finish (9, ''interop failure'')]"
    by (simp_all add: server_answers_def serve_call_def post_and_wait_def ends_with_def assms)
  show "server_answers ser parse wire ''/interop.v1.Interop/EchoStream'' =
       map (\<lambda>k. P_Write (to_buffer (ser (stream_answer make_request (int k))))) [0..<3] @ [P_Finish (0, [])]"
    using echo_stream_eq [OF es, of ser "[]" "[]"]
    by (simp add: server_answers_def serve_call_def post_and_wait_def ends_with_def assms del: upt_Suc upt_rec_numeral)
qed

lemma to_string_digit: "to_string 0 = ''0''" "to_string 1 = ''1''" "to_string 2 = ''2''"
  by (simp_all add: to_string_def digits.simps char_of_def bit_0)

text \<open>
  C38: The two reference peers speak the same protocol.  If the library carries over what the server
  wrote and the protobuf code reads back what it wrote, the client run against the C++ server makes
  its three calls and every check holds but one: the responder is \<open>cpp\<close>, where the client expects
  the R server, so the run does not count as a test of R and the exit code is 1.
\<close>

theorem interop_peers_agree:
  assumes "parse_req (ser_req make_request) = make_request"
    and "parse_reply (ser_reply (echo_answer make_request)) = echo_answer make_request"
    and "\<And>i. i \<in> {0, 1, 2} \<Longrightarrow> parse_reply (ser_reply (stream_answer make_request i)) = stream_answer make_request i"
    and "answer = server_answers ser_reply parse_req (ser_req make_request)"
  shows "\<exists>out ops. cpp_client_main ser_req parse_reply [target] (unary_events 1 (answer ''/interop.v1.Interop/Echo''))
      (stream_events (answer ''/interop.v1.Interop/EchoStream'')) (unary_events 3 (answer ''/interop.v1.Interop/Fail'')) =
        Some (1, out, ops) \<and>
    filter (prefix ''CPP FAIL '') out = [''CPP FAIL unary.responder got=cpp want=r''] \<and>
    ops = [C_Unary ''/interop.v1.Interop/Echo'' (to_buffer (ser_req make_request)), C_StartCall ''/interop.v1.Interop/EchoStream'',
      C_Write (to_buffer (ser_req make_request)), C_WritesDone] @ replicate 4 C_Read @
      [C_Finish, C_Unary ''/interop.v1.Interop/Fail'' (to_buffer (ser_req make_request))]"
proof -
  let ?ops = "[C_Unary ''/interop.v1.Interop/Echo'' (to_buffer (ser_req make_request))]"
  note ans = server_answers_eq [of parse_req "ser_req make_request" ser_reply, OF assms(1)]
  have "\<exists>c. unary_part parse_reply (unary_events 1 (answer ''/interop.v1.Interop/Echo'')) checker_init = Some c \<and>
      ck_failures c = 1 \<and> filter (prefix ''CPP FAIL '') (ck_out c) = [''CPP FAIL unary.responder got=cpp want=r'']"
    unfolding assms(4) ans
    by (simp add: unary_part_def delivered_def assms(2) checker_init_def item_checks_def int_of_size_def int_of_count_def Let_def)
  then obtain c1 where c1: "unary_part parse_reply (unary_events 1 (answer ''/interop.v1.Interop/Echo'')) checker_init = Some c1"
    "ck_failures c1 = 1" "filter (prefix ''CPP FAIL '') (ck_out c1) = [''CPP FAIL unary.responder got=cpp want=r'']" by blast
  have ms: "stream_events (answer ''/interop.v1.Interop/EchoStream'') =
      replicate 3 (Some (delivered 2 None (0, []))) @
      map (\<lambda>i. Some (delivered 2 (to_buffer (ser_reply (stream_answer make_request i))) (0, []))) [0, 1, 2] @
      [Some (no_event\<lparr>pv_tag := 2\<rparr>), Some (delivered 2 None (0, [])), None]"
    unfolding assms(4) ans by (simp add: stream_events_def upt_rec)
  have "\<exists>c. stream_part parse_reply (ser_req make_request) (stream_events (answer ''/interop.v1.Interop/EchoStream'')) c1 ?ops =
      Some (c, ?ops @ [C_StartCall ''/interop.v1.Interop/EchoStream'', C_Write (to_buffer (ser_req make_request)), C_WritesDone] @
        replicate 4 C_Read @ [C_Finish]) \<and>
      ck_failures c = ck_failures c1 \<and> filter (prefix ''CPP FAIL '') (ck_out c) = filter (prefix ''CPP FAIL '') (ck_out c1)"
    unfolding ms
    by (simp add: stream_part_def delivered_def assms(3) and_await_def no_event_def to_string_digit Let_def eval_nat_numeral)
  then obtain c2 where c2: "stream_part parse_reply (ser_req make_request) (stream_events (answer ''/interop.v1.Interop/EchoStream'')) c1 ?ops =
      Some (c2, ?ops @ [C_StartCall ''/interop.v1.Interop/EchoStream'', C_Write (to_buffer (ser_req make_request)), C_WritesDone] @
        replicate 4 C_Read @ [C_Finish])"
    "ck_failures c2 = 1" "filter (prefix ''CPP FAIL '') (ck_out c2) = [''CPP FAIL unary.responder got=cpp want=r'']"
    using c1(2,3) by auto
  have "\<exists>c. fail_part (unary_events 3 (answer ''/interop.v1.Interop/Fail'')) c2 = Some c \<and>
      ck_failures c = ck_failures c2 \<and> filter (prefix ''CPP FAIL '') (ck_out c) = filter (prefix ''CPP FAIL '') (ck_out c2)"
    unfolding assms(4) ans by (simp add: fail_part_def delivered_def Let_def)
  with c1 c2 show ?thesis by (auto simp: cpp_client_main_def checker_finish_def Let_def)
qed

theorem interop_peers_agree_witness:
  "\<exists>out ops. cpp_client_main (\<lambda>_. ''request'')
      (\<lambda>w. if w = ''hello'' then echo_answer make_request else echo_reply_init\<lparr>rp_text := w, rp_responder := ''cpp''\<rparr>)
      [''localhost:50051''] (unary_events 1 (server_answers rp_text (\<lambda>_. make_request) ''request'' ''/interop.v1.Interop/Echo''))
      (stream_events (server_answers rp_text (\<lambda>_. make_request) ''request'' ''/interop.v1.Interop/EchoStream''))
      (unary_events 3 (server_answers rp_text (\<lambda>_. make_request) ''request'' ''/interop.v1.Interop/Fail'')) = Some (1, out, ops) \<and>
    filter (prefix ''CPP FAIL '') out = [''CPP FAIL unary.responder got=cpp want=r'']"
proof -
  let ?pr = "\<lambda>w. if w = ''hello'' then echo_answer make_request else echo_reply_init\<lparr>rp_text := w, rp_responder := ''cpp''\<rparr>"
  have "(\<lambda>_. make_request) ((\<lambda>_. ''request'') make_request) = make_request" by simp
  moreover have "?pr (rp_text (echo_answer make_request)) = echo_answer make_request" by simp
  moreover have "?pr (rp_text (stream_answer make_request i)) = stream_answer make_request i" if "i \<in> {0, 1, 2}" for i
    by (simp add: stream_answer_def)
  ultimately show ?thesis
    using interop_peers_agree [of "\<lambda>_. make_request" "\<lambda>_. ''request''" ?pr rp_text, OF _ _ _ refl, of "''localhost:50051''"] by blast
qed

end
