(* ===== verification/Spec2Isabelle.thy ===== *)
theory Spec2Isabelle
  imports Client_Calls Server_Streams Shim Interop
begin

text \<open>
  \<^bold>\<open>rgrpc: gRPC for R, the C++ side.\<close>

  The package gives R an asynchronous gRPC client and server.  Each of them is a C++ object with a
  completion thread of its own: R calls entry points that start operations on the gRPC library, the
  thread receives their completions, queues events and signals a wake handle, and R polls the
  events.  The R thread and the completion thread share the object under one mutex.  The development
  models all C++ files of the repository, proves what makes each component correct and records
  where the code does not do what it means to.

  \<^bold>\<open>Theories and sources.\<close>

  \<^item> \<open>Rgrpc_Prelude\<close>: the result type \<open>res\<close> (a value, an R error, or a fault such as the use of a
    deleted object), R values, the ordered map with its contract \<open>ordered_map\<close>, call ids as 64-bit
    words and their conversion to doubles and back, reachability and its locale \<open>bounded_system\<close>.
  \<^item> \<open>Wake\<close>: \<^verbatim>\<open>src/wake.h\<close>, the pipe of the POSIX build and the socket pair of the Windows build.
  \<^item> \<open>Conversions\<close>: \<^verbatim>\<open>src/common.h\<close>, byte buffers and metadata to R values.
  \<^item> \<open>Event_Queue\<close>: what both polls of \<^verbatim>\<open>src/client.cpp\<close> and \<^verbatim>\<open>src/server.cpp\<close> share, the filter, the
    waiting loop with the timeout it gives to each \<^verbatim>\<open>poll()\<close>, and the reference definition of a batch;
    the locales \<open>waited_queue\<close> and \<open>safe_queue\<close> state what the loop needs of the object it polls,
    \<open>observed_queue\<close> adds an invariant that also sees the messages read meanwhile, and the client and
    the server interpret them.
  \<^item> \<open>Client\<close>: \<^verbatim>\<open>src/client.cpp\<close>.  \<open>client\<close>, \<open>stream_state\<close>, \<open>call_state\<close> and \<open>cl_event\<close> are the structs;
    the \<^verbatim>\<open>s_..._locked\<close> helpers and the cases of \<^verbatim>\<open>run()\<close> are definitions of the same name or
    \<open>run_start\<close>, \<open>run_read\<close>, \<open>run_write\<close>, \<open>run_wdone\<close>, \<open>run_finish\<close>, \<open>run_unary\<close>; every \<^verbatim>\<open>grpc_r_...\<close> entry
    point keeps its name.
  \<^item> \<open>Server\<close>: \<^verbatim>\<open>src/server.cpp\<close> in the same way (\<open>rserver\<close>, \<open>sv_call\<close>, \<open>sv_event\<close>, \<open>run_accept\<close>, \<open>run_svread\<close>,
    \<open>run_svwrite\<close>, \<open>run_svdone\<close>, \<open>run_svfinish\<close>).
  \<^item> \<open>Shim\<close>: \<^verbatim>\<open>src/shim.cpp\<close>, \<^verbatim>\<open>src/init.cpp\<close>, \<^verbatim>\<open>src/routines.h\<close> and \<^verbatim>\<open>src/stub.cpp\<close>.
  \<^item> \<open>Interop\<close>: \<^verbatim>\<open>tools/interop/cpp_common.h\<close>, \<^verbatim>\<open>cpp_server.cc\<close> and \<^verbatim>\<open>cpp_client.cc\<close>, the C++ peers of the
    interoperability test.

  \<^bold>\<open>How the code is modelled.\<close>  A section that runs under the mutex is one function from state to
  state.  C++ objects live in a store from addresses to records, and a pointer is an address, so
  that a pointer may outlive its object: dereferencing a deleted one is the value
  \<open>Inl Use_after_free\<close>, popping an empty deque and reading past the end of a vector are faults too,
  and \<open>Rf_error\<close> carries the message of an R error.  The library is seen through its interface: the
  operations started on it are recorded in \<open>cl_cq\<close> or \<open>sv_cq\<close> while they are outstanding and in
  \<open>cl_log\<close> or \<open>sv_log\<close> for good; it may complete any outstanding operation at any time with any
  outcome.  What it documents and the code relies on is written down where it is used: after a
  successful accept the done tag becomes outstanding, and \<^verbatim>\<open>Next\<close> returns false once the queue is
  shut down and empty.  What a system call, the clock, \<^verbatim>\<open>BuildAndStart\<close>, \<^verbatim>\<open>Rf_mkCharLen\<close> or the generated
  protobuf code returns is an argument.

  \<^bold>\<open>Loops.\<close>  The completion thread and the waiting loop of a poll recurse over the list of what
  happens around them: \<open>None\<close> means that the list ends while the code still blocks, so no fuel is
  involved and a claim that a function returns says that its result is \<open>Some\<close>.  The other loops are
  total functions with a measure (the accept window, the events of a queue, the number of replies).

  \<^bold>\<open>Invariants and systems.\<close>  \<open>Client_Inv\<close> states when the flags of a stream agree with the operations
  that are really outstanding and shows that every handler keeps it; \<open>Client_Safety\<close> and \<open>Client_Entry\<close>
  lift it to the whole client and to every entry point, \<open>Client_Shutdown\<close> shows that closing ends and
  deletes everything once.  \<open>Client_System\<close> is the step relation of R and the library together, with
  histories of the events queued, of every poll (the batch it took and what it then returned to R, a
  list or an R error), of the messages sent and of the messages read; its invariant holds in every
  reachable state.  \<open>Server_Inv\<close>, \<open>Server_Safety\<close>, \<open>Server_Entry\<close>, \<open>Server_Shutdown\<close> and \<open>Server_System\<close> do
  the same for the server.

  \<^bold>\<open>What is shown.\<close>

  \<^item> \<open>Client_Correct\<close> and \<open>Server_Correct\<close>: under every interleaving no section faults, the rules of the
    asynchronous API are kept, buffers and limits hold, every event is taken by a poll at most once and
    in order per call and reaches R unless that poll raises, no answer and no stream with a read
    buffer is forgotten.
  \<^item> \<open>Client_Fifo\<close> and \<open>Server_Fifo\<close>: the writes started are a prefix of the sends that were accepted.
  \<^item> \<open>Client_Streams\<close> and \<open>Server_Streams\<close>: the messages read are queued for R unchanged and in order, a
    half-close is for good, a stream without a read buffer asks for one message only.
  \<^item> \<open>Client_Calls\<close> and \<open>Server_Calls\<close>: what each entry point does on each branch, that a waiting poll
    loses no wake-up and ends by its deadline, that closing ends, that the end of a call is reported,
    and the limits of the code: a negative write buffer is unbounded, an R error in a poll loses the
    batch, a server may stop accepting, and a request may reach R after its call is over.
  \<^item> \<open>Wake\<close>, \<open>Conversions\<close>, \<open>Shim\<close>, \<open>Interop\<close>: the contract of the wake handle on both platforms, that no
    conversion writes out of bounds, that objects are deleted exactly once in the order their members
    need, that the routine table fits both builds, and that the two C++ peers agree with each other.
  \<^item> This theory: a stream between two R processes keeps the order of its messages.

  \<^bold>\<open>Bounds.\<close>  The properties of the client hold for fewer than \<open>2 ^ 64 - 1\<close> calls, the range of its
  ids; an id returns from R unchanged below \<open>2 ^ 53\<close>, where a double is exact.  \<open>max_active\<close> is an R
  integer, below \<open>2 ^ 31\<close>.

  \<^bold>\<open>Not modelled.\<close>  The R layer (argument checks, typed methods, promises) is another language; what it
  lets through is the predicate \<open>cmd_ok\<close>.  Translation of strings to UTF-8, R's protection stack and its
  allocation failures, the contents of TLS credentials beyond their options, and the interior of the
  gRPC library are left out: they do not touch the state modelled here.  The protobuf definitions, the
  tests, the benchmarks and the build files hold no C++ logic of the package.
\<close>

section \<open>From R to R\<close>

text \<open>
  What the library has carried: the messages it handed over with the reads of one side are, one by
  one and with all their bytes, the first messages that the other side wrote.
\<close>

definition carried :: "string list option list \<Rightarrow> string list \<Rightarrow> bool" where
  "carried ds ms \<longleftrightarrow> length ds \<le> length ms \<and>
     list_all2 (\<lambda>d m. \<exists>slices. d = Some slices \<and> concat slices = m) ds (take (length ds) ms)"

lemma carried_prefix:
  assumes "carried ds ms"
  shows "prefix (map message_text ds) ms"
proof -
  have "map message_text ds = take (length ds) ms"
    using assms unfolding carried_def
    by (intro nth_equalityI) (auto simp: list_all2_conv_all_nth)
  then show ?thesis by (metis take_is_prefix)
qed

text \<open>The first \<open>n\<close> messages queued of a call are the first \<open>n\<close> read on it.\<close>

lemma prefix_take: "prefix xs ys \<Longrightarrow> prefix (take n xs) (take n ys)"
  by (auto simp: prefix_def)

lemma requests_read:
  assumes "sv_reach ws"
  shows "prefix (requests_of i (sw_taken ws)) (map message_text (reads_of i (sw_reads ws)))"
proof -
  have "prefix (requests_of i (sw_taken ws)) (requests_of i (sw_queued ws))"
    using shist_okD(1) [OF reach_sinv(3) [OF assms], of i] by (simp add: requests_of_def)
  moreover have "prefix (requests_of i (sw_queued ws)) (map message_text (reads_of i (sw_reads ws)))"
    using svwr.reachable_inv [OF assms] by (auto simp: sreads_world_def intro: sreadsD(1))
  ultimately show ?thesis by (rule prefix_order.trans)
qed

lemma messages_read:
  assumes "cl_reach wc" and "w_calls wc < 2 ^ 64 - 1"
  shows "prefix (messages_of i (w_taken wc)) (map message_text (reads_of i (w_reads wc)))"
proof -
  have "prefix (messages_of i (w_taken wc)) (messages_of i (w_queued wc))"
    using hist_okD(1) [OF reach_inv(3) [OF assms], of i] by (simp add: messages_of_def of_id_def)
  moreover have "prefix (messages_of i (w_queued wc)) (map message_text (reads_of i (w_reads wc)))"
    using clws.reachable_inv [OF assms] by (auto simp: stream_world_def stream_inv_def intro: creadsD(1))
  ultimately show ?thesis by (rule prefix_order.trans)
qed

text \<open>Of the events taken, those that R received are a subsequence.\<close>

lemma subseq_requests: "subseq xs ys \<Longrightarrow> subseq (requests_of i xs) (requests_of i ys)"
  unfolding requests_of_def by (intro subseq_map subseq_filter)

lemma subseq_messages: "subseq xs ys \<Longrightarrow> subseq (messages_of i xs) (messages_of i ys)"
  unfolding messages_of_def by (intro subseq_map subseq_filter)

lemma writes_accepted:
  assumes "cl_reach wc" and "w_calls wc < 2 ^ 64 - 1"
  shows "prefix (written a (cl_log (w_client wc))) (sent_to a (w_sent wc))"
  using cfifoD(1) clwf.reachable_inv [OF assms] by (auto simp: fifo_world_def)

lemma answers_accepted:
  assumes "sv_reach ws"
  shows "prefix (swritten b (sv_log (sw_server ws))) (sent_to b (sw_sent ws))"
  using sfifo_okD(1) svwf.reachable_inv [OF assms] by (auto simp: sfifo_world_def)

text \<open>
  C11: A stream between two R processes keeps the order of its messages in both directions, and
  neither side invents, alters, repeats or skips one.  The library carries bytes: the first \<open>m\<close>
  messages it hands to the server with the reads of call \<open>i\<close> are the first \<open>m\<close> messages the client wrote
  on its stream at \<open>a\<close>, cut into slices somehow.  Then the first \<open>m\<close> messages of call \<open>i\<close> that the polls
  of the server's R have taken are a prefix of the messages that the client's R had accepted for
  sending on that stream, and what R received is a subsequence of what was taken.  The same holds for the first \<open>n\<close> messages from the server to the client;
  the message of a final reply, which is not one of the server's sends, may follow them.
\<close>

theorem end_to_end_order:
  assumes "cl_reach wc" and "w_calls wc < 2 ^ 64 - 1" and "sv_reach ws"
    and "carried (take m (reads_of i (sw_reads ws))) (written a (cl_log (w_client wc)))"
    and "carried (take n (reads_of j (w_reads wc))) (swritten b (sv_log (sw_server ws)))"
  shows "prefix (take m (requests_of i (sw_taken ws))) (sent_to a (w_sent wc)) \<and>
    subseq (requests_of i (sw_received ws)) (requests_of i (sw_taken ws)) \<and>
    prefix (take n (messages_of j (w_taken wc))) (sent_to b (sw_sent ws)) \<and>
    subseq (messages_of j (w_received wc)) (messages_of j (w_taken wc))"
proof (intro conjI)
  show "prefix (take m (requests_of i (sw_taken ws))) (sent_to a (w_sent wc))"
    using prefix_take [OF requests_read [OF assms(3), of i], of m] carried_prefix [OF assms(4)]
      writes_accepted [OF assms(1,2), of a]
    by (metis prefix_order.trans take_map)
  show "prefix (take n (messages_of j (w_taken wc))) (sent_to b (sw_sent ws))"
    using prefix_take [OF messages_read [OF assms(1,2), of j], of n] carried_prefix [OF assms(5)]
      answers_accepted [OF assms(3), of b]
    by (metis prefix_order.trans take_map)
  show "subseq (requests_of i (sw_received ws)) (requests_of i (sw_taken ws))"
    unfolding sw_received_def sw_taken_def by (intro subseq_requests subseq_returned)
  show "subseq (messages_of j (w_received wc)) (messages_of j (w_taken wc))"
    unfolding w_received_def w_taken_def by (intro subseq_messages subseq_returned)
qed

text \<open>A client that has sent one message and polled the answer to it, and the server it talks to.\<close>

definition linked_client :: cl_world where
  "linked_client =
     do_poll None 1
       (do_complete (Ctag 0 T_READ) (demo_completion True ''a'')
         (do_call (Stream_send 1 ''q'')
           (do_complete (Ctag 0 T_START) (demo_completion True [])
             (do_call (Stream_start 0 demo_args 4 2) demo_world))))"

lemma reach_linked_client: "cl_reach linked_client"
  unfolding linked_client_def by (intro demo_reach)

lemma linked_client_state:
  "written 0 (cl_log (w_client linked_client)) = [''q'']" "reads_of 1 (w_reads linked_client) = [Some [''a'']]"
  "messages_of 1 (w_taken linked_client) = [''a'']" "w_calls linked_client < 2 ^ 64 - 1"
  by (simp_all add: linked_client_def demo_defs Let_def written_def messages_of_def cl_poll_locked_def cl_drain_def
      matches_def cl_taken_def msg_event_def cl_event_init_def grpc_byte_buffer_to_string_def w_taken_def cl_filled_def
      batches_def reads_of_def)

theorem end_to_end_order_witness:
  "messages_of 1 (w_taken linked_client) = [''a''] \<and> prefix [''a''] (sent_to 0 (sw_sent streaming)) \<and>
   prefix (take 1 (requests_of 1 (sw_taken streaming))) (sent_to 0 (w_sent linked_client))"
proof -
  have "reads_of 1 (sw_reads streaming) = [Some [''q'']]" "swritten 0 (sv_log (sw_server streaming)) = [''a'']"
    by (simp_all add: reads_of_def sv_filled_def swritten_def streaming_def requested_def served_defs Let_def)
  with end_to_end_order [OF reach_linked_client linked_client_state(4) reach_streaming, of 1 1 0 1 1 0] linked_client_state
  show ?thesis by (simp add: carried_def)
qed

end
